(* ===== verification/Maf_Prelude.thy ===== *)
theory Maf_Prelude
  imports Main "HOL-Library.Sublist"
begin

text \<open>
  Shared ground of the development: results that may raise, the string operations of the
  Python standard library the modelled code uses, and the generic facts about them.

  A Python string is modelled by a \<^typ>\<open>string\<close>, so a character stands for a code point below
  256; every operation here looks at code points of the ASCII or Latin-1 range only.  A call
  that may raise returns a sum: \<open>Inl\<close> carries the exception, \<open>Inr\<close> the value.
\<close>

named_theorems res_simps \<open>evaluation of results\<close>
named_theorems str_simps \<open>splitting and joining of strings\<close>

subsection \<open>Results\<close>

definition bindE :: "'e + 'a \<Rightarrow> ('a \<Rightarrow> 'e + 'b) \<Rightarrow> 'e + 'b" where
  "bindE m f = (case m of Inl e \<Rightarrow> Inl e | Inr x \<Rightarrow> f x)"

definition raiseIf :: "bool \<Rightarrow> 'e \<Rightarrow> 'e + unit" where
  "raiseIf c e = (if c then Inl e else Inr ())"

lemma bindE_simps [simp, res_simps]:
  "bindE (Inl e) f = Inl e"
  "bindE (Inr x) f = f x"
  by (simp_all add: bindE_def)

lemma bindE_eq_Inr [res_simps]:
  "bindE m f = Inr y \<longleftrightarrow> (\<exists>x. m = Inr x \<and> f x = Inr y)"
  by (cases m) auto

lemma bindE_eq_Inl [res_simps]:
  "bindE m f = Inl e \<longleftrightarrow> m = Inl e \<or> (\<exists>x. m = Inr x \<and> f x = Inl e)"
  by (cases m) auto

lemma raiseIf_eq_Inr [simp, res_simps]: "raiseIf c e = Inr u \<longleftrightarrow> \<not> c"
  by (simp add: raiseIf_def)

lemma raiseIf_eq_Inl [simp, res_simps]: "raiseIf c e = Inl e' \<longleftrightarrow> c \<and> e' = e"
  by (auto simp: raiseIf_def)

lemma bindE_raiseIf [res_simps]:
  "bindE (raiseIf c e) f = (if c then Inl e else f ())"
  by (simp add: raiseIf_def)

text \<open>A loop whose body may raise: the first exception ends it.\<close>

fun each :: "('a \<Rightarrow> 'e + unit) \<Rightarrow> 'a list \<Rightarrow> 'e + unit" where
  "each f [] = Inr ()"
| "each f (x # xs) = bindE (f x) (\<lambda>_. each f xs)"

lemma each_eq_Inr: "each f xs = Inr u \<longleftrightarrow> (\<forall>x \<in> set xs. f x = Inr ())"
  by (induction xs) (auto simp: bindE_eq_Inr)

fun mapE :: "('a \<Rightarrow> 'e + 'b) \<Rightarrow> 'a list \<Rightarrow> 'e + 'b list" where
  "mapE f [] = Inr []"
| "mapE f (x # xs) = bindE (f x) (\<lambda>y. bindE (mapE f xs) (\<lambda>ys. Inr (y # ys)))"

lemma mapE_eq_Inr: "mapE f xs = Inr ys \<longleftrightarrow> list_all2 (\<lambda>x y. f x = Inr y) xs ys"
  by (induction xs arbitrary: ys) (auto simp: bindE_eq_Inr list_all2_Cons1)

lemma mapE_fixed: "(\<And>x. x \<in> set xs \<Longrightarrow> f x = Inr x) \<Longrightarrow> mapE f xs = Inr xs"
  by (induction xs) auto

lemma find_SomeD: "find P xs = Some x \<Longrightarrow> x \<in> set xs \<and> P x"
  by (induction xs) (auto split: if_splits)

lemma find_NoneD: "find P xs = None \<Longrightarrow> x \<in> set xs \<Longrightarrow> \<not> P x"
  by (auto simp: find_None_iff)

subsection \<open>Splitting and joining\<close>

text \<open>\<open>split_on c s\<close> is \<open>s.split(c)\<close>, \<open>join_with c xs\<close> is \<open>c.join(xs)\<close>.\<close>

fun split_on :: "char \<Rightarrow> string \<Rightarrow> string list" where
  "split_on c [] = [[]]"
| "split_on c (x # xs) =
     (if x = c then [] # split_on c xs
      else (case split_on c xs of [] \<Rightarrow> [[x]] | p # ps \<Rightarrow> (x # p) # ps))"

fun join_with :: "char \<Rightarrow> string list \<Rightarrow> string" where
  "join_with c [] = []"
| "join_with c [x] = x"
| "join_with c (x # y # zs) = x @ c # join_with c (y # zs)"

lemma split_on_nonempty [simp]: "split_on c s \<noteq> []"
  by (induction s) (auto split: list.splits)

lemma split_on_pieces: "p \<in> set (split_on c s) \<Longrightarrow> c \<notin> set p"
  by (induction s arbitrary: p) (auto split: list.splits if_splits)

lemma split_on_chars: "p \<in> set (split_on c s) \<Longrightarrow> set p \<subseteq> set s"
proof (induction s arbitrary: p)
  case (Cons x xs)
  then show ?case
    by (cases "split_on c xs") (fastforce split: if_splits)+
qed simp

lemma join_with_Cons: "xs \<noteq> [] \<Longrightarrow> join_with c (x # xs) = x @ c # join_with c xs"
  by (cases xs) simp_all

lemma join_split [simp, str_simps]: "join_with c (split_on c s) = s"
proof (induction s)
  case (Cons x xs)
  show ?case
  proof (cases "split_on c xs")
    case Nil
    then show ?thesis using split_on_nonempty [of c xs] by simp
  next
    case (Cons p ps)
    then show ?thesis
      using Cons.IH by (cases ps) auto
  qed
qed simp

lemma split_on_free [str_simps]: "c \<notin> set p \<Longrightarrow> split_on c p = [p]"
  by (induction p) auto

lemma split_on_append [str_simps]:
  "c \<notin> set p \<Longrightarrow> split_on c (p @ c # s) = p # split_on c s"
  by (induction p) auto

lemma split_join [str_simps]:
  "xs \<noteq> [] \<Longrightarrow> \<forall>x \<in> set xs. c \<notin> set x \<Longrightarrow> split_on c (join_with c xs) = xs"
  by (induction c xs rule: join_with.induct) (auto simp: split_on_free split_on_append)

lemma split_on_sep_last: "split_on c (s @ [c]) = split_on c s @ [[]]"
  by (induction s) (auto split: list.splits)

lemma split_on_append_sep: "split_on c (s @ c # t) = split_on c s @ split_on c t"
proof (induction s)
  case (Cons x xs)
  then show ?case
    by (cases "split_on c xs") auto
qed simp

lemma set_join_with: "set (join_with c xs) \<subseteq> insert c (\<Union> (set ` set xs))"
  by (induction c xs rule: join_with.induct) auto

lemma join_with_append:
  "xs \<noteq> [] \<Longrightarrow> ys \<noteq> [] \<Longrightarrow> join_with c (xs @ ys) = join_with c xs @ c # join_with c ys"
  by (induction c xs rule: join_with.induct) (auto simp: join_with_Cons)

lemma join_with_inj:
  assumes "\<forall>x \<in> set xs. c \<notin> set x" and "\<forall>y \<in> set ys. c \<notin> set y"
    and "xs \<noteq> []" and "ys \<noteq> []" and "join_with c xs = join_with c ys"
  shows "xs = ys"
  using assms split_join by metis

lemma join_with_eq_Nil: "\<forall>x \<in> set xs. x \<noteq> [] \<Longrightarrow> join_with c xs = [] \<longleftrightarrow> xs = []"
  by (induction c xs rule: join_with.induct) auto

text \<open>
  A joined list extends another joined list and a separator exactly when the lists extend each
  other: this carries string tests of the form \<open>s.startswith(base + c)\<close> to lists of segments.
\<close>

lemma prefix_join_sep:
  assumes "\<forall>x \<in> set xs. c \<notin> set x" and "\<forall>y \<in> set ys. c \<notin> set y"
    and "xs \<noteq> []" and "ys \<noteq> []"
  shows "prefix (join_with c xs @ [c]) (join_with c ys) \<longleftrightarrow> strict_prefix xs ys"
proof
  assume "prefix (join_with c xs @ [c]) (join_with c ys)"
  then obtain t where t: "join_with c ys = join_with c xs @ c # t"
    by (auto simp: prefix_def)
  have "ys = split_on c (join_with c ys)"
    using assms by (simp add: split_join)
  also have "\<dots> = xs @ split_on c t"
    using assms by (simp add: t split_on_append_sep split_join)
  finally show "strict_prefix xs ys"
    by (metis prefixI split_on_nonempty append_self_conv strict_prefix_def)
next
  assume "strict_prefix xs ys"
  then obtain zs where "ys = xs @ zs" "zs \<noteq> []"
    by (auto simp: strict_prefix_def prefix_def)
  then show "prefix (join_with c xs @ [c]) (join_with c ys)"
    using assms(3) by (simp add: join_with_append)
qed

end
