(* ===== verification/Posix_Path.thy ===== *)
theory Posix_Path
  imports Maf_Prelude
begin

text \<open>
  The functions of Python's \<open>posixpath\<close> that the guest-path helpers call, and their
  meaning on lists of segments.  A normalised path is its number of leading slashes (0, 1 or
  2, the three forms POSIX distinguishes) and its segments.
\<close>

subsection \<open>The library functions\<close>

abbreviation slash :: char where "slash \<equiv> CHR ''/''"
abbreviation dot :: string where "dot \<equiv> ''.''"
abbreviation dotdot :: string where "dotdot \<equiv> ''..''"

definition isabs :: "string \<Rightarrow> bool" where
  "isabs p \<longleftrightarrow> prefix ''/'' p"

definition leading_slashes :: "string \<Rightarrow> nat" where
  "leading_slashes p =
     (if prefix ''//'' p \<and> \<not> prefix ''///'' p then 2 else if prefix ''/'' p then 1 else 0)"

text \<open>One turn of the loop of \<open>normpath\<close>; the stack grows at its right end.\<close>

definition push_segment :: "bool \<Rightarrow> string list \<Rightarrow> string \<Rightarrow> string list" where
  "push_segment rooted acc seg =
     (if seg = [] \<or> seg = dot then acc
      else if seg \<noteq> dotdot \<or> (\<not> rooted \<and> acc = []) \<or> (acc \<noteq> [] \<and> last acc = dotdot)
        then acc @ [seg]
      else if acc \<noteq> [] then butlast acc
      else acc)"

definition norm_segments :: "bool \<Rightarrow> string list \<Rightarrow> string list" where
  "norm_segments rooted segs = foldl (push_segment rooted) [] segs"

definition render :: "nat \<Rightarrow> string list \<Rightarrow> string" where
  "render n segs =
     (let p = replicate n slash @ join_with slash segs in if p = [] then dot else p)"

definition norm_form :: "string \<Rightarrow> nat \<times> string list" where
  "norm_form p =
     (let n = leading_slashes p in (n, norm_segments (0 < n) (split_on slash p)))"

definition normpath :: "string \<Rightarrow> string" where
  "normpath p = (if p = [] then dot else (case norm_form p of (n, segs) \<Rightarrow> render n segs))"

definition path_join :: "string \<Rightarrow> string \<Rightarrow> string" where
  "path_join a b =
     (if prefix ''/'' b \<or> a = [] then b
      else if last a = slash then a @ b
      else a @ slash # b)"

definition rstrip_slash :: "string \<Rightarrow> string" where
  "rstrip_slash p = rev (dropWhile (\<lambda>c. c = slash) (rev p))"

definition dirname :: "string \<Rightarrow> string" where
  "dirname p =
     (let head = rev (dropWhile (\<lambda>c. c \<noteq> slash) (rev p))
      in if head \<noteq> [] \<and> \<not> (\<forall>c \<in> set head. c = slash) then rstrip_slash head else head)"

subsection \<open>Segments\<close>

definition plain :: "string \<Rightarrow> bool" where
  "plain seg \<longleftrightarrow> seg \<noteq> [] \<and> seg \<noteq> dot \<and> seg \<noteq> dotdot \<and> slash \<notin> set seg"

definition seg_ok :: "string \<Rightarrow> bool" where
  "seg_ok seg \<longleftrightarrow> seg \<noteq> [] \<and> seg \<noteq> dot \<and> slash \<notin> set seg"

text \<open>
  The shape of a normalised list of segments: no empty segment and no \<open>.\<close>, and \<open>..\<close> only
  as a prefix, which a rooted path does not have at all.
\<close>

definition norm_shape :: "bool \<Rightarrow> string list \<Rightarrow> bool" where
  "norm_shape rooted segs \<longleftrightarrow>
     (\<exists>k rest. segs = replicate k dotdot @ rest \<and> (rooted \<longrightarrow> k = 0) \<and> list_all plain rest)"

lemma norm_shapeI:
  "list_all plain rest \<Longrightarrow> (rooted \<longrightarrow> k = 0) \<Longrightarrow> norm_shape rooted (replicate k dotdot @ rest)"
  by (auto simp: norm_shape_def)

lemma norm_shape_rooted [simp]: "norm_shape True segs \<longleftrightarrow> list_all plain segs"
  by (auto simp: norm_shape_def)

lemma norm_shape_Nil [simp]: "norm_shape r []"
  unfolding norm_shape_def by (rule exI [of _ 0]) simp

lemma plain_seg_ok: "plain s \<Longrightarrow> seg_ok s"
  by (simp add: plain_def seg_ok_def)

lemma seg_ok_dotdot [simp]: "seg_ok dotdot"
  by (simp add: seg_ok_def)

lemma norm_shape_seg_ok: "norm_shape r segs \<Longrightarrow> list_all seg_ok segs"
proof -
  assume "norm_shape r segs"
  then obtain k rest where segs: "segs = replicate k dotdot @ rest" and "list_all plain rest"
    by (auto simp: norm_shape_def)
  then have "list_all seg_ok rest" by (auto intro: list.pred_mono_strong plain_seg_ok)
  then show ?thesis by (simp only: segs list_all_append) (simp add: list_all_length)
qed

lemma push_segment_shape:
  assumes "norm_shape r acc" and "slash \<notin> set seg"
  shows "norm_shape r (push_segment r acc seg)"
proof -
  from assms(1) obtain k rest where acc: "acc = replicate k dotdot @ rest"
    and r: "r \<longrightarrow> k = 0" and rest: "list_all plain rest"
    by (auto simp: norm_shape_def)
  show ?thesis
  proof (cases "seg = [] \<or> seg = dot")
    case True
    then show ?thesis using assms(1) by (simp add: push_segment_def)
  next
    case False
    show ?thesis
    proof (cases "seg = dotdot")
      case False
      with \<open>\<not> (seg = [] \<or> seg = dot)\<close> assms(2) have "plain seg" by (simp add: plain_def)
      with False \<open>\<not> (seg = [] \<or> seg = dot)\<close> show ?thesis
        using norm_shapeI [of "rest @ [seg]" r k] r rest by (simp add: push_segment_def acc)
    next
      case True
      show ?thesis
      proof (cases rest rule: rev_cases)
        case Nil
        then have "push_segment r acc seg = (if r then [] else replicate (Suc k) dotdot @ [])"
          using True acc r
          by (cases k) (auto simp: push_segment_def replicate_append_same)
        then show ?thesis using norm_shapeI [of "[]" r "Suc k"] by (cases r) auto
      next
        case (snoc ys y)
        then have "y \<noteq> dotdot" using rest by (simp add: plain_def)
        then have "push_segment r acc seg = replicate k dotdot @ ys"
          using True acc snoc by (simp add: push_segment_def butlast_append)
        then show ?thesis using norm_shapeI [of ys r k] rest snoc r by simp
      qed
    qed
  qed
qed

lemma foldl_push_shape:
  "norm_shape r acc \<Longrightarrow> \<forall>s \<in> set segs. slash \<notin> set s \<Longrightarrow>
   norm_shape r (foldl (push_segment r) acc segs)"
  by (induction segs arbitrary: acc) (auto simp: push_segment_shape)

lemma norm_segments_shape:
  "\<forall>s \<in> set segs. slash \<notin> set s \<Longrightarrow> norm_shape r (norm_segments r segs)"
  by (simp add: norm_segments_def foldl_push_shape)

text \<open>A normalised list is left as it is.\<close>

lemma foldl_push_plain:
  "list_all plain rest \<Longrightarrow> foldl (push_segment r) acc rest = acc @ rest"
  by (induction rest arbitrary: acc) (auto simp: push_segment_def plain_def)

lemma foldl_push_dotdots:
  "\<not> r \<Longrightarrow> foldl (push_segment r) (replicate j dotdot) (replicate k dotdot)
     = replicate (j + k) dotdot"
proof (induction k arbitrary: j)
  case (Suc k)
  have "push_segment r (replicate j dotdot) dotdot = replicate (Suc j) dotdot"
    using Suc.prems by (cases j) (auto simp: push_segment_def replicate_append_same)
  then show ?case using Suc.IH [of "Suc j"] Suc.prems by simp
qed simp

lemma norm_segments_id: "norm_shape r segs \<Longrightarrow> norm_segments r segs = segs"
proof -
  assume "norm_shape r segs"
  then obtain k rest where segs: "segs = replicate k dotdot @ rest"
    and r: "r \<longrightarrow> k = 0" and rest: "list_all plain rest"
    by (auto simp: norm_shape_def)
  show ?thesis
  proof (cases r)
    case True
    then show ?thesis using segs r rest by (simp add: norm_segments_def foldl_push_plain)
  next
    case False
    then show ?thesis
      using foldl_push_dotdots [of r 0 k] segs rest
      by (simp add: norm_segments_def foldl_push_plain)
  qed
qed

lemma norm_segments_append_shape:
  "norm_shape r xs \<Longrightarrow> norm_segments r (xs @ ys) = foldl (push_segment r) xs ys"
  using norm_segments_id by (simp add: norm_segments_def)

subsection \<open>Rendering and reading back\<close>

lemma slash_free_norm_form:
  "norm_form p = (n, segs) \<Longrightarrow> n \<le> 2 \<and> norm_shape (0 < n) segs"
  using split_on_pieces [of _ slash p]
  by (auto simp: norm_form_def Let_def leading_slashes_def intro!: norm_segments_shape)

lemma shape_slash_free: "norm_shape r segs \<Longrightarrow> \<forall>s \<in> set segs. slash \<notin> set s"
  by (auto dest!: norm_shape_seg_ok simp: list_all_iff seg_ok_def)

lemma shape_nonempty_segs: "norm_shape r segs \<Longrightarrow> \<forall>s \<in> set segs. s \<noteq> []"
  by (auto dest!: norm_shape_seg_ok simp: list_all_iff seg_ok_def)

lemma join_hd_not_slash:
  "list_all seg_ok segs \<Longrightarrow> segs \<noteq> [] \<Longrightarrow> \<exists>c cs. join_with slash segs = c # cs \<and> c \<noteq> slash"
  by (cases "(slash, segs)" rule: join_with.cases)
    (auto simp: seg_ok_def neq_Nil_conv)

lemma render_eq:
  "list_all seg_ok segs \<Longrightarrow>
   render n segs = (if n = 0 \<and> segs = [] then dot else replicate n slash @ join_with slash segs)"
  using join_with_eq_Nil [of segs slash]
  by (auto simp: render_def Let_def list_all_iff seg_ok_def)

lemma prefix_singleton: "prefix [a] p \<longleftrightarrow> (\<exists>cs. p = a # cs)"
  by (cases p) auto

lemma leading_slashes_render:
  assumes "n \<le> 2" and "list_all seg_ok segs"
  shows "leading_slashes (render n segs) = n"
proof (cases "segs = []")
  case True
  then show ?thesis
    using assms by (cases n; cases "n - 1") (auto simp: render_eq leading_slashes_def)
next
  case False
  then obtain c cs where "join_with slash segs = c # cs" "c \<noteq> slash"
    using join_hd_not_slash [OF assms(2)] by blast
  then show ?thesis
    using assms False by (cases n; cases "n - 1") (auto simp: render_eq leading_slashes_def)
qed

lemma split_replicate_slash:
  "split_on slash (replicate n slash @ s) = replicate n [] @ split_on slash s"
  by (induction n) auto

lemma foldl_push_blank: "foldl (push_segment r) acc (replicate n []) = acc"
  by (induction n) (auto simp: push_segment_def)

lemma norm_form_render:
  assumes "n \<le> 2" and "norm_shape (0 < n) segs"
  shows "norm_form (render n segs) = (n, segs)"
proof -
  note ok = norm_shape_seg_ok [OF assms(2)]
  have "norm_segments (0 < n) (split_on slash (render n segs)) = segs"
  proof (cases "segs = []")
    case True
    have "norm_segments (0 < n) (replicate n [] @ [[]]) = []"
      by (simp add: norm_segments_def foldl_push_blank) (simp add: push_segment_def)
    moreover have "norm_segments False [dot] = []"
      by (simp add: norm_segments_def push_segment_def)
    ultimately show ?thesis
      using True split_replicate_slash [of n "[]"] by (auto simp: render_eq)
  next
    case False
    then have "split_on slash (render n segs) = replicate n [] @ segs"
      using shape_slash_free [OF assms(2)]
      by (simp add: render_eq [OF ok] split_replicate_slash split_join)
    then show ?thesis
      using norm_segments_id [OF assms(2)]
      by (simp add: norm_segments_def foldl_push_blank)
  qed
  then show ?thesis
    by (simp add: norm_form_def leading_slashes_render [OF assms(1) ok])
qed

lemma render_nonempty: "render n segs \<noteq> []"
  by (simp add: render_def Let_def)

lemma normpath_render:
  "n \<le> 2 \<Longrightarrow> norm_shape (0 < n) segs \<Longrightarrow> normpath (render n segs) = render n segs"
  by (simp add: normpath_def render_nonempty norm_form_render)

lemma norm_form_Nil: "norm_form [] = (0, [])"
  by (simp add: norm_form_def leading_slashes_def norm_segments_def push_segment_def)

lemma normpath_eq_render: "normpath p = (case norm_form p of (n, segs) \<Rightarrow> render n segs)"
  by (simp add: normpath_def norm_form_Nil render_def)

lemma norm_form_normpath [simp]: "norm_form (normpath p) = norm_form p"
  using slash_free_norm_form [of p]
  by (cases "norm_form p") (simp add: normpath_eq_render norm_form_render)

lemma normpath_idem [simp]: "normpath (normpath p) = normpath p"
  by (simp add: normpath_eq_render [of "normpath p"]) (simp add: normpath_eq_render)

lemma render_inj:
  assumes "n \<le> 2" "norm_shape (0 < n) xs" "m \<le> 2" "norm_shape (0 < m) ys"
    and "render n xs = render m ys"
  shows "n = m \<and> xs = ys"
  using norm_form_render [OF assms(1,2)] norm_form_render [OF assms(3,4)] assms(5)
  by (metis prod.inject)

lemma normpath_eq_iff: "normpath p = normpath q \<longleftrightarrow> norm_form p = norm_form q"
  by (metis norm_form_normpath normpath_eq_render)

lemma isabs_render: "list_all seg_ok segs \<Longrightarrow> isabs (render n segs) \<longleftrightarrow> 0 < n"
  using join_hd_not_slash [of segs]
  by (cases n; cases "segs = []") (auto simp: isabs_def render_eq)

lemma norm_form_abs: "isabs p \<longleftrightarrow> 0 < fst (norm_form p)"
  by (auto simp: isabs_def norm_form_def Let_def leading_slashes_def prefix_def)

lemma isabs_normpath [simp]: "isabs (normpath p) \<longleftrightarrow> isabs p"
  by (simp add: norm_form_abs)

subsection \<open>Joining onto a base\<close>

lemma norm_form_render_append:
  assumes "n \<le> 2" and "norm_shape (0 < n) segs" and "\<not> isabs b" and "n = 0 \<longrightarrow> segs \<noteq> []"
  shows "norm_form (path_join (render n segs) b) =
    (n, foldl (push_segment (0 < n)) segs (split_on slash b))"
proof -
  note ok = norm_shape_seg_ok [OF assms(2)]
  have b: "\<not> prefix ''/'' b" using assms(3) by (simp add: isabs_def)
  show ?thesis
  proof (cases "segs = []")
    case True
    with assms(4) have n: "n \<noteq> 0" by simp
    then have "path_join (render n segs) b = replicate n slash @ b"
      using True b by (simp add: render_eq path_join_def)
    moreover have "leading_slashes (replicate n slash @ b) = n"
      using assms(1) n b by (cases n; cases "n - 1"; cases b) (auto simp: leading_slashes_def)
    ultimately show ?thesis
      using n True by (simp add: norm_form_def split_replicate_slash norm_segments_def
          foldl_push_blank)
  next
    case False
    have last: "last (render n segs) \<noteq> slash"
    proof -
      have "last (join_with slash segs) \<noteq> slash" "join_with slash segs \<noteq> []"
        using False ok
        by (induction slash segs rule: join_with.induct)
          (auto simp: seg_ok_def join_with_eq_Nil list_all_iff dest: last_in_set)
      then show ?thesis using False by (simp add: render_eq [OF ok])
    qed
    have eq: "path_join (render n segs) b = render n segs @ slash # b"
      using last b by (simp add: path_join_def render_nonempty)
    have "split_on slash (path_join (render n segs) b) = replicate n [] @ segs @ split_on slash b"
      using False shape_slash_free [OF assms(2)]
      by (simp add: eq split_on_append_sep)
        (simp add: render_eq [OF ok] split_replicate_slash split_join)
    moreover have "leading_slashes (path_join (render n segs) b) = n"
    proof -
      obtain c cs where "join_with slash segs = c # cs" "c \<noteq> slash"
        using join_hd_not_slash [OF ok False] by blast
      then show ?thesis
        using assms(1) False unfolding eq
        by (cases n; cases "n - 1") (auto simp: render_eq [OF ok] leading_slashes_def)
    qed
    ultimately show ?thesis
      using norm_segments_append_shape [OF assms(2)]
      by (simp add: norm_form_def norm_segments_def foldl_push_blank)
  qed
qed

lemma norm_form_dot_join:
  "\<not> isabs b \<Longrightarrow> norm_form (path_join dot b) = (0, norm_segments False (split_on slash b))"
  by (simp add: path_join_def isabs_def norm_form_def leading_slashes_def norm_segments_def
      push_segment_def)

lemma norm_form_join_rel:
  assumes "\<not> isabs b" and "norm_form w = (n, segs)"
  shows "norm_form (path_join (normpath w) b) =
    (n, foldl (push_segment (0 < n)) segs (split_on slash b))"
proof (cases "n = 0 \<and> segs = []")
  case True
  then have "normpath w = dot" using assms(2) by (simp add: normpath_eq_render render_def)
  then show ?thesis
    using True norm_form_dot_join [OF assms(1)] by (simp add: norm_segments_def)
next
  case False
  then show ?thesis
    using norm_form_render_append [of n segs b] slash_free_norm_form [OF assms(2)] assms
    by (auto simp: normpath_eq_render)
qed

lemma norm_form_join_abs: "isabs b \<Longrightarrow> norm_form (path_join a b) = norm_form b"
  by (simp add: path_join_def isabs_def)

end
