(* ===== verification/Vocabulary.thy ===== *)
theory Vocabulary
  imports Maf_Prelude
begin

text \<open>
  The vocabulary of \<open>maf_sandbox/_protocol.py\<close>: the string enumerations with their ladders,
  the transfer caps, the sandbox key, the integrity fold and the disposal fold, and the
  exceptions the modelled code raises.  Exception messages are not modelled.
\<close>

subsection \<open>Exceptions\<close>

text \<open>The router's attach refusals (the members of \<open>ATTACH_REFUSALS\<close> in \<open>_router.py\<close>).\<close>

datatype refusal =
    AttachedIdentityNotPermitted
  | BackendNotPermitted
  | CapabilityDenied
  | CapabilityNotSupported
  | EgressNotEnforced
  | IdentityDenied
  | OsFamilyNotSupported
  | ScopeNotEnforced
  | TransferLimitsNotPermitted

text \<open>
  A disposal code: one of the five of \<open>DisposalCode\<close>, or a string from outside that
  vocabulary, which nothing enforces at run time.
\<close>

datatype disposal_code = Unreachable | Timed_out | Refused | Unlisted | Unknown | Odd_code string

text \<open>
  Exceptions.  \<open>Cancelled\<close> is a cancellation from outside; \<open>Expiring\<close> is the one an
  \<open>asyncio.timeout\<close> block delivers to its own body, which its edge turns into \<open>TimeoutError\<close>.
\<close>

datatype exc =
    ValueError | TypeError | KeyError | RuntimeError | PermissionError | NotADirectoryError
  | TimeoutError | LookupError
  | Attach refusal
  | NoSandboxBackend
  | SandboxUnclean "disposal_code option"
  | BackendUnavailable
  | Cancelled
  | Expiring
  | Raised string

type_synonym 'a result = "exc + 'a"

subsection \<open>String enumerations\<close>

text \<open>\<open>Enum(str(value))\<close>: the member with that value, or \<open>ValueError\<close>.\<close>

definition enum_parse :: "('a \<Rightarrow> string) \<Rightarrow> 'a list \<Rightarrow> string \<Rightarrow> 'a result" where
  "enum_parse val_of members s =
     (case find (\<lambda>m. val_of m = s) members of None \<Rightarrow> Inl ValueError | Some m \<Rightarrow> Inr m)"

text \<open>The rank of a member: its position in the ladder, as \<open>enumerate\<close> writes it.\<close>

fun ladder_rank :: "'a list \<Rightarrow> 'a \<Rightarrow> nat" where
  "ladder_rank [] x = 0"
| "ladder_rank (y # ys) x = (if x = y then 0 else Suc (ladder_rank ys x))"

lemma ladder_rank_inj:
  "x \<in> set ys \<Longrightarrow> y \<in> set ys \<Longrightarrow> ladder_rank ys x = ladder_rank ys y \<Longrightarrow> x = y"
  by (induction ys) (auto split: if_splits)

text \<open>
  The contract every enumeration of the module has: the members are all listed, and no two
  share a value.  It is what makes a parse the inverse of \<open>str\<close>.
\<close>

locale string_enum =
  fixes val_of :: "'a \<Rightarrow> string" and members :: "'a list"
  assumes covered: "m \<in> set members"
    and value_inj: "val_of a = val_of b \<Longrightarrow> a = b"
begin

lemma parse_value: "enum_parse val_of members (val_of m) = Inr m"
proof -
  have "find (\<lambda>x. val_of x = val_of m) members = Some m"
  proof (cases "find (\<lambda>x. val_of x = val_of m) members")
    case None
    then show ?thesis using covered [of m] by (auto simp: find_None_iff)
  next
    case (Some x)
    then show ?thesis using value_inj by (auto simp: find_Some_iff)
  qed
  then show ?thesis by (simp add: enum_parse_def)
qed

lemma parse_eq_Inr: "enum_parse val_of members s = Inr m \<longleftrightarrow> s = val_of m"
proof
  assume "enum_parse val_of members s = Inr m"
  then show "s = val_of m"
    by (auto simp: enum_parse_def dest: find_SomeD split: option.splits)
qed (simp add: parse_value)

lemma parse_eq_Inl: "enum_parse val_of members s = Inl e \<longleftrightarrow> e = ValueError \<and> s \<notin> range val_of"
  using covered by (auto simp: enum_parse_def find_None_iff find_Some_iff split: option.splits)

lemma rank_inj: "ladder_rank members a = ladder_rank members b \<Longrightarrow> a = b"
  using covered by (blast intro: ladder_rank_inj)

end

subsection \<open>The isolation ladder\<close>

datatype isolation = NONE | RUNTIME | PROCESS | CONTAINER | HARDENED_CONTAINER | MICROVM | VM

primrec isolation_value :: "isolation \<Rightarrow> string" where
  "isolation_value NONE = ''none''"
| "isolation_value RUNTIME = ''runtime''"
| "isolation_value PROCESS = ''os_process''"
| "isolation_value CONTAINER = ''container''"
| "isolation_value HARDENED_CONTAINER = ''hardened_container''"
| "isolation_value MICROVM = ''microvm''"
| "isolation_value VM = ''vm''"

definition isolation_ladder :: "isolation list" where
  "isolation_ladder = [NONE, RUNTIME, PROCESS, CONTAINER, HARDENED_CONTAINER, MICROVM, VM]"

abbreviation isolation_parse :: "string \<Rightarrow> isolation result" where
  "isolation_parse \<equiv> enum_parse isolation_value isolation_ladder"

definition isolation_rank :: "isolation \<Rightarrow> nat" where
  "isolation_rank = ladder_rank isolation_ladder"

interpretation isolation_enum: string_enum isolation_value isolation_ladder
proof
  show "m \<in> set isolation_ladder" for m by (cases m) (simp_all add: isolation_ladder_def)
  show "isolation_value a = isolation_value b \<Longrightarrow> a = b" for a b by (cases a; cases b) simp_all
qed

text \<open>The ladder orders the type, so that \<open>max(a, b, key=RANK)\<close> of the code is \<open>max a b\<close>.\<close>

instantiation isolation :: linorder
begin
definition "(a :: isolation) \<le> b \<longleftrightarrow> isolation_rank a \<le> isolation_rank b"
definition "(a :: isolation) < b \<longleftrightarrow> isolation_rank a < isolation_rank b"
instance
  by standard
    (auto simp: less_eq_isolation_def less_isolation_def isolation_rank_def
      intro: isolation_enum.rank_inj)
end

definition meets_floor :: "isolation \<Rightarrow> isolation \<Rightarrow> bool" where
  "meets_floor declared floor \<longleftrightarrow> isolation_rank declared \<ge> isolation_rank floor"

lemma meets_floor_le: "meets_floor d f \<longleftrightarrow> f \<le> d"
  by (simp add: meets_floor_def less_eq_isolation_def)

subsection \<open>Sharing scopes and cleanup rungs\<close>

datatype isolation_scope = CONVERSATION | CALL

primrec isolation_scope_value :: "isolation_scope \<Rightarrow> string" where
  "isolation_scope_value CONVERSATION = ''conversation''"
| "isolation_scope_value CALL = ''call''"

definition isolation_scope_ladder :: "isolation_scope list" where
  "isolation_scope_ladder = [CONVERSATION, CALL]"

interpretation isolation_scope_enum: string_enum isolation_scope_value isolation_scope_ladder
proof
  show "m \<in> set isolation_scope_ladder" for m
    by (cases m) (simp_all add: isolation_scope_ladder_def)
  show "isolation_scope_value a = isolation_scope_value b \<Longrightarrow> a = b" for a b
    by (cases a; cases b) simp_all
qed

instantiation isolation_scope :: linorder
begin
definition "(a :: isolation_scope) \<le> b \<longleftrightarrow>
  ladder_rank isolation_scope_ladder a \<le> ladder_rank isolation_scope_ladder b"
definition "(a :: isolation_scope) < b \<longleftrightarrow>
  ladder_rank isolation_scope_ladder a < ladder_rank isolation_scope_ladder b"
instance
  by standard
    (auto simp: less_eq_isolation_scope_def less_isolation_scope_def
      intro: isolation_scope_enum.rank_inj)
end

datatype cleanup = RECLAIM_RUNG | RESET | DISPOSE

primrec cleanup_value :: "cleanup \<Rightarrow> string" where
  "cleanup_value RECLAIM_RUNG = ''reclaim''"
| "cleanup_value RESET = ''reset''"
| "cleanup_value DISPOSE = ''dispose''"

definition cleanup_ladder :: "cleanup list" where
  "cleanup_ladder = [RECLAIM_RUNG, RESET, DISPOSE]"

definition cleanup_rank :: "cleanup \<Rightarrow> nat" where
  "cleanup_rank = ladder_rank cleanup_ladder"

interpretation cleanup_enum: string_enum cleanup_value cleanup_ladder
proof
  show "m \<in> set cleanup_ladder" for m by (cases m) (simp_all add: cleanup_ladder_def)
  show "cleanup_value a = cleanup_value b \<Longrightarrow> a = b" for a b by (cases a; cases b) simp_all
qed

instantiation cleanup :: linorder
begin
definition "(a :: cleanup) \<le> b \<longleftrightarrow> cleanup_rank a \<le> cleanup_rank b"
definition "(a :: cleanup) < b \<longleftrightarrow> cleanup_rank a < cleanup_rank b"
instance
  by standard
    (auto simp: less_eq_cleanup_def less_cleanup_def cleanup_rank_def
      intro: cleanup_enum.rank_inj)
end

lemma dispose_top [simp]: "(r :: cleanup) \<le> DISPOSE"
  by (cases r) (simp_all add: less_eq_cleanup_def cleanup_rank_def cleanup_ladder_def)

lemma call_top [simp]: "(s :: isolation_scope) \<le> CALL"
  by (cases s) (simp_all add: less_eq_isolation_scope_def isolation_scope_ladder_def)

subsection \<open>Egress, capabilities, identities\<close>

datatype egress = UNRESTRICTED | ALLOWLIST | CLOSED

primrec egress_value :: "egress \<Rightarrow> string" where
  "egress_value UNRESTRICTED = ''unrestricted''"
| "egress_value ALLOWLIST = ''allowlist''"
| "egress_value CLOSED = ''closed''"

definition egress_members :: "egress list" where
  "egress_members = [UNRESTRICTED, ALLOWLIST, CLOSED]"

interpretation egress_enum: string_enum egress_value egress_members
proof
  show "m \<in> set egress_members" for m by (cases m) (simp_all add: egress_members_def)
  show "egress_value a = egress_value b \<Longrightarrow> a = b" for a b by (cases a; cases b) simp_all
qed

datatype capability =
    EXEC | RUN_CODE | HOST_TOOLS | FILES_IN | FILES_OUT | FILES_LIST | FILES_DELETE
  | SNAPSHOT | ATTACHED_IDENTITY | RECLAIM | EGRESS_METHODS | EGRESS_PATHS

primrec capability_value :: "capability \<Rightarrow> string" where
  "capability_value EXEC = ''exec''"
| "capability_value RUN_CODE = ''run_code''"
| "capability_value HOST_TOOLS = ''host_tools''"
| "capability_value FILES_IN = ''files_in''"
| "capability_value FILES_OUT = ''files_out''"
| "capability_value FILES_LIST = ''files_list''"
| "capability_value FILES_DELETE = ''files_delete''"
| "capability_value SNAPSHOT = ''snapshot''"
| "capability_value ATTACHED_IDENTITY = ''attached_identity''"
| "capability_value RECLAIM = ''reclaim''"
| "capability_value EGRESS_METHODS = ''egress_methods''"
| "capability_value EGRESS_PATHS = ''egress_paths''"

definition capability_members :: "capability list" where
  "capability_members = [EXEC, RUN_CODE, HOST_TOOLS, FILES_IN, FILES_OUT, FILES_LIST,
     FILES_DELETE, SNAPSHOT, ATTACHED_IDENTITY, RECLAIM, EGRESS_METHODS, EGRESS_PATHS]"

interpretation capability_enum: string_enum capability_value capability_members
proof
  show "m \<in> set capability_members" for m by (cases m) (simp_all add: capability_members_def)
  show "capability_value a = capability_value b \<Longrightarrow> a = b" for a b
    by (cases a; cases b) simp_all
qed

definition default_capabilities :: "capability set" where
  "default_capabilities = {EXEC, FILES_IN}"

datatype os_family = POSIX | WINDOWS

datatype identity = APP | USER

primrec identity_value :: "identity \<Rightarrow> string" where
  "identity_value APP = ''app''"
| "identity_value USER = ''user''"

interpretation identity_enum: string_enum identity_value "[APP, USER]"
proof
  show "m \<in> set [APP, USER]" for m by (cases m) simp_all
  show "identity_value a = identity_value b \<Longrightarrow> a = b" for a b by (cases a; cases b) simp_all
qed

datatype identity_scope = NO_IDENTITY | PER_SANDBOX | PER_SCOPE | SHARED

primrec identity_scope_value :: "identity_scope \<Rightarrow> string" where
  "identity_scope_value NO_IDENTITY = ''none''"
| "identity_scope_value PER_SANDBOX = ''per_sandbox''"
| "identity_scope_value PER_SCOPE = ''per_scope''"
| "identity_scope_value SHARED = ''shared''"

definition identity_scope_members :: "identity_scope list" where
  "identity_scope_members = [NO_IDENTITY, PER_SANDBOX, PER_SCOPE, SHARED]"

primrec identity_scope_rank :: "identity_scope \<Rightarrow> nat" where
  "identity_scope_rank NO_IDENTITY = 0"
| "identity_scope_rank PER_SANDBOX = 1"
| "identity_scope_rank PER_SCOPE = 2"
| "identity_scope_rank SHARED = 3"

interpretation identity_scope_enum: string_enum identity_scope_value identity_scope_members
proof
  show "m \<in> set identity_scope_members" for m
    by (cases m) (simp_all add: identity_scope_members_def)
  show "identity_scope_value a = identity_scope_value b \<Longrightarrow> a = b" for a b
    by (cases a; cases b) simp_all
qed

datatype authority_channel = EGRESS_HEADER

subsection \<open>Integrity\<close>

datatype source_integrity = UNTRUSTED | TRUSTED

definition integrity_rank :: "source_integrity \<Rightarrow> nat" where
  "integrity_rank = ladder_rank [UNTRUSTED, TRUSTED]"

record listed_file =
  listed_name :: string
  listed_integrity :: "source_integrity option"

text \<open>The loop of \<open>weakest_level\<close>, with its early return on an unestablished level.\<close>

fun weakest_from :: "source_integrity \<Rightarrow> source_integrity option list \<Rightarrow> source_integrity option" where
  "weakest_from weakest [] = Some weakest"
| "weakest_from weakest (None # levels) = None"
| "weakest_from weakest (Some level # levels) =
     (if integrity_rank level < integrity_rank weakest then weakest_from level levels
      else weakest_from weakest levels)"

definition weakest_level :: "source_integrity option list \<Rightarrow> source_integrity option" where
  "weakest_level levels = weakest_from TRUSTED levels"

definition weakest_integrity :: "listed_file list \<Rightarrow> source_integrity option" where
  "weakest_integrity files = weakest_level (map listed_integrity files)"

lemma weakest_from_eq:
  "weakest_from w levels =
     (if None \<in> set levels then None
      else if w = UNTRUSTED \<or> Some UNTRUSTED \<in> set levels then Some UNTRUSTED else Some TRUSTED)"
proof (induction w levels rule: weakest_from.induct)
  case (3 w level levels)
  then show ?case
    by (cases w; cases level) (auto simp: integrity_rank_def)
qed (auto, (metis source_integrity.exhaust)+)

subsection \<open>Transfer caps\<close>

record transfer_limits =
  max_bytes_per_file :: int
  max_total_bytes :: int
  max_files :: int

definition within_limits :: "transfer_limits \<Rightarrow> transfer_limits \<Rightarrow> bool" where
  "within_limits l ceiling \<longleftrightarrow>
     max_bytes_per_file l \<le> max_bytes_per_file ceiling
     \<and> max_total_bytes l \<le> max_total_bytes ceiling
     \<and> max_files l \<le> max_files ceiling"

definition mib :: int where "mib = 1024 * 1024"

definition default_transfer_limits :: transfer_limits where
  "default_transfer_limits =
     \<lparr>max_bytes_per_file = 8 * mib, max_total_bytes = 32 * mib, max_files = 64\<rparr>"

record sandbox_limits =
  limits_in :: transfer_limits
  limits_out :: transfer_limits

definition default_sandbox_limits :: sandbox_limits where
  "default_sandbox_limits =
     \<lparr>limits_in = default_transfer_limits, limits_out = default_transfer_limits\<rparr>"

lemma within_limits_refl [simp]: "within_limits l l"
  by (simp add: within_limits_def)

lemma within_limits_trans: "within_limits a b \<Longrightarrow> within_limits b c \<Longrightarrow> within_limits a c"
  by (auto simp: within_limits_def)

lemma within_limits_antisym: "within_limits a b \<Longrightarrow> within_limits b a \<Longrightarrow> (a :: transfer_limits) = b"
  by (auto simp: within_limits_def)

subsection \<open>Sandbox keys\<close>

record sandbox_key =
  key_scope :: string
  thread_id :: string
  agent_id :: string
  call_id :: string

text \<open>
  \<open>SandboxKey.__init__\<close>: the agent under its name or under the deprecated \<open>agent_dir\<close>, not
  under both and not under neither.  The deprecation warning is not modelled.
\<close>

definition make_key ::
  "string \<Rightarrow> string \<Rightarrow> string option \<Rightarrow> string \<Rightarrow> string option \<Rightarrow> sandbox_key result" where
  "make_key scope thread agent call agent_dir =
     (case agent of
        None \<Rightarrow> (case agent_dir of
            None \<Rightarrow> Inl TypeError
          | Some d \<Rightarrow> Inr \<lparr>key_scope = scope, thread_id = thread, agent_id = d, call_id = call\<rparr>)
      | Some a \<Rightarrow> (case agent_dir of
            None \<Rightarrow> Inr \<lparr>key_scope = scope, thread_id = thread, agent_id = a, call_id = call\<rparr>
          | Some _ \<Rightarrow> Inl TypeError))"

subsection \<open>Entries of a guest file system\<close>

datatype entry_kind = FILE | DIRECTORY | SYMLINK | OTHER

record sandbox_entry =
  entry_path :: string
  entry_kind :: entry_kind
  size_bytes :: "int option"

subsection \<open>Disposal failures\<close>

record disposal_failure =
  code :: disposal_code
  detail :: string

record scope_purge =
  disposed :: int
  undisposed :: "disposal_failure option"

definition disposal_precedence :: "disposal_code list" where
  "disposal_precedence = [Unreachable, Timed_out, Refused, Unlisted, Unknown]"

text \<open>\<open>"; ".join\<close> over the details.\<close>

fun join_details :: "string list \<Rightarrow> string" where
  "join_details [] = []"
| "join_details [d] = d"
| "join_details (d # ds) = d @ ''; '' @ join_details ds"

definition worst_code :: "disposal_failure list \<Rightarrow> disposal_code" where
  "worst_code failures =
     (case find (\<lambda>c. c \<in> code ` set failures) disposal_precedence of
        None \<Rightarrow> Unknown
      | Some c \<Rightarrow> c)"

definition fold_disposal_failures :: "disposal_failure list \<Rightarrow> disposal_failure option" where
  "fold_disposal_failures failures =
     (case failures of
        [] \<Rightarrow> None
      | [only] \<Rightarrow>
          Some (if code only = worst_code failures then only
                else \<lparr>code = worst_code failures, detail = detail only\<rparr>)
      | _ \<Rightarrow> Some \<lparr>code = worst_code failures, detail = join_details (map detail failures)\<rparr>)"

lemma fold_disposal_None [simp]: "fold_disposal_failures fs = None \<longleftrightarrow> fs = []"
  by (auto simp: fold_disposal_failures_def split: list.splits)

lemma fold_disposal_code:
  "fold_disposal_failures fs = Some f \<Longrightarrow> code f = worst_code fs"
  by (auto simp: fold_disposal_failures_def split: list.splits if_splits)

lemma worst_code_known: "worst_code fs \<in> set disposal_precedence"
proof (cases "find (\<lambda>c. c \<in> code ` set fs) disposal_precedence")
  case None
  then show ?thesis by (simp add: worst_code_def) (simp add: disposal_precedence_def)
next
  case (Some c)
  then show ?thesis by (auto simp: worst_code_def dest: find_SomeD)
qed

end
