(* ===== verification/Guest_Paths.thy ===== *)
theory Guest_Paths
  imports Posix_Path Vocabulary
begin

unbundle bit_operations_syntax

text \<open>
  The guest-path helpers of \<open>maf_sandbox/paths.py\<close>.  A \<open>stat\<close> handed to a helper is a
  function from a guest path to the entry there, or \<open>None\<close>, and may raise; an \<open>ask\<close> puts one
  argv to the guest and answers its exit status.  Awaiting is not visible here: no state is
  shared between two calls of a helper.
\<close>

type_synonym stat_fun = "string \<Rightarrow> sandbox_entry option result"
type_synonym ask_fun = "string list \<Rightarrow> int result"

subsection \<open>The file name check\<close>

definition guest_path_relative_to :: "string \<Rightarrow> string \<Rightarrow> string option" where
  "guest_path_relative_to path base =
     (let resolved = normpath path; root = normpath base
      in if resolved = root then Some []
         else if root = dot
           then (if isabs resolved \<or> resolved = dotdot \<or> prefix ''../'' resolved
                 then None else Some resolved)
         else let pre = (if suffix ''/'' root then root else root @ ''/'')
           in if \<not> prefix pre resolved then None else Some (drop (length pre) resolved))"

definition confine_resolve_guest_path :: "string \<Rightarrow> string \<Rightarrow> string result" where
  "confine_resolve_guest_path path working_directory =
     (if CHR 0x5C \<in> set path then Inl ValueError
      else let base = normpath working_directory; resolved = normpath (path_join base path)
        in if guest_path_relative_to resolved base = None then Inl ValueError
           else Inr resolved)"

definition resolve_guest_working_directory :: "string \<Rightarrow> string \<Rightarrow> string result" where
  "resolve_guest_working_directory working_directory base =
     (if isabs working_directory then Inr working_directory
      else confine_resolve_guest_path working_directory base)"

subsection \<open>The filesystem path check\<close>

fun base_ancestors :: "string \<Rightarrow> string list \<Rightarrow> string list" where
  "base_ancestors so_far [] = []"
| "base_ancestors so_far (seg # segs) =
     (let here = so_far @ ''/'' @ seg in here # base_ancestors here segs)"

fun extend_ancestors :: "string list \<Rightarrow> string list \<Rightarrow> string list" where
  "extend_ancestors paths [] = paths"
| "extend_ancestors paths (seg # segs) =
     extend_ancestors (paths @ [path_join (if paths \<noteq> [] then last paths else ''/'') seg]) segs"

definition guest_path_and_ancestors :: "string \<Rightarrow> string \<Rightarrow> string list" where
  "guest_path_and_ancestors guest_path working_directory =
     (let base = normpath working_directory;
          above = base_ancestors [] (filter (\<lambda>s. s \<noteq> []) (split_on slash base))
      in case guest_path_relative_to guest_path base of
           None \<Rightarrow> above
         | Some relative \<Rightarrow>
             if relative = [] then above
             else extend_ancestors above (split_on slash relative))"

fun check_directories :: "stat_fun \<Rightarrow> string list \<Rightarrow> unit result" where
  "check_directories stat [] = Inr ()"
| "check_directories stat (directory # rest) =
     bindE (stat directory) (\<lambda>entry.
       case entry of
         None \<Rightarrow> Inr ()
       | Some e \<Rightarrow>
           if entry_kind e = SYMLINK then Inl ValueError
           else if entry_kind e \<noteq> DIRECTORY then Inl NotADirectoryError
           else check_directories stat rest)"

definition refuse_symlinked_ancestors ::
  "stat_fun \<Rightarrow> string \<Rightarrow> string \<Rightarrow> bool \<Rightarrow> unit result" where
  "refuse_symlinked_ancestors stat guest_path working_directory include_self =
     (let deepest = (if include_self then guest_path else dirname guest_path)
      in check_directories stat (guest_path_and_ancestors deepest working_directory))"

subsection \<open>The four bundles\<close>

definition confine_resolve_guest_write_path ::
  "stat_fun \<Rightarrow> string \<Rightarrow> string \<Rightarrow> string result" where
  "confine_resolve_guest_write_path stat path working_directory =
     bindE (confine_resolve_guest_path path working_directory) (\<lambda>resolved.
       if resolved = normpath working_directory then Inl ValueError
       else bindE (refuse_symlinked_ancestors stat resolved working_directory False) (\<lambda>_.
         bindE (stat resolved) (\<lambda>entry.
           case entry of
             None \<Rightarrow> Inr resolved
           | Some e \<Rightarrow> if entry_kind e = SYMLINK then Inl ValueError else Inr resolved)))"

definition confine_resolve_guest_read_path ::
  "stat_fun \<Rightarrow> string \<Rightarrow> string \<Rightarrow> string result" where
  "confine_resolve_guest_read_path stat path working_directory =
     bindE (confine_resolve_guest_path path working_directory) (\<lambda>resolved.
       bindE (refuse_symlinked_ancestors stat resolved working_directory False) (\<lambda>_.
         Inr resolved))"

definition confine_resolve_guest_list_path ::
  "stat_fun \<Rightarrow> string \<Rightarrow> string \<Rightarrow> string result" where
  "confine_resolve_guest_list_path stat path working_directory =
     bindE (confine_resolve_guest_path path working_directory) (\<lambda>resolved.
       bindE (refuse_symlinked_ancestors stat resolved working_directory True) (\<lambda>_.
         Inr resolved))"

definition confine_resolve_guest_delete_path ::
  "stat_fun \<Rightarrow> string \<Rightarrow> string \<Rightarrow> string result" where
  "confine_resolve_guest_delete_path stat path working_directory =
     bindE (confine_resolve_guest_path path working_directory) (\<lambda>resolved.
       if resolved = normpath working_directory then Inl ValueError
       else bindE (refuse_symlinked_ancestors stat resolved working_directory False) (\<lambda>_.
         Inr resolved))"

subsection \<open>Preparing a storage base\<close>

definition posix_work_dir_ancestors :: "string \<Rightarrow> string list result" where
  "posix_work_dir_ancestors guest_work_dir =
     (if \<not> prefix ''/'' guest_work_dir \<or> CHR 0x00 \<in> set guest_work_dir then Inl ValueError
      else bindE (confine_resolve_guest_path guest_work_dir guest_work_dir) (\<lambda>guest.
        Inr (guest_path_and_ancestors guest guest)))"

text \<open>The loop over the directories; \<open>create\<close> receives the missing suffix.\<close>

fun ensure_directories ::
  "stat_fun \<Rightarrow> (string list \<Rightarrow> unit result) \<Rightarrow> string list \<Rightarrow> unit result" where
  "ensure_directories stat create [] = Inr ()"
| "ensure_directories stat create (directory # rest) =
     bindE (stat directory) (\<lambda>entry.
       case entry of
         None \<Rightarrow> create (directory # rest)
       | Some e \<Rightarrow>
           if entry_kind e = SYMLINK then Inl ValueError
           else if entry_kind e \<noteq> DIRECTORY then Inl NotADirectoryError
           else ensure_directories stat create rest)"

definition filesystem_capabilities :: "capability set" where
  "filesystem_capabilities = {EXEC, FILES_IN, FILES_OUT, FILES_LIST, FILES_DELETE}"

text \<open>The spec's \<open>required_capabilities\<close> and \<open>work_dir\<close> are the two fields it reads.\<close>

definition ensure_guest_work_dir ::
  "capability set \<Rightarrow> string option \<Rightarrow> stat_fun \<Rightarrow> (string list \<Rightarrow> unit result) \<Rightarrow>
   (string \<Rightarrow> string list result) \<Rightarrow> string option \<Rightarrow> unit result" where
  "ensure_guest_work_dir required spec_work_dir stat create resolve base =
     (if required \<inter> filesystem_capabilities = {} then Inr ()
      else case (case spec_work_dir of Some d \<Rightarrow> Some d | None \<Rightarrow> base) of
             None \<Rightarrow> Inl ValueError
           | Some work_dir \<Rightarrow>
               bindE (resolve work_dir) (\<lambda>directories. ensure_directories stat create directories))"

subsection \<open>Entries from a tar header\<close>

text \<open>
  The fields of \<open>tarfile.TarInfo\<close> the classifier reads, with the standard library's type tests:
  regular files are \<open>0\<close>, NUL, \<open>7\<close> and \<open>S\<close>, a directory is \<open>5\<close>, a symbolic link \<open>2\<close>.
\<close>

record tar_info =
  tar_type :: char
  tar_size :: int

definition sandbox_entry_from_tar_header :: "tar_info \<Rightarrow> string \<Rightarrow> sandbox_entry" where
  "sandbox_entry_from_tar_header info rel_path =
     (if tar_type info \<in> {CHR ''0'', CHR 0x00, CHR ''7'', CHR ''S''}
        then \<lparr>entry_path = rel_path, entry_kind = FILE, size_bytes = Some (tar_size info)\<rparr>
      else if tar_type info = CHR ''5''
        then \<lparr>entry_path = rel_path, entry_kind = DIRECTORY, size_bytes = None\<rparr>
      else if tar_type info = CHR ''2''
        then \<lparr>entry_path = rel_path, entry_kind = SYMLINK, size_bytes = None\<rparr>
      else \<lparr>entry_path = rel_path, entry_kind = OTHER, size_bytes = None\<rparr>)"

subsection \<open>Asking the guest\<close>

definition guest_stat_probes :: "(string \<times> entry_kind) list" where
  "guest_stat_probes = [(''-L'', SYMLINK), (''-d'', DIRECTORY), (''-f'', FILE)]"

definition guest_answers :: "ask_fun \<Rightarrow> string \<Rightarrow> string \<Rightarrow> bool result" where
  "guest_answers ask flag guest_path =
     bindE (ask [''test'', flag, guest_path]) (\<lambda>status.
       if status \<noteq> 0 \<and> status \<noteq> 1 then Inl RuntimeError else Inr (status = 0))"

fun first_answering ::
  "ask_fun \<Rightarrow> string \<Rightarrow> (string \<times> entry_kind) list \<Rightarrow> entry_kind option result" where
  "first_answering ask guest_path [] = Inr None"
| "first_answering ask guest_path ((flag, kind) # probes) =
     bindE (guest_answers ask flag guest_path) (\<lambda>yes.
       if yes then Inr (Some kind) else first_answering ask guest_path probes)"

definition kind_the_guest_reports :: "ask_fun \<Rightarrow> string \<Rightarrow> entry_kind option result" where
  "kind_the_guest_reports ask guest_path =
     first_answering ask guest_path (guest_stat_probes @ [(''-e'', OTHER)])"

lemma dropWhile_shorter:
  "rev (dropWhile P (rev xs)) = xs \<or> length (rev (dropWhile P (rev xs))) < length xs"
proof -
  have "dropWhile P ys = ys \<or> length (dropWhile P ys) < length ys" for ys
    by (induction ys) (auto simp: le_imp_less_Suc length_dropWhile_le)
  from this [of "rev xs"] show ?thesis by auto
qed

lemma length_dirname: "dirname p \<noteq> p \<Longrightarrow> length (dirname p) < length p"
proof -
  define h where "h = rev (dropWhile (\<lambda>c. c \<noteq> slash) (rev p))"
  have "h = p \<or> length h < length p"
    unfolding h_def by (rule dropWhile_shorter)
  moreover have "rstrip_slash h = h \<or> length (rstrip_slash h) < length h"
    unfolding rstrip_slash_def by (rule dropWhile_shorter)
  moreover have "dirname p = h \<or> dirname p = rstrip_slash h"
    by (simp add: dirname_def h_def Let_def)
  ultimately show "dirname p \<noteq> p \<Longrightarrow> length (dirname p) < length p" by force
qed

text \<open>
  The climb of \<open>_ancestor_blocking_the_view\<close>, from \<open>ancestor\<close> towards the root: it stops at the
  root or at the first ancestor that is there, and asks that one for its search bit.
\<close>

definition searchable_or_blocking :: "ask_fun \<Rightarrow> string \<Rightarrow> string option result" where
  "searchable_or_blocking ask ancestor =
     bindE (guest_answers ask ''-x'' ancestor) (\<lambda>searchable.
       Inr (if searchable then None else Some ancestor))"

function climb :: "ask_fun \<Rightarrow> string \<Rightarrow> string option result" where
  "climb ask ancestor =
     (let above = dirname ancestor in
      if above = ancestor then searchable_or_blocking ask ancestor
      else bindE (guest_answers ask ''-e'' ancestor) (\<lambda>there.
        if there then searchable_or_blocking ask ancestor else climb ask above))"
  by pat_completeness auto
termination
  by (relation "measure (\<lambda>(ask, ancestor). length ancestor)") (auto simp: length_dirname)

declare climb.simps [simp del]

definition ancestor_blocking_the_view :: "ask_fun \<Rightarrow> string \<Rightarrow> string option result" where
  "ancestor_blocking_the_view ask guest_path = climb ask (dirname guest_path)"

definition stat_by_asking_the_guest ::
  "ask_fun \<Rightarrow> string \<Rightarrow> string \<Rightarrow> sandbox_entry option result" where
  "stat_by_asking_the_guest ask guest_path rel_path =
     bindE (kind_the_guest_reports ask guest_path) (\<lambda>reported.
       case reported of
         Some kind \<Rightarrow>
           Inr (Some \<lparr>entry_path = rel_path, entry_kind = kind, size_bytes = None\<rparr>)
       | None \<Rightarrow>
           bindE (ancestor_blocking_the_view ask guest_path) (\<lambda>blocked.
             if blocked \<noteq> None then Inl PermissionError else Inr None))"

text \<open>The raised variant differs from it in the message of its refusal alone.\<close>

definition stat_by_asking_the_guest_as_root ::
  "ask_fun \<Rightarrow> string \<Rightarrow> string \<Rightarrow> sandbox_entry option result" where
  "stat_by_asking_the_guest_as_root ask guest_path rel_path =
     bindE (kind_the_guest_reports ask guest_path) (\<lambda>reported.
       case reported of
         Some kind \<Rightarrow>
           Inr (Some \<lparr>entry_path = rel_path, entry_kind = kind, size_bytes = None\<rparr>)
       | None \<Rightarrow>
           bindE (ancestor_blocking_the_view ask guest_path) (\<lambda>blocked.
             if blocked \<noteq> None then Inl PermissionError else Inr None))"

subsection \<open>The reach rule\<close>

text \<open>\<open>walked\<close> lists the components with the owner and the mode the check collected.\<close>

definition path_ancestors_are_host_owned :: "(string \<times> int \<times> int) list \<Rightarrow> bool \<Rightarrow> bool" where
  "path_ancestors_are_host_owned walked empty_means_host_owned =
     (if walked = [] then empty_means_host_owned
      else list_all (\<lambda>(_, uid, mode). uid = 0 \<and> mode AND 18 = 0) walked)"

end
