(* ===== verification/Confinement.thy ===== *)
theory Confinement
  imports Guest_Paths
begin

text \<open>
  What the guest-path helpers promise: the file name check keeps the lexical meaning of a path
  below the working directory, and the filesystem path check, over a stat that tells the
  truth, leaves no link for the kernel to follow on the way there.
\<close>

subsection \<open>The lexical meaning of a path\<close>

text \<open>Entering one segment from a directory given by its segments from the root.\<close>

fun cd :: "string list \<Rightarrow> string \<Rightarrow> string list" where
  "cd here seg =
     (if seg = [] \<or> seg = dot then here
      else if seg = dotdot then butlast here
      else here @ [seg])"

definition lexical :: "string list \<Rightarrow> string \<Rightarrow> string list" where
  "lexical here p = foldl cd (if isabs p then [] else here) (split_on slash p)"

lemma push_segment_cd:
  "list_all plain here \<Longrightarrow> push_segment True here seg = cd here seg"
  by (cases here rule: rev_cases) (auto simp: push_segment_def plain_def)

lemma plain_cd: "list_all plain here \<Longrightarrow> slash \<notin> set seg \<Longrightarrow> list_all plain (cd here seg)"
  by (auto simp: plain_def list_all_iff dest: in_set_butlastD)

lemma foldl_push_cd:
  "list_all plain here \<Longrightarrow> \<forall>s \<in> set segs. slash \<notin> set s \<Longrightarrow>
   foldl (push_segment True) here segs = foldl cd here segs \<and> list_all plain (foldl cd here segs)"
proof (induction segs arbitrary: here)
  case (Cons seg segs)
  then have "list_all plain (cd here seg)" by (simp add: plain_cd del: cd.simps)
  with Cons show ?case by (simp add: push_segment_cd del: cd.simps)
qed simp

lemma lexical_plain: "list_all plain here \<Longrightarrow> list_all plain (lexical here p)"
  using foldl_push_cd [of "if isabs p then [] else here" "split_on slash p"]
    split_on_pieces [of _ slash p]
  by (auto simp: lexical_def)

lemma norm_form_lexical:
  assumes "isabs p"
  shows "norm_form p = (leading_slashes p, lexical [] p)"
proof -
  have n: "0 < leading_slashes p" using assms by (simp add: norm_form_abs norm_form_def Let_def)
  have "\<forall>s \<in> set (split_on slash p). slash \<notin> set s" by (auto dest: split_on_pieces)
  then have "foldl (push_segment True) [] (split_on slash p) = foldl cd [] (split_on slash p)"
    using foldl_push_cd [of "[]"] by simp
  then show ?thesis using n by (simp add: norm_form_def norm_segments_def lexical_def)
qed

text \<open>The number of slashes that lead the joined path.\<close>

definition joined_slashes :: "string \<Rightarrow> string \<Rightarrow> nat" where
  "joined_slashes wd p = (if isabs p then leading_slashes p else leading_slashes wd)"

lemma norm_form_joined:
  assumes "isabs wd"
  shows "norm_form (path_join (normpath wd) p) =
    (joined_slashes wd p, lexical (lexical [] wd) p)"
proof (cases "isabs p")
  case True
  then show ?thesis
    by (simp add: norm_form_join_abs norm_form_lexical joined_slashes_def) (simp add: lexical_def)
next
  case False
  have n: "0 < leading_slashes wd" using assms by (simp add: norm_form_abs norm_form_def Let_def)
  have "foldl (push_segment True) (lexical [] wd) (split_on slash p)
      = foldl cd (lexical [] wd) (split_on slash p)"
    using foldl_push_cd [of "lexical [] wd" "split_on slash p"] lexical_plain [of "[]" wd]
      split_on_pieces [of _ slash p] by auto
  then show ?thesis
    using norm_form_join_rel [OF False norm_form_lexical [OF assms]] False n
    by (simp add: joined_slashes_def) (simp add: lexical_def)
qed

subsection \<open>Containment by string prefix is containment by segments\<close>

lemma prefix_replicate_slash:
  assumes "c \<noteq> slash" and "d \<noteq> slash"
  shows "prefix (replicate m slash @ c # cs) (replicate n slash @ d # ds)
    \<longleftrightarrow> m = n \<and> prefix (c # cs) (d # ds)"
proof (induction m arbitrary: n)
  case 0
  then show ?case using assms by (cases n) auto
next
  case (Suc m)
  then show ?case using assms by (cases n) auto
qed

lemma prefix_render_sep:
  assumes ys: "list_all seg_ok ys" "ys \<noteq> []" and xs: "list_all seg_ok xs"
    and nm: "n \<le> 2"
  shows "prefix (render m ys @ ''/'') (render n xs) \<longleftrightarrow> m = n \<and> strict_prefix ys xs"
proof (cases "xs = []")
  case True
  obtain c cs where c: "join_with slash ys = c # cs" "c \<noteq> slash"
    using join_hd_not_slash [OF ys] by blast
  have "\<not> prefix (replicate m slash @ c # cs @ ''/'') dot"
    using c by (cases m) (auto simp: Cons_eq_append_conv)
  moreover have "\<not> prefix (replicate m slash @ c # cs @ ''/'') (replicate n slash)"
  proof
    assume "prefix (replicate m slash @ c # cs @ ''/'') (replicate n slash)"
    then have "c \<in> set (replicate n slash)" by (auto dest: set_mono_prefix)
    then show False using c by (simp split: if_splits)
  qed
  ultimately show ?thesis using True ys c xs by (auto simp: render_eq)
next
  case False
  obtain c cs where c: "join_with slash ys = c # cs" "c \<noteq> slash"
    using join_hd_not_slash [OF ys] by blast
  obtain d ds where d: "join_with slash xs = d # ds" "d \<noteq> slash"
    using join_hd_not_slash [OF xs False] by blast
  have "prefix (join_with slash ys @ ''/'') (join_with slash xs) \<longleftrightarrow> strict_prefix ys xs"
    using prefix_join_sep [of ys slash xs] ys xs False by (auto simp: list_all_iff seg_ok_def)
  then have "prefix (c # cs @ ''/'') (d # ds) \<longleftrightarrow> strict_prefix ys xs"
    using c d by simp
  then show ?thesis
    using prefix_replicate_slash [OF c(2) d(2), of m "cs @ ''/''" n ds] c d ys xs False
    by (simp add: render_eq)
qed

lemma last_render_not_slash:
  assumes "list_all seg_ok ys" "ys \<noteq> []"
  shows "\<not> suffix ''/'' (render m ys)"
proof -
  have "last (join_with slash ys) \<noteq> slash \<and> join_with slash ys \<noteq> []"
    using assms
    by (induction slash ys rule: join_with.induct)
      (auto simp: seg_ok_def join_with_eq_Nil list_all_iff dest: last_in_set)
  then have "last (render m ys) \<noteq> slash" using assms by (simp add: render_eq)
  then show ?thesis by (auto simp: suffix_def)
qed

lemma render_eq_dot: "list_all seg_ok ys \<Longrightarrow> render m ys = dot \<longleftrightarrow> m = 0 \<and> ys = []"
  using join_hd_not_slash [of ys]
  by (cases m; cases "ys = []"; cases "tl ys")
    (auto simp: render_eq seg_ok_def neq_Nil_conv Cons_eq_append_conv)

text \<open>The segments of the containment test, for a working directory that is not a bare root.\<close>

lemma relative_to_segments:
  assumes path: "norm_form path = (n, xs)" and base: "norm_form base = (m, ys)" and "ys \<noteq> []"
  shows "guest_path_relative_to path base =
    (if n = m \<and> prefix ys xs then Some (join_with slash (drop (length ys) xs)) else None)"
proof -
  note f = slash_free_norm_form [OF path] slash_free_norm_form [OF base]
  have ok: "list_all seg_ok xs" "list_all seg_ok ys"
    using f norm_shape_seg_ok by blast+
  have eq: "normpath path = render n xs" "normpath base = render m ys"
    using path base by (simp_all add: normpath_eq_render)
  have same: "render n xs = render m ys \<longleftrightarrow> n = m \<and> xs = ys"
    using render_inj f by blast
  have pre: "prefix (render m ys @ ''/'') (render n xs) \<longleftrightarrow> m = n \<and> strict_prefix ys xs"
    using prefix_render_sep [OF ok(2) assms(3) ok(1)] f by simp
  have dot: "render m ys \<noteq> dot" using render_eq_dot [OF ok(2)] assms(3) by simp
  have rel: "drop (length (render m ys @ ''/'')) (render m xs)
      = join_with slash (drop (length ys) xs)" if sp: "strict_prefix ys xs"
  proof -
    obtain zs where zs: "xs = ys @ zs" "zs \<noteq> []"
      using sp by (auto simp: strict_prefix_def prefix_def)
    then show ?thesis using ok assms(3) by (simp add: render_eq join_with_append)
  qed
  show ?thesis
    using same pre dot rel last_render_not_slash [OF ok(2) assms(3), of m]
    by (auto simp: guest_path_relative_to_def Let_def eq strict_prefix_def)
qed

text \<open>
  The file name check, exactly: no backslash, the same form of root, and the lexical meaning of
  the joined path at or below the working directory's.
\<close>

lemma confine_resolve_segments:
  assumes "isabs wd" and "lexical [] wd \<noteq> []"
  shows "confine_resolve_guest_path p wd =
    (if CHR 0x5C \<notin> set p \<and> joined_slashes wd p = leading_slashes wd
        \<and> prefix (lexical [] wd) (lexical (lexical [] wd) p)
     then Inr (render (leading_slashes wd) (lexical (lexical [] wd) p))
     else Inl ValueError)"
proof -
  have "norm_form (normpath wd) = (leading_slashes wd, lexical [] wd)"
    using assms(1) by (simp add: norm_form_lexical)
  moreover have "norm_form (normpath (path_join (normpath wd) p)) =
      (joined_slashes wd p, lexical (lexical [] wd) p)"
    using norm_form_joined [OF assms(1)] by simp
  ultimately show ?thesis
    using relative_to_segments [OF _ _ assms(2)] norm_form_joined [OF assms(1), of p]
    by (auto simp: confine_resolve_guest_path_def Let_def normpath_eq_render [of "path_join _ _"])
qed

subsection \<open>The ancestors the filesystem check walks\<close>

definition nonempty_takes :: "string list \<Rightarrow> string list list" where
  "nonempty_takes xs = map (\<lambda>k. take (Suc k) xs) [0..<length xs]"

lemma nonempty_takes_Nil [simp]: "nonempty_takes [] = []"
  by (simp add: nonempty_takes_def)

lemma nonempty_takes_snoc: "nonempty_takes (xs @ [x]) = nonempty_takes xs @ [xs @ [x]]"
  by (auto simp: nonempty_takes_def)

lemma nonempty_takes_Cons: "nonempty_takes (x # xs) = [x] # map ((#) x) (nonempty_takes xs)"
  by (simp add: nonempty_takes_def map_Suc_upt [symmetric] o_def del: upt_Suc)
    (simp add: upt_conv_Cons map_Suc_upt [symmetric] o_def del: upt_Suc)

lemma render_1_append:
  "list_all seg_ok xs \<Longrightarrow> seg_ok x \<Longrightarrow> xs \<noteq> [] \<Longrightarrow> render 1 (xs @ [x]) = render 1 xs @ ''/'' @ x"
  by (simp add: render_eq join_with_append)

lemma base_ancestors_segments:
  "list_all seg_ok done \<Longrightarrow> list_all seg_ok ys \<Longrightarrow>
   so_far = (if done = [] then [] else render 1 done) \<Longrightarrow>
   base_ancestors so_far ys = map (\<lambda>t. render 1 (done @ t)) (nonempty_takes ys)"
proof (induction ys arbitrary: so_far "done")
  case (Cons y ys)
  have "so_far @ ''/'' @ y = render 1 (done @ [y])"
    using Cons.prems render_1_append [of "done" y] by (auto simp: render_eq)
  then show ?case
    using Cons.IH [of "done @ [y]" "render 1 (done @ [y])"] Cons.prems
    by (simp add: nonempty_takes_Cons Let_def o_def)
qed simp

lemma path_join_segment:
  assumes "list_all seg_ok xs" and "seg_ok y"
  shows "path_join (render 1 xs) y = render 1 (xs @ [y])"
proof (cases "xs = []")
  case True
  then show ?thesis
    using assms by (cases y) (auto simp: render_eq path_join_def seg_ok_def)
next
  case False
  have "\<not> suffix ''/'' (render 1 xs)" by (rule last_render_not_slash [OF assms(1) False])
  then have "last (render 1 xs) \<noteq> slash"
    by (metis append_butlast_last_id render_nonempty suffixI)
  then show ?thesis
    using assms False render_1_append [OF assms False]
    by (cases y) (auto simp: path_join_def render_nonempty seg_ok_def)
qed

lemma extend_ancestors_segments:
  assumes "list_all seg_ok done" and "list_all seg_ok zs"
    and "(paths = [] \<and> done = []) \<or> (paths \<noteq> [] \<and> last paths = render 1 done)"
  shows "extend_ancestors paths zs =
    paths @ map (\<lambda>t. render 1 (done @ t)) (nonempty_takes zs)"
  using assms
proof (induction zs arbitrary: paths "done")
  case (Cons z zs)
  have "path_join (if paths \<noteq> [] then last paths else ''/'') z = render 1 (done @ [z])"
    using Cons.prems path_join_segment [of "done" z] path_join_segment [of "[]" z]
    by (auto simp: render_eq)
  then show ?case
    using Cons.IH [of "done @ [z]" "paths @ [render 1 (done @ [z])]"] Cons.prems
    by (simp add: nonempty_takes_Cons o_def)
qed simp

lemma nonempty_takes_append:
  "nonempty_takes (xs @ ys) = nonempty_takes xs @ map (\<lambda>t. xs @ t) (nonempty_takes ys)"
  by (induction xs) (auto simp: nonempty_takes_Cons)

lemma filter_split_render:
  assumes "norm_shape (0 < m) ys" and "0 < m"
  shows "filter (\<lambda>s. s \<noteq> []) (split_on slash (render m ys)) = ys"
proof -
  have ys: "list_all seg_ok ys" by (rule norm_shape_seg_ok [OF assms(1)])
  have "filter (\<lambda>s. s \<noteq> []) ys = ys"
    using ys by (auto simp: filter_id_conv list_all_iff seg_ok_def)
  moreover have "render m [] = replicate m slash" using assms(2) by (simp add: render_def)
  moreover have "filter (\<lambda>s. s \<noteq> []) (replicate m []) = []" by (simp add: filter_empty_conv)
  ultimately show ?thesis
    using assms shape_slash_free [OF assms(1)] split_replicate_slash [of m "[]"]
    by (cases "ys = []") (auto simp: render_eq [OF ys] split_replicate_slash split_join)
qed

lemma guest_path_and_ancestors_segments:
  assumes path: "norm_form path = (n, xs)" and base: "norm_form base = (m, ys)"
    and "ys \<noteq> []" and "0 < m"
  shows "guest_path_and_ancestors path base =
    map (render 1) (nonempty_takes (if n = m \<and> prefix ys xs then xs else ys))"
proof -
  note f = slash_free_norm_form [OF path] slash_free_norm_form [OF base]
  have ok: "list_all seg_ok xs" "list_all seg_ok ys"
    using f norm_shape_seg_ok by blast+
  have above: "base_ancestors [] (filter (\<lambda>s. s \<noteq> []) (split_on slash (normpath base)))
      = map (render 1) (nonempty_takes ys)"
    using base_ancestors_segments [of "[]" ys "[]"] ok filter_split_render f assms(4) base
    by (simp add: normpath_eq_render)
  have rel: "guest_path_relative_to path (normpath base) =
      (if n = m \<and> prefix ys xs then Some (join_with slash (drop (length ys) xs)) else None)"
    using relative_to_segments [OF path _ assms(3)] base by simp
  show ?thesis
  proof (cases "n = m \<and> prefix ys xs")
    case False
    then show ?thesis by (auto simp: guest_path_and_ancestors_def Let_def above rel)
  next
    case True
    then obtain zs where zs: "xs = ys @ zs" by (auto simp: prefix_def)
    show ?thesis
    proof (cases "zs = []")
      case True
      with zs show ?thesis
        using \<open>n = m \<and> prefix ys xs\<close>
        by (simp add: guest_path_and_ancestors_def Let_def above rel)
    next
      case False
      have okz: "list_all seg_ok zs" using ok zs by simp
      have "split_on slash (join_with slash zs) = zs"
        using okz False by (intro split_join) (auto simp: list_all_iff seg_ok_def)
      moreover have "join_with slash zs \<noteq> []"
        using okz False join_with_eq_Nil [of zs slash] by (auto simp: list_all_iff seg_ok_def)
      moreover have "last (map (render 1) (nonempty_takes ys)) = render 1 ys"
        using assms(3) by (cases ys rule: rev_cases) (simp_all add: nonempty_takes_snoc)
      moreover have "nonempty_takes ys \<noteq> []"
        using assms(3) by (simp add: nonempty_takes_def)
      ultimately show ?thesis
        using \<open>n = m \<and> prefix ys xs\<close> extend_ancestors_segments [of ys zs] ok okz zs
        by (simp add: guest_path_and_ancestors_def Let_def above rel nonempty_takes_append)
    qed
  qed
qed

end
