(* ===== verification/Guest_View.thy ===== *)
theory Guest_View
  imports Confinement
begin

text \<open>
  What a stat has to be for the filesystem path check to mean anything, as two interfaces.
  \<open>truthful_stat\<close> is what \<open>refuse_symlinked_ancestors\<close> asks of the stat it is handed;
  \<open>honest_guest\<close> is the documented behaviour of the guest's \<open>test\<close>, from which
  \<open>stat_by_asking_the_guest\<close> builds such a stat.  A guest path is its segments from the root.
\<close>

subsection \<open>A file system and the way a kernel walks it\<close>

type_synonym view = "string list \<Rightarrow> entry_kind option"

text \<open>No link on the way to a path; the path itself may be anything.\<close>

definition real_above :: "view \<Rightarrow> string list \<Rightarrow> bool" where
  "real_above kind segs \<longleftrightarrow> (\<forall>k < length segs. kind (take k segs) \<noteq> Some SYMLINK)"

text \<open>
  The kernel's walk along the segments from \<open>here\<close>: a link on the way sends it wherever
  \<open>jump\<close> says, which nothing bounds.
\<close>

fun walk :: "view \<Rightarrow> (string list \<Rightarrow> string list) \<Rightarrow> string list \<Rightarrow> string list \<Rightarrow> string list" where
  "walk kind jump here [] = here"
| "walk kind jump here (seg # rest) =
     walk kind jump
       (if kind (here @ [seg]) = Some SYMLINK then jump (here @ [seg]) else here @ [seg]) rest"

lemma walk_real:
  "\<forall>k. 0 < k \<longrightarrow> k \<le> length rest \<longrightarrow> kind (here @ take k rest) \<noteq> Some SYMLINK \<Longrightarrow>
   walk kind jump here rest = here @ rest"
proof (induction rest arbitrary: here)
  case (Cons seg rest)
  have "kind (here @ [seg]) \<noteq> Some SYMLINK" using Cons.prems [rule_format, of 1] by simp
  moreover have "kind ((here @ [seg]) @ take k rest) \<noteq> Some SYMLINK" if "k \<le> length rest" for k
    using Cons.prems [rule_format, of "Suc k"] that by simp
  ultimately show ?case using Cons.IH [of "here @ [seg]"] by simp
qed simp

lemma walk_real_root:
  assumes "real_above kind segs" and "kind segs \<noteq> Some SYMLINK"
  shows "walk kind jump [] segs = segs"
  using walk_real [of segs kind "[]" jump] assms
  by (metis append_Nil linorder_le_less_linear real_above_def take_all order_le_less)

lemma real_above_butlast: "real_above kind segs \<Longrightarrow> real_above kind (butlast segs)"
  by (auto simp: real_above_def take_butlast)

lemma walk_to_parent:
  assumes "real_above kind segs" and "segs \<noteq> []"
  shows "walk kind jump [] (butlast segs) = butlast segs"
proof (rule walk_real_root)
  show "real_above kind (butlast segs)" using assms(1) by (rule real_above_butlast)
  show "kind (butlast segs) \<noteq> Some SYMLINK"
    using assms by (simp add: real_above_def butlast_conv_take)
qed

lemma real_above_snoc:
  "real_above kind (xs @ [x]) \<longleftrightarrow> real_above kind xs \<and> kind xs \<noteq> Some SYMLINK"
  by (auto simp: real_above_def less_Suc_eq)

text \<open>Only directories, or nothing, on the way to a path.\<close>

definition open_above :: "view \<Rightarrow> string list \<Rightarrow> bool" where
  "open_above kind segs \<longleftrightarrow> (\<forall>k < length segs. kind (take k segs) \<in> {None, Some DIRECTORY})"

lemma open_above_real: "open_above kind segs \<Longrightarrow> real_above kind segs"
  by (fastforce simp: open_above_def real_above_def)

lemma open_above_snoc:
  "open_above kind (xs @ [x]) \<longleftrightarrow> open_above kind xs \<and> kind xs \<in> {None, Some DIRECTORY}"
  by (auto simp: open_above_def less_Suc_eq)

subsection \<open>What the path check asks of a stat\<close>

locale truthful_stat =
  fixes kind :: view and stat :: stat_fun
  assumes truthful:
    "list_all plain segs \<Longrightarrow> segs \<noteq> [] \<Longrightarrow> real_above kind segs \<Longrightarrow>
     stat (render 1 segs) = Inr e \<Longrightarrow> map_option entry_kind e = kind segs"
    and below_directory: "kind (segs @ [s]) \<noteq> None \<Longrightarrow> kind segs = Some DIRECTORY"
    and root_directory: "kind [] = Some DIRECTORY"
begin

lemma absent_below: "kind segs = None \<Longrightarrow> kind (segs @ rest) = None"
proof (induction rest rule: rev_induct)
  case (snoc x xs)
  then show ?case using below_directory [of "segs @ xs" x]
    by (cases "kind (segs @ xs @ [x])") auto
qed simp

text \<open>A check that passes met directories only, until there was nothing there any more.\<close>

lemma checked_prefixes:
  assumes "check_directories stat (map (render 1) (map (\<lambda>t. done @ t) (nonempty_takes ys))) = Inr u"
    and "list_all plain done" and "list_all plain ys"
    and "open_above kind done" and "kind done \<in> {None, Some DIRECTORY}"
  shows "open_above kind (done @ ys) \<and> kind (done @ ys) \<in> {None, Some DIRECTORY}"
  using assms
proof (induction ys arbitrary: "done")
  case (Cons y ys)
  let ?d = "done @ [y]"
  have ok: "list_all plain ?d" using Cons.prems by simp
  have above: "open_above kind ?d" using Cons.prems by (simp add: open_above_snoc)
  obtain e where e: "stat (render 1 ?d) = Inr e"
    using Cons.prems(1) by (auto simp: nonempty_takes_Cons bindE_eq_Inr)
  have kind: "map_option entry_kind e = kind ?d"
    by (rule truthful [OF ok _ open_above_real [OF above] e]) simp
  show ?case
  proof (cases e)
    case None
    then have "kind ?d = None" using kind by simp
    then have gone: "kind (?d @ rest) = None" for rest by (rule absent_below)
    have "open_above kind (?d @ ys)"
      unfolding open_above_def
    proof (intro allI impI)
      fix k assume "k < length (?d @ ys)"
      show "kind (take k (?d @ ys)) \<in> {None, Some DIRECTORY}"
      proof (cases "k < length ?d")
        case True
        then have "take k (?d @ ys) = take k ?d" by simp
        then show ?thesis using above True by (simp add: open_above_def)
      next
        case False
        then have "take k (?d @ ys) = ?d @ take (k - length ?d) ys"
          by (metis linorder_not_less take_all_iff take_append)
        then have "kind (take k (?d @ ys)) = None" by (simp only: gone)
        then show ?thesis by simp
      qed
    qed
    then show ?thesis using gone [of ys] by simp
  next
    case (Some entry)
    have "entry_kind entry = DIRECTORY"
      using Cons.prems(1) e Some by (auto simp: nonempty_takes_Cons split: if_splits)
    then have dir: "kind ?d = Some DIRECTORY" using kind Some by simp
    have "check_directories stat (map (render 1) (map (\<lambda>t. ?d @ t) (nonempty_takes ys))) = Inr u"
      using Cons.prems(1) e Some \<open>entry_kind entry = DIRECTORY\<close>
      by (simp add: nonempty_takes_Cons o_def)
    then show ?thesis
      using Cons.IH [of ?d] ok Cons.prems(3) above dir by simp
  qed
qed simp

lemma checked_from_root:
  assumes "check_directories stat (map (render 1) (nonempty_takes xs)) = Inr u"
    and "list_all plain xs"
  shows "open_above kind xs \<and> kind xs \<in> {None, Some DIRECTORY}"
  using checked_prefixes [of "[]" xs u] assms root_directory
  by (simp add: open_above_def)

end

subsection \<open>The directory of a rendered path\<close>

lemma dropWhile_append_sep: "slash \<notin> set x \<Longrightarrow>
   rev (dropWhile (\<lambda>c. c \<noteq> slash) (rev (p @ slash # x))) = p @ ''/''"
proof -
  assume "slash \<notin> set x"
  then have "dropWhile (\<lambda>c. c \<noteq> slash) (rev x @ slash # rev p) = slash # rev p"
    by (subst dropWhile_append2) auto
  then show ?thesis by simp
qed

lemma rstrip_sep: "\<not> suffix ''/'' p \<Longrightarrow> rstrip_slash (p @ ''/'') = p"
  by (cases p rule: rev_cases) (auto simp: rstrip_slash_def suffix_def)

lemma render_snoc:
  assumes "list_all seg_ok (xs @ [x])" and "0 < m"
  shows "render m (xs @ [x]) = (if xs = [] then replicate m slash @ x else render m xs @ slash # x)"
  using assms by (auto simp: render_eq join_with_append)

lemma dirname_render:
  assumes ok: "list_all seg_ok (xs @ [x])" and m: "0 < m"
  shows "dirname (render m (xs @ [x])) = render m xs"
proof (cases "xs = []")
  case True
  have "replicate m slash @ x = replicate (m - 1) slash @ slash # x"
    using m by (cases m) (simp_all add: replicate_app_Cons_same)
  then have "rev (dropWhile (\<lambda>c. c \<noteq> slash) (rev (replicate m slash @ x)))
      = replicate (m - 1) slash @ ''/''"
    using dropWhile_append_sep [of x "replicate (m - 1) slash"] ok by (simp add: seg_ok_def)
  also have "\<dots> = replicate m slash"
    using m by (cases m) (simp_all add: replicate_append_same)
  finally have "dirname (replicate m slash @ x) = replicate m slash"
    by (simp add: dirname_def)
  moreover have "render m [] = replicate m slash" using m by (simp add: render_def)
  ultimately show ?thesis using True ok m render_snoc [of "[]" x m] by simp
next
  case False
  have oks: "list_all seg_ok xs" "slash \<notin> set x" using ok by (auto simp: seg_ok_def)
  obtain c cs where "join_with slash xs = c # cs" "c \<noteq> slash"
    using join_hd_not_slash [OF oks(1) False] by blast
  then have "\<not> (\<forall>c \<in> set (render m xs). c = slash)" using False oks by (simp add: render_eq)
  then show ?thesis
    using False ok m rstrip_sep [OF last_render_not_slash [OF oks(1) False, of m]]
      dropWhile_append_sep [OF oks(2), of "render m xs"]
    by (auto simp: render_snoc dirname_def Let_def)
qed

lemma dirname_root: "0 < m \<Longrightarrow> dirname (render m []) = render m []"
proof -
  assume "0 < m"
  then have "render m [] = replicate m slash" by (simp add: render_def)
  moreover have "dropWhile (\<lambda>c. c \<noteq> slash) (replicate m slash) = replicate m slash"
    using \<open>0 < m\<close> by (cases m) simp_all
  ultimately show ?thesis by (auto simp: dirname_def Let_def)
qed

lemma plain_segs_ok: "list_all plain segs \<Longrightarrow> list_all seg_ok segs"
  by (auto simp: list_all_iff intro: plain_seg_ok)

subsection \<open>What the guest's test answers\<close>

text \<open>
  The documented behaviour of \<open>test\<close> asked about a path with no link above it.  A path is
  visible to the asker when it may search every directory above it; an invisible one answers
  no to every question.  Nothing is said of a status above 1, and nothing of a path through a
  link.
\<close>

definition visible :: "(string list \<Rightarrow> bool) \<Rightarrow> string list \<Rightarrow> bool" where
  "visible searches segs \<longleftrightarrow> (\<forall>k < length segs. searches (take k segs))"

lemma visible_snoc: "visible searches (xs @ [x]) \<longleftrightarrow> visible searches xs \<and> searches xs"
  by (auto simp: visible_def less_Suc_eq)

definition test_says :: "ask_fun \<Rightarrow> string \<Rightarrow> string list \<Rightarrow> bool \<Rightarrow> bool" where
  "test_says ask flag segs yes \<longleftrightarrow>
     (\<forall>s \<in> {0, 1}. ask [''test'', flag, render 1 segs] = Inr s \<longrightarrow> (s = 0) = yes)"

locale honest_guest =
  fixes kind :: view and searches :: "string list \<Rightarrow> bool" and ask :: ask_fun
  assumes hidden: "list_all plain segs \<Longrightarrow> real_above kind segs \<Longrightarrow> \<not> visible searches segs \<Longrightarrow>
      test_says ask flag segs False"
    and link: "list_all plain segs \<Longrightarrow> real_above kind segs \<Longrightarrow> visible searches segs \<Longrightarrow>
      test_says ask ''-L'' segs (kind segs = Some SYMLINK)"
    and seen: "list_all plain segs \<Longrightarrow> real_above kind segs \<Longrightarrow> visible searches segs \<Longrightarrow>
      kind segs \<noteq> Some SYMLINK \<Longrightarrow>
      test_says ask ''-d'' segs (kind segs = Some DIRECTORY) \<and>
      test_says ask ''-f'' segs (kind segs = Some FILE) \<and>
      test_says ask ''-e'' segs (kind segs \<noteq> None)"
    and search: "list_all plain segs \<Longrightarrow> real_above kind segs \<Longrightarrow> visible searches segs \<Longrightarrow>
      kind segs = Some DIRECTORY \<Longrightarrow> test_says ask ''-x'' segs (searches segs)"
    and tree: "kind (segs @ [s]) \<noteq> None \<Longrightarrow> kind segs = Some DIRECTORY"
    and top: "kind [] = Some DIRECTORY"
begin

lemma answer_iff:
  "test_says ask flag segs yes \<Longrightarrow> guest_answers ask flag (render 1 segs) = Inr b \<Longrightarrow> b = yes"
  by (auto simp: guest_answers_def test_says_def bindE_eq_Inr split: if_splits)

lemma yes_visible:
  "list_all plain segs \<Longrightarrow> real_above kind segs \<Longrightarrow>
   guest_answers ask flag (render 1 segs) = Inr True \<Longrightarrow> visible searches segs"
  using hidden [of segs flag] answer_iff [of flag segs False True] by auto

lemma visible_answers:
  assumes "list_all plain segs" and "real_above kind segs" and "visible searches segs"
  shows "guest_answers ask ''-L'' (render 1 segs) = Inr b \<Longrightarrow> b = (kind segs = Some SYMLINK)"
    and "kind segs \<noteq> Some SYMLINK \<Longrightarrow> guest_answers ask ''-d'' (render 1 segs) = Inr b \<Longrightarrow>
      b = (kind segs = Some DIRECTORY)"
    and "kind segs \<noteq> Some SYMLINK \<Longrightarrow> guest_answers ask ''-f'' (render 1 segs) = Inr b \<Longrightarrow>
      b = (kind segs = Some FILE)"
    and "kind segs \<noteq> Some SYMLINK \<Longrightarrow> guest_answers ask ''-e'' (render 1 segs) = Inr b \<Longrightarrow>
      b = (kind segs \<noteq> None)"
    and "kind segs = Some DIRECTORY \<Longrightarrow> guest_answers ask ''-x'' (render 1 segs) = Inr b \<Longrightarrow>
      b = searches segs"
  using answer_iff [OF link [OF assms]] seen [OF assms] search [OF assms]
  by (blast dest: answer_iff)+

lemma reported_kind:
  assumes ok: "list_all plain segs" and real: "real_above kind segs"
    and rep: "kind_the_guest_reports ask (render 1 segs) = Inr (Some k)"
  shows "kind segs = Some k"
proof -
  let ?g = "\<lambda>flag. guest_answers ask flag (render 1 segs)"
  have vis: "visible searches segs"
    using rep yes_visible [OF ok real]
    by (auto simp: kind_the_guest_reports_def guest_stat_probes_def bindE_eq_Inr split: if_splits)
  note v = visible_answers [OF ok real vis]
  consider "?g ''-L'' = Inr True" "k = SYMLINK"
    | "?g ''-L'' = Inr False" "?g ''-d'' = Inr True" "k = DIRECTORY"
    | "?g ''-L'' = Inr False" "?g ''-d'' = Inr False" "?g ''-f'' = Inr True" "k = FILE"
    | "?g ''-L'' = Inr False" "?g ''-d'' = Inr False" "?g ''-f'' = Inr False"
        "?g ''-e'' = Inr True" "k = OTHER"
    using rep
    by (auto simp: kind_the_guest_reports_def guest_stat_probes_def bindE_eq_Inr split: if_splits)
  then show ?thesis
  proof cases
    case 4
    have "kind segs \<noteq> Some SYMLINK" using v(1) [OF 4(1)] by simp
    then have "kind segs \<noteq> None" "kind segs \<noteq> Some DIRECTORY" "kind segs \<noteq> Some FILE"
      using v(2) [OF _ 4(2)] v(3) [OF _ 4(3)] v(4) [OF _ 4(4)] by simp_all
    with \<open>kind segs \<noteq> Some SYMLINK\<close> 4(5) show ?thesis
      by (metis entry_kind.exhaust not_None_eq)
  qed (use v in blast)+
qed

lemma reported_nothing:
  assumes ok: "list_all plain segs" and real: "real_above kind segs"
    and rep: "kind_the_guest_reports ask (render 1 segs) = Inr None"
    and vis: "visible searches segs"
  shows "kind segs = None"
proof -
  note v = visible_answers [OF ok real vis]
  have no: "guest_answers ask ''-L'' (render 1 segs) = Inr False"
    "guest_answers ask ''-e'' (render 1 segs) = Inr False"
    using rep
    by (auto simp: kind_the_guest_reports_def guest_stat_probes_def bindE_eq_Inr split: if_splits)
  show ?thesis using v(1) [OF no(1)] v(4) [OF _ no(2)] by blast
qed

text \<open>
  The climb ends at an ancestor that is there and can be searched: then the child on the way
  down, which answered no, is not there.
\<close>

lemma absent_descends: "kind segs = None \<Longrightarrow> kind (segs @ rest) = None"
proof (induction rest rule: rev_induct)
  case (snoc x xs)
  then show ?case using tree [of "segs @ xs" x]
    by (cases "kind (segs @ xs @ [x])") auto
qed simp

lemma not_directory_absent: "kind segs \<noteq> Some DIRECTORY \<Longrightarrow> kind (segs @ [x]) = None"
  using tree [of segs x] by (cases "kind (segs @ [x])") auto

lemma searchable_inv:
  "searchable_or_blocking ask p = Inr None \<Longrightarrow> guest_answers ask ''-x'' p = Inr True"
  by (auto simp: searchable_or_blocking_def bindE_eq_Inr split: if_splits)

lemma climb_inv:
  assumes "climb ask (render 1 (ys @ [y])) = Inr None" and "list_all plain (ys @ [y])"
  shows "guest_answers ask ''-e'' (render 1 (ys @ [y])) = Inr True
      \<and> guest_answers ask ''-x'' (render 1 (ys @ [y])) = Inr True
    \<or> guest_answers ask ''-e'' (render 1 (ys @ [y])) = Inr False
      \<and> climb ask (render 1 ys) = Inr None"
proof -
  note ok = plain_segs_ok [OF assms(2)]
  have d: "dirname (render 1 (ys @ [y])) = render 1 ys"
    using ok by (intro dirname_render) simp_all
  have "length (render 1 ys) < length (render 1 (ys @ [y]))"
  proof (cases "ys = []")
    case True
    then show ?thesis using ok render_snoc [of ys y 1]
      by (simp add: seg_ok_def) (simp add: render_def)
  next
    case False
    then show ?thesis using ok render_snoc [of ys y 1] by simp
  qed
  then have ne: "render 1 ys \<noteq> render 1 (ys @ [y])" by force
  have eq: "climb ask (render 1 (ys @ [y])) =
      bindE (guest_answers ask ''-e'' (render 1 (ys @ [y]))) (\<lambda>there.
        if there then searchable_or_blocking ask (render 1 (ys @ [y]))
        else climb ask (render 1 ys))"
    using ne by (subst climb.simps) (simp only: d Let_def if_False)
  show ?thesis
    using trans [OF eq [symmetric] assms(1)] searchable_inv [of "render 1 (ys @ [y])"]
    by (auto simp: bindE_eq_Inr split: if_splits)
qed

lemma climb_visible:
  assumes "climb ask (render 1 here) = Inr None"
    and "list_all plain here" and "real_above kind (here @ [x])"
  shows "visible searches (here @ [x]) \<or> kind (here @ [x]) = None"
  using assms
proof (induction here arbitrary: x rule: rev_induct)
  case Nil
  have "guest_answers ask ''-x'' (render 1 []) = Inr True"
    using Nil.prems(1) climb.simps [of ask "render 1 []"] searchable_inv
    by (simp add: dirname_root Let_def)
  moreover have "test_says ask ''-x'' [] (searches [])"
    using search [of "[]"] top by (simp add: real_above_def visible_def)
  ultimately have "searches []" using answer_iff by blast
  then show ?case by (simp add: visible_def)
next
  case (snoc y ys)
  let ?a = "ys @ [y]"
  have real: "real_above kind ?a" "kind ?a \<noteq> Some SYMLINK"
    using snoc.prems(3) real_above_snoc [of kind ?a x] by simp_all
  from climb_inv [OF snoc.prems(1,2)] show ?case
  proof (elim disjE conjE)
    assume e: "guest_answers ask ''-e'' (render 1 ?a) = Inr True"
      and x: "guest_answers ask ''-x'' (render 1 ?a) = Inr True"
    have vis: "visible searches ?a" by (rule yes_visible [OF snoc.prems(2) real(1) e])
    show ?case
    proof (cases "kind ?a = Some DIRECTORY")
      case True
      then have "searches ?a" using visible_answers(5) [OF snoc.prems(2) real(1) vis True x] by simp
      then show ?thesis using vis visible_snoc [of searches ?a x] by simp
    next
      case False
      then show ?thesis using not_directory_absent [OF False, of x] by simp
    qed
  next
    assume e: "guest_answers ask ''-e'' (render 1 ?a) = Inr False"
      and up: "climb ask (render 1 ys) = Inr None"
    have "list_all plain ys" using snoc.prems(2) by simp
    from snoc.IH [OF up this real(1)] have gone: "kind ?a = None"
    proof
      assume vis: "visible searches ?a"
      show ?thesis using visible_answers(4) [OF snoc.prems(2) real(1) vis real(2) e] by simp
    qed
    have "kind (?a @ [x]) = None" by (rule absent_descends [OF gone])
    then show ?case by simp
  qed
qed

lemma guest_stat_truthful:
  assumes ok: "list_all plain segs" and "segs \<noteq> []" and real: "real_above kind segs"
    and st: "stat_by_asking_the_guest ask (render 1 segs) rel = Inr e"
  shows "map_option entry_kind e = kind segs"
proof (cases e)
  case (Some entry)
  then have "kind_the_guest_reports ask (render 1 segs) = Inr (Some (entry_kind entry))"
    using st by (auto simp: stat_by_asking_the_guest_def bindE_eq_Inr split: option.splits if_splits)
  then show ?thesis using reported_kind [OF ok real] Some by simp
next
  case None
  obtain xs x where segs: "segs = xs @ [x]" using assms(2) by (cases segs rule: rev_cases) auto
  have rep: "kind_the_guest_reports ask (render 1 segs) = Inr None"
    and blocked: "ancestor_blocking_the_view ask (render 1 segs) = Inr None"
    using st None
    by (auto simp: stat_by_asking_the_guest_def bindE_eq_Inr split: option.splits if_splits)
  have "climb ask (render 1 xs) = Inr None"
    using blocked dirname_render [of xs x 1] plain_segs_ok [OF ok] by (simp add: ancestor_blocking_the_view_def segs)
  then have "visible searches segs \<or> kind segs = None"
    using climb_visible [of xs x] ok real by (simp add: segs)
  then have "kind segs = None" using reported_nothing [OF ok real rep] by blast
  then show ?thesis using None by simp
qed

end

sublocale honest_guest \<subseteq> asked: truthful_stat kind "\<lambda>p. stat_by_asking_the_guest ask p rel" for rel
  using guest_stat_truthful tree top by unfold_locales blast+

end
