(* ===== verification/Guest_Tree.thy ===== *)
theory Guest_Tree
  imports Guest_View
begin

text \<open>
  A POSIX file tree with links and search bits, path lookup as a kernel does it, and the
  \<open>test\<close> utility over it.  It provides the interfaces of \<open>Guest_View\<close>, and the properties
  of the guest-path helpers are stated here.
\<close>

subsection \<open>Trees\<close>

text \<open>A regular file and a directory carry the execute bit the asker has on them.\<close>

datatype node = Reg bool | Dev | Link string | Dir bool "(string \<times> node) list"

fun node_at :: "node \<Rightarrow> string list \<Rightarrow> node option" where
  "node_at n [] = Some n"
| "node_at (Dir x es) (s # ss) =
     (case map_of es s of None \<Rightarrow> None | Some c \<Rightarrow> node_at c ss)"
| "node_at _ (s # ss) = None"

primrec kind_of :: "node \<Rightarrow> entry_kind" where
  "kind_of (Reg x) = FILE"
| "kind_of Dev = OTHER"
| "kind_of (Link t) = SYMLINK"
| "kind_of (Dir x es) = DIRECTORY"

primrec may_search :: "node \<Rightarrow> bool" where
  "may_search (Reg x) = x"
| "may_search Dev = False"
| "may_search (Link t) = False"
| "may_search (Dir x es) = x"

definition tree_kind :: "node \<Rightarrow> view" where
  "tree_kind root segs = map_option kind_of (node_at root segs)"

definition tree_searches :: "node \<Rightarrow> string list \<Rightarrow> bool" where
  "tree_searches root segs = (case node_at root segs of Some (Dir x es) \<Rightarrow> x | _ \<Rightarrow> False)"

lemma tree_searches_node:
  "tree_searches root segs =
     (case node_at root segs of Some n \<Rightarrow> kind_of n = DIRECTORY \<and> may_search n | None \<Rightarrow> False)"
  by (auto simp: tree_searches_def split: option.splits node.splits)

lemma node_at_snoc:
  "node_at n (segs @ [s]) =
     (case node_at n segs of Some (Dir x es) \<Rightarrow> map_of es s | _ \<Rightarrow> None)"
proof (induction n segs rule: node_at.induct)
  case (1 n)
  then show ?case by (cases n) (auto split: option.splits)
qed (auto split: option.splits)

lemma node_at_append:
  "node_at n (xs @ ys) = (case node_at n xs of None \<Rightarrow> None | Some m \<Rightarrow> node_at m ys)"
  by (induction n xs rule: node_at.induct) (auto split: option.splits)

subsection \<open>Lookup\<close>

text \<open>
  The location a path leads to, following at most \<open>fuel\<close> links; the last component is
  followed when \<open>follow\<close> says so.
\<close>

function lookup :: "nat \<Rightarrow> bool \<Rightarrow> node \<Rightarrow> string list \<Rightarrow> string list \<Rightarrow> string list option" where
  "lookup fuel follow root here [] = Some here"
| "lookup fuel follow root here (s # ss) =
     (if s = [] \<or> s = dot then lookup fuel follow root here ss
      else if s = dotdot then lookup fuel follow root (butlast here) ss
      else case node_at root here of
        Some (Dir x es) \<Rightarrow>
          if \<not> x then None
          else (case map_of es s of
              None \<Rightarrow> None
            | Some (Link t) \<Rightarrow>
                if ss = [] \<and> \<not> follow then Some (here @ [s])
                else if fuel = 0 then None
                else lookup (fuel - 1) follow root (if isabs t then [] else here)
                       (split_on slash t @ ss)
            | Some _ \<Rightarrow> lookup fuel follow root (here @ [s]) ss)
      | _ \<Rightarrow> None)"
  by pat_completeness auto
termination
  by (relation "measures [\<lambda>(fuel, _, _, _, _). fuel, \<lambda>(_, _, _, _, todo). length todo]") auto

definition link_limit :: nat where "link_limit = 40"

definition test_holds :: "node \<Rightarrow> string \<Rightarrow> string \<Rightarrow> bool" where
  "test_holds root flag path =
     (let found = (\<lambda>follow. Option.bind (lookup link_limit follow root [] (split_on slash path))
                              (node_at root))
      in if flag = ''-L'' then (case found False of Some n \<Rightarrow> kind_of n = SYMLINK | None \<Rightarrow> False)
         else if flag = ''-d'' then (case found True of Some n \<Rightarrow> kind_of n = DIRECTORY | None \<Rightarrow> False)
         else if flag = ''-f'' then (case found True of Some n \<Rightarrow> kind_of n = FILE | None \<Rightarrow> False)
         else if flag = ''-e'' then found True \<noteq> None
         else if flag = ''-x'' then (case found True of Some n \<Rightarrow> may_search n | None \<Rightarrow> False)
         else False)"

definition posix_test :: "node \<Rightarrow> ask_fun" where
  "posix_test root argv =
     (case argv of [cmd, flag, path] \<Rightarrow> Inr (if test_holds root flag path then 0 else 1)
      | _ \<Rightarrow> Inr 2)"

lemma lookup_real:
  assumes "node_at root here \<noteq> None" and "list_all plain segs"
    and "\<forall>k. 0 < k \<longrightarrow> k < length segs \<longrightarrow> tree_kind root (here @ take k segs) \<noteq> Some SYMLINK"
    and "follow \<longrightarrow> tree_kind root (here @ segs) \<noteq> Some SYMLINK
      \<or> \<not> (\<forall>k < length segs. tree_searches root (here @ take k segs))"
  shows "lookup fuel follow root here segs =
    (if (\<forall>k < length segs. tree_searches root (here @ take k segs))
        \<and> tree_kind root (here @ segs) \<noteq> None
     then Some (here @ segs) else None)"
  using assms
proof (induction segs arbitrary: here)
  case Nil
  then show ?case by (simp add: tree_kind_def)
next
  case (Cons s ss)
  have s: "s \<noteq> []" "s \<noteq> dot" "s \<noteq> dotdot" using Cons.prems(2) by (simp_all add: plain_def)
  have vis: "(\<forall>k < length (s # ss). tree_searches root (here @ take k (s # ss))) \<longleftrightarrow>
      tree_searches root here \<and> (\<forall>k < length ss. tree_searches root ((here @ [s]) @ take k ss))"
    by (auto simp: less_Suc_eq_0_disj)
  show ?case
  proof (cases "tree_searches root here")
    case False
    then have "lookup fuel follow root here (s # ss) = None"
      using s by (auto simp: tree_searches_def split: option.splits node.splits)
    moreover have "\<not> (\<forall>k < length (s # ss). tree_searches root (here @ take k (s # ss)))"
      using False vis by blast
    ultimately show ?thesis by simp
  next
    case True
    then obtain es where here: "node_at root here = Some (Dir True es)"
      by (auto simp: tree_searches_def split: option.splits node.splits)
    have child: "node_at root (here @ [s]) = map_of es s" by (simp add: node_at_snoc here)
    show ?thesis
    proof (cases "map_of es s")
      case None
      have "node_at root ((here @ [s]) @ ss) = None"
        using None child by (subst node_at_append) simp
      then show ?thesis using s here None by (simp add: tree_kind_def)
    next
      case (Some c)
      show ?thesis
      proof (cases "kind_of c = SYMLINK")
        case True
        then obtain t where t: "c = Link t" by (cases c) auto
        have "tree_kind root (here @ [s]) = Some SYMLINK"
          using Some child True by (simp add: tree_kind_def)
        then have "ss = []" using Cons.prems(3) [rule_format, of 1] by (cases ss) auto
        then show ?thesis
          using s here Some t child Cons.prems(4) \<open>tree_searches root here\<close>
          by (auto simp: tree_kind_def)
      next
        case False
        have "lookup fuel follow root here (s # ss) = lookup fuel follow root (here @ [s]) ss"
          using s here Some False by (cases c) auto
        moreover have "\<forall>k. 0 < k \<longrightarrow> k < length ss \<longrightarrow>
            tree_kind root ((here @ [s]) @ take k ss) \<noteq> Some SYMLINK"
        proof (intro allI impI)
          fix k assume "0 < k" "k < length ss"
          then show "tree_kind root ((here @ [s]) @ take k ss) \<noteq> Some SYMLINK"
            using Cons.prems(3) [rule_format, of "Suc k"] by simp
        qed
        ultimately show ?thesis
          using Cons.IH [of "here @ [s]"] Cons.prems(2,4) vis True child Some by auto
      qed
    qed
  qed
qed

lemma lookup_rendered:
  assumes plain: "list_all plain segs" and real: "real_above (tree_kind (Dir x es)) segs"
    and "follow \<longrightarrow> tree_kind (Dir x es) segs \<noteq> Some SYMLINK
      \<or> \<not> visible (tree_searches (Dir x es)) segs"
  shows "lookup fuel follow (Dir x es) [] (split_on slash (render 1 segs)) =
    (if visible (tree_searches (Dir x es)) segs \<and> tree_kind (Dir x es) segs \<noteq> None
     then Some segs else None)"
proof -
  have free: "\<forall>s \<in> set segs. slash \<notin> set s" using plain by (auto simp: list_all_iff plain_def)
  have "lookup fuel follow (Dir x es) [] (split_on slash (render 1 segs)) =
      lookup fuel follow (Dir x es) [] segs"
  proof (cases "segs = []")
    case True
    then show ?thesis by (simp add: render_def)
  next
    case False
    then have "split_on slash (render 1 segs) = [] # segs"
      using free plain_segs_ok [OF plain] by (simp add: render_eq split_join)
    then show ?thesis by simp
  qed
  then show ?thesis
    using lookup_real [of "Dir x es" "[]" segs follow fuel] assms
    by (simp add: visible_def real_above_def)
qed

lemma test_says_posix: "test_holds root flag (render 1 segs) = yes \<Longrightarrow>
  test_says (posix_test root) flag segs yes"
  by (auto simp: test_says_def posix_test_def)

interpretation posix: honest_guest "tree_kind (Dir x es)" "tree_searches (Dir x es)"
  "posix_test (Dir x es)" for x es
proof
  let ?kind = "tree_kind (Dir x es)"
  let ?vis = "visible (tree_searches (Dir x es))"
  note found = lookup_rendered [where x = x and es = es and fuel = link_limit]
  fix segs flag
  assume plain: "list_all plain segs" and real: "real_above ?kind segs"
  show "test_says (posix_test (Dir x es)) flag segs False" if "\<not> ?vis segs"
    using found [OF plain real] that
    by (intro test_says_posix) (simp add: test_holds_def)
  show "test_says (posix_test (Dir x es)) ''-L'' segs (?kind segs = Some SYMLINK)" if "?vis segs"
    using found [OF plain real, of False] that
    by (intro test_says_posix) (auto simp: test_holds_def tree_kind_def)
  show "test_says (posix_test (Dir x es)) ''-d'' segs (?kind segs = Some DIRECTORY) \<and>
      test_says (posix_test (Dir x es)) ''-f'' segs (?kind segs = Some FILE) \<and>
      test_says (posix_test (Dir x es)) ''-e'' segs (?kind segs \<noteq> None)"
    if "?vis segs" "?kind segs \<noteq> Some SYMLINK"
    using found [OF plain real, of True] that
    by (intro conjI test_says_posix) (auto simp: test_holds_def tree_kind_def)
  show "test_says (posix_test (Dir x es)) ''-x'' segs (tree_searches (Dir x es) segs)"
    if "?vis segs" "?kind segs = Some DIRECTORY"
    using found [OF plain real, of True] that
    by (intro test_says_posix)
      (auto simp: test_holds_def tree_kind_def tree_searches_node)
next
  show "tree_kind (Dir x es) (segs @ [s]) \<noteq> None \<Longrightarrow> tree_kind (Dir x es) segs = Some DIRECTORY"
    for segs s
    by (auto simp: tree_kind_def node_at_snoc split: option.splits node.splits)
  show "tree_kind (Dir x es) [] = Some DIRECTORY" by (simp add: tree_kind_def)
qed

end
