(* ===== verification/Path_Properties.thy ===== *)
theory Path_Properties
  imports Guest_Tree
begin

text \<open>
  The properties of the guest-path helpers: the two halves of confinement put together, the
  stat by asking the guest, the preparation of a storage base and the reach rule.
\<close>

subsection \<open>The two halves together\<close>

context truthful_stat
begin

text \<open>What a path has passed once both checks have accepted it.\<close>

lemma confined_and_checked:
  assumes wd: "leading_slashes wd = 1" "lexical [] wd \<noteq> []"
    and name: "confine_resolve_guest_path p wd = Inr r"
    and fs: "refuse_symlinked_ancestors stat r wd include_self = Inr u"
    and segs: "segs = lexical (lexical [] wd) p"
  shows "r = render 1 segs" and "prefix (lexical [] wd) segs" and "list_all plain segs"
    and "open_above kind segs"
    and "include_self \<or> segs = lexical [] wd \<Longrightarrow> kind segs \<in> {None, Some DIRECTORY}"
proof -
  have abs: "isabs wd" using wd(1) by (simp add: norm_form_abs norm_form_def Let_def)
  have base: "norm_form wd = (1, lexical [] wd)" using norm_form_lexical [OF abs] wd(1) by simp
  show r: "r = render 1 segs" and pre: "prefix (lexical [] wd) segs"
    using name confine_resolve_segments [OF abs wd(2), of p] wd(1) segs by (auto split: if_splits)
  show plain: "list_all plain segs"
    unfolding segs by (intro lexical_plain) simp
  have ne: "segs \<noteq> []" using pre wd(2) by auto
  define deep where "deep = (if include_self then segs else butlast segs)"
  have pdeep: "list_all plain deep"
    using plain by (auto simp: deep_def list_all_iff dest: in_set_butlastD)
  have "dirname (render 1 segs) = render 1 (butlast segs)"
    using dirname_render [of "butlast segs" "last segs" 1] ne plain_segs_ok [OF plain] by simp
  then have "check_directories stat (guest_path_and_ancestors (render 1 deep) wd) = Inr u"
    using fs by (auto simp: refuse_symlinked_ancestors_def r deep_def Let_def split: if_splits)
  moreover have "norm_form (render 1 deep) = (1, deep)"
    using pdeep by (intro norm_form_render) simp_all
  ultimately have "check_directories stat (map (render 1)
      (nonempty_takes (if prefix (lexical [] wd) deep then deep else lexical [] wd))) = Inr u"
    using guest_path_and_ancestors_segments [OF _ base wd(2), of "render 1 deep" 1 deep] by simp
  then have facts: "open_above kind (if prefix (lexical [] wd) deep then deep else lexical [] wd)
      \<and> kind (if prefix (lexical [] wd) deep then deep else lexical [] wd) \<in> {None, Some DIRECTORY}"
    using checked_from_root pdeep lexical_plain [of "[]" wd] by auto
  have cases: "(deep = segs \<and> prefix (lexical [] wd) deep)
      \<or> (\<not> include_self \<and> segs = lexical [] wd \<and> \<not> prefix (lexical [] wd) deep)
      \<or> (\<not> include_self \<and> segs \<noteq> lexical [] wd \<and> deep = butlast segs \<and> prefix (lexical [] wd) deep)"
  proof (cases include_self)
    case True
    then show ?thesis using pre by (simp add: deep_def)
  next
    case False
    obtain zs where zs: "segs = lexical [] wd @ zs" using pre by (auto simp: prefix_def)
    show ?thesis
    proof (cases "zs = []")
      case True
      have "length (butlast segs) < length segs" using ne by simp
      then have "\<not> prefix segs (butlast segs)" by (auto dest: prefix_length_le)
      then show ?thesis using True zs False by (simp add: deep_def)
    next
      case nonempty: False
      then show ?thesis using zs False by (simp add: deep_def butlast_append)
    qed
  qed
  have parent: "open_above kind segs"
    if "open_above kind (butlast segs)" "kind (butlast segs) \<in> {None, Some DIRECTORY}"
    using that open_above_snoc [of kind "butlast segs" "last segs"] ne by auto
  show "open_above kind segs"
    using cases facts parent by auto
  show "kind segs \<in> {None, Some DIRECTORY}" if "include_self \<or> segs = lexical [] wd"
    using cases facts that by auto
qed

text \<open>Where the stat always answers, a check of real or missing directories passes.\<close>

lemma check_passes:
  assumes total: "\<And>q. \<exists>e. stat q = Inr e"
    and plain: "list_all plain done" "list_all plain ys"
    and dirs: "\<forall>k \<le> length (done @ ys). kind (take k (done @ ys)) \<in> {None, Some DIRECTORY}"
  shows "check_directories stat (map (render 1) (map (\<lambda>t. done @ t) (nonempty_takes ys))) = Inr ()"
  using plain dirs
proof (induction ys arbitrary: "done")
  case (Cons y ys)
  let ?d = "done @ [y]"
  obtain e where e: "stat (render 1 ?d) = Inr e" using total by blast
  have all: "kind (take k (?d @ ys)) \<in> {None, Some DIRECTORY}" if "k \<le> length (?d @ ys)" for k
    using Cons.prems(3) that by simp
  have real: "real_above kind ?d"
    unfolding real_above_def
  proof (intro allI impI)
    fix k assume "k < length ?d"
    then have "take k ?d = take k (?d @ ys)" "k \<le> length (?d @ ys)" by simp_all
    then show "kind (take k ?d) \<noteq> Some SYMLINK" using all [of k] by auto
  qed
  have kind: "map_option entry_kind e = kind ?d"
    using truthful [OF _ _ real e] Cons.prems by simp
  show ?case
  proof (cases e)
    case None
    then show ?thesis using e by (simp add: nonempty_takes_Cons)
  next
    case (Some entry)
    have "kind ?d \<in> {None, Some DIRECTORY}" using all [of "length ?d"] by simp
    then have "entry_kind entry = DIRECTORY" using kind Some by auto
    moreover have "check_directories stat
        (map (render 1) (map (\<lambda>t. ?d @ t) (nonempty_takes ys))) = Inr ()"
      using Cons.prems by (intro Cons.IH) simp_all
    ultimately show ?thesis using e Some by (simp add: nonempty_takes_Cons o_def)
  qed
qed simp

lemma accepts_parent:
  assumes total: "\<And>q. \<exists>e. stat q = Inr e"
    and wd: "leading_slashes wd = 1" "lexical [] wd \<noteq> []"
    and pre: "strict_prefix (lexical [] wd) segs" and plain: "list_all plain segs"
    and dirs: "\<forall>k < length segs. kind (take k segs) \<in> {None, Some DIRECTORY}"
  shows "refuse_symlinked_ancestors stat (render 1 segs) wd False = Inr ()"
proof -
  have abs: "isabs wd" using wd(1) by (simp add: norm_form_abs norm_form_def Let_def)
  have base: "norm_form wd = (1, lexical [] wd)" using norm_form_lexical [OF abs] wd(1) by simp
  obtain zs where zs: "segs = lexical [] wd @ zs" "zs \<noteq> []"
    using pre by (auto simp: strict_prefix_def prefix_def)
  have ne: "segs \<noteq> []" using zs by simp
  have d: "dirname (render 1 segs) = render 1 (butlast segs)"
    using dirname_render [of "butlast segs" "last segs" 1] ne plain_segs_ok [OF plain] by simp
  have pb: "list_all plain (butlast segs)"
    using plain by (auto simp: list_all_iff dest: in_set_butlastD)
  have "norm_form (render 1 (butlast segs)) = (1, butlast segs)"
    using pb by (intro norm_form_render) simp_all
  moreover have "prefix (lexical [] wd) (butlast segs)" using zs by (simp add: butlast_append)
  ultimately have "guest_path_and_ancestors (dirname (render 1 segs)) wd =
      map (render 1) (nonempty_takes (butlast segs))"
    using guest_path_and_ancestors_segments [OF _ base wd(2), of "render 1 (butlast segs)"] d
    by simp
  moreover have "kind (take k (butlast segs)) \<in> {None, Some DIRECTORY}"
    if "k \<le> length (butlast segs)" for k
    using dirs [rule_format, of k] that ne
    by (cases segs rule: rev_cases) simp_all
  ultimately show ?thesis
    using check_passes [OF total, of "[]" "butlast segs"] pb
    by (simp add: refuse_symlinked_ancestors_def)
qed

end

text \<open>
  The file name check accepts a path exactly when it has no backslash, has the same form of
  root as the working directory and means, joined onto it, a location at or below it; it then
  answers that location, and otherwise raises \<open>ValueError\<close>.  No string trick (a dot-dot, a
  doubled slash, a sibling sharing a prefix) changes that.
\<close>

theorem file_name_check_exact:
  assumes "isabs wd" and "lexical [] wd \<noteq> []"
  shows "confine_resolve_guest_path p wd =
    (if CHR 0x5C \<notin> set p \<and> joined_slashes wd p = leading_slashes wd
        \<and> prefix (lexical [] wd) (lexical (lexical [] wd) p)
     then Inr (render (leading_slashes wd) (lexical (lexical [] wd) p))
     else Inl ValueError)"
  using assms by (rule confine_resolve_segments)

theorem file_name_check_exact_witness:
  "confine_resolve_guest_path ''../work2/x'' ''/srv/work'' = Inl ValueError \<and>
   confine_resolve_guest_path ''a/../b'' ''/srv/work'' = Inr ''/srv/work/b''"
proof -
  have wd: "isabs ''/srv/work''" "lexical [] ''/srv/work'' \<noteq> []"
    by (simp_all add: isabs_def lexical_def)
  show ?thesis
    using file_name_check_exact [OF wd, of "''../work2/x''"]
      file_name_check_exact [OF wd, of "''a/../b''"]
    by (simp add: isabs_def lexical_def joined_slashes_def leading_slashes_def render_def)
qed

lemma write_path_eq_Inr:
  "confine_resolve_guest_write_path stat p wd = Inr r \<longleftrightarrow>
    confine_resolve_guest_path p wd = Inr r \<and> r \<noteq> normpath wd
    \<and> refuse_symlinked_ancestors stat r wd False = Inr ()
    \<and> (\<exists>e. stat r = Inr e \<and> map_option entry_kind e \<noteq> Some SYMLINK)"
  by (cases "confine_resolve_guest_path p wd";
      cases "refuse_symlinked_ancestors stat (projr (confine_resolve_guest_path p wd)) wd False";
      cases "stat (projr (confine_resolve_guest_path p wd))")
    (auto simp: confine_resolve_guest_write_path_def split: option.splits)

lemma single_slash_abs: "leading_slashes wd = 1 \<Longrightarrow> isabs wd"
  by (simp add: norm_form_abs norm_form_def Let_def)

lemma working_directory_render:
  "leading_slashes wd = 1 \<Longrightarrow> normpath wd = render 1 (lexical [] wd)"
  using norm_form_lexical [OF single_slash_abs] by (simp add: normpath_eq_render)

lemma segments_of_render:
  "list_all plain xs \<Longrightarrow> list_all plain ys \<Longrightarrow> render 1 xs = render 1 ys \<Longrightarrow> xs = ys"
  using render_inj [of 1 xs 1 ys] by simp

text \<open>
  C1: A write the bundle accepts lands where its text says.  Over a stat that tells the truth,
  the path is strictly below the working directory, and the kernel's walk along it passes
  through no link, wherever links would lead.
\<close>

theorem write_path_follows_no_link:
  assumes stat: "truthful_stat kind stat"
    and wd: "leading_slashes wd = 1" "lexical [] wd \<noteq> []"
    and ok: "confine_resolve_guest_write_path stat p wd = Inr r"
  shows "\<exists>segs. r = render 1 segs \<and> segs = lexical (lexical [] wd) p
    \<and> strict_prefix (lexical [] wd) segs \<and> walk kind jump [] segs = segs"
proof -
  define segs where "segs = lexical (lexical [] wd) p"
  note w = ok [unfolded write_path_eq_Inr]
  obtain e where leaf: "stat r = Inr e" and e: "map_option entry_kind e \<noteq> Some SYMLINK"
    using w by blast
  have c: "r = render 1 segs" "prefix (lexical [] wd) segs" "list_all plain segs"
    "open_above kind segs"
    using truthful_stat.confined_and_checked [OF stat wd _ _ segs_def, of r False "()"] w by simp_all
  have "segs \<noteq> lexical [] wd" using c(1) w working_directory_render [OF wd(1)] by auto
  moreover have "segs \<noteq> []" using c(2) wd(2) by auto
  then have "kind segs \<noteq> Some SYMLINK"
    using truthful_stat.truthful [OF stat c(3) _ open_above_real [OF c(4)], of e] leaf c(1) e
    by simp
  ultimately show ?thesis
    using c walk_real_root [OF open_above_real [OF c(4)], of jump] segs_def by (auto simp: strict_prefix_def)
qed

text \<open>A tree with a working directory in it, and in that a link out of it.\<close>

definition sample_tree :: node where
  "sample_tree = Dir True [(''srv'', Dir True
     [(''work'', Dir True [(''out'', Link ''/etc''), (''sub'', Dir True []), (''f'', Reg False)])]),
     (''etc'', Dir True [(''passwd'', Reg False)])]"

definition sample_stat :: stat_fun where
  "sample_stat p = stat_by_asking_the_guest (posix_test sample_tree) p p"

lemma sample_truthful: "truthful_stat (tree_kind sample_tree) sample_stat"
proof
  fix segs e
  assume "list_all plain segs" "segs \<noteq> []" "real_above (tree_kind sample_tree) segs"
    "sample_stat (render 1 segs) = Inr e"
  then show "map_option entry_kind e = tree_kind sample_tree segs"
    unfolding sample_stat_def sample_tree_def by (rule posix.guest_stat_truthful)
next
  show "tree_kind sample_tree (segs @ [s]) \<noteq> None \<Longrightarrow> tree_kind sample_tree segs = Some DIRECTORY"
    for segs s
    unfolding sample_tree_def by (rule posix.tree)
  show "tree_kind sample_tree [] = Some DIRECTORY"
    unfolding sample_tree_def by (rule posix.top)
qed

lemma sample_work: "leading_slashes ''/srv/work'' = 1" "lexical [] ''/srv/work'' \<noteq> []"
  by code_simp+

theorem write_path_follows_no_link_witness:
  "\<exists>segs. ''/srv/work/sub/new'' = render 1 segs \<and> segs = lexical (lexical [] ''/srv/work'') ''sub/new''
    \<and> strict_prefix (lexical [] ''/srv/work'') segs
    \<and> walk (tree_kind sample_tree) (\<lambda>_. []) [] segs = segs"
proof -
  have "confine_resolve_guest_write_path sample_stat ''sub/new'' ''/srv/work''
      = Inr ''/srv/work/sub/new''"
    by code_simp
  then show ?thesis by (rule write_path_follows_no_link [OF sample_truthful sample_work])
qed

lemma read_path_eq_Inr:
  "confine_resolve_guest_read_path stat p wd = Inr r \<longleftrightarrow>
    confine_resolve_guest_path p wd = Inr r \<and> refuse_symlinked_ancestors stat r wd False = Inr ()"
  by (auto simp: confine_resolve_guest_read_path_def bindE_eq_Inr)

lemma delete_path_eq_Inr:
  "confine_resolve_guest_delete_path stat p wd = Inr r \<longleftrightarrow>
    confine_resolve_guest_path p wd = Inr r \<and> r \<noteq> normpath wd
    \<and> refuse_symlinked_ancestors stat r wd False = Inr ()"
  by (auto simp: confine_resolve_guest_delete_path_def bindE_eq_Inr split: if_splits)

lemma list_path_eq_Inr:
  "confine_resolve_guest_list_path stat p wd = Inr r \<longleftrightarrow>
    confine_resolve_guest_path p wd = Inr r \<and> refuse_symlinked_ancestors stat r wd True = Inr ()"
  by (auto simp: confine_resolve_guest_list_path_def bindE_eq_Inr)

text \<open>
  C25: The write bundle refuses nothing else.  Over a truthful stat that always answers, it
  accepts exactly the names that pass the file name check, lie strictly below the working
  directory, have only directories or nothing above them and are not a link themselves.
\<close>

theorem write_path_exact:
  assumes stat: "truthful_stat kind stat" and total: "\<And>q. \<exists>e. stat q = Inr e"
    and wd: "leading_slashes wd = 1" "lexical [] wd \<noteq> []"
    and segs: "segs = lexical (lexical [] wd) p"
  shows "confine_resolve_guest_write_path stat p wd = Inr r \<longleftrightarrow>
    confine_resolve_guest_path p wd = Inr r \<and> segs \<noteq> lexical [] wd
    \<and> (\<forall>k < length segs. kind (take k segs) \<in> {None, Some DIRECTORY})
    \<and> kind segs \<noteq> Some SYMLINK"
proof -
  have name: "r = render 1 segs \<and> prefix (lexical [] wd) segs"
    if "confine_resolve_guest_path p wd = Inr r"
    using that confine_resolve_segments [OF single_slash_abs [OF wd(1)] wd(2), of p] wd(1) segs
    by (auto split: if_splits)
  have plain: "list_all plain segs" "list_all plain (lexical [] wd)"
    unfolding segs by (intro lexical_plain; simp)+
  note wdr = working_directory_render [OF wd(1)]
  show ?thesis
  proof
    assume "confine_resolve_guest_write_path stat p wd = Inr r"
    note w = this [unfolded write_path_eq_Inr]
    then obtain e where leaf: "stat r = Inr e" and e: "map_option entry_kind e \<noteq> Some SYMLINK"
      by blast
    have c: "r = render 1 segs" "prefix (lexical [] wd) segs" "open_above kind segs"
      using truthful_stat.confined_and_checked [OF stat wd _ _ segs, of r False "()"] w by simp_all
    have ne: "segs \<noteq> []" using c(2) wd(2) by auto
    have "kind segs \<noteq> Some SYMLINK"
      using truthful_stat.truthful [OF stat plain(1) ne open_above_real [OF c(3)], of e] leaf c(1) e by simp
    moreover have "segs \<noteq> lexical [] wd" using c(1) w wdr by auto
    moreover have "\<forall>k < length segs. kind (take k segs) \<in> {None, Some DIRECTORY}"
      using c(3) by (simp add: open_above_def)
    ultimately show "confine_resolve_guest_path p wd = Inr r \<and> segs \<noteq> lexical [] wd
      \<and> (\<forall>k < length segs. kind (take k segs) \<in> {None, Some DIRECTORY})
      \<and> kind segs \<noteq> Some SYMLINK" using w by simp
  next
    assume a: "confine_resolve_guest_path p wd = Inr r \<and> segs \<noteq> lexical [] wd
      \<and> (\<forall>k < length segs. kind (take k segs) \<in> {None, Some DIRECTORY})
      \<and> kind segs \<noteq> Some SYMLINK"
    then have r: "r = render 1 segs" and pre: "strict_prefix (lexical [] wd) segs"
      using name by (auto simp: strict_prefix_def)
    have ne: "segs \<noteq> []" using pre wd(2) by auto
    have real: "real_above kind segs" using a by (auto simp: real_above_def)
    obtain e where e: "stat r = Inr e" using total by blast
    then have "map_option entry_kind e \<noteq> Some SYMLINK"
      using truthful_stat.truthful [OF stat plain(1) ne real, of e] r a by simp
    moreover have "r \<noteq> normpath wd"
      using a r wdr segments_of_render [OF plain] by auto
    moreover have "refuse_symlinked_ancestors stat r wd False = Inr ()"
      unfolding r using a
      by (intro truthful_stat.accepts_parent [OF stat total wd pre plain(1)]) simp
    ultimately show "confine_resolve_guest_write_path stat p wd = Inr r"
      using a e by (auto simp: write_path_eq_Inr)
  qed
qed

text \<open>A stat that reads the tree itself, as a backend with an engine of its own has.\<close>

definition engine_stat :: "node \<Rightarrow> stat_fun" where
  "engine_stat root p =
     Inr (map_option (\<lambda>n. \<lparr>entry_path = p, entry_kind = kind_of n, size_bytes = None\<rparr>)
       (node_at root (snd (norm_form p))))"

interpretation engine: truthful_stat "tree_kind (Dir x es)" "engine_stat (Dir x es)" for x es
proof
  fix segs e
  assume "list_all plain segs" and "engine_stat (Dir x es) (render 1 segs) = Inr e"
  moreover from this(1) have "norm_form (render 1 segs) = (1, segs)"
    by (intro norm_form_render) simp_all
  ultimately show "map_option entry_kind e = tree_kind (Dir x es) segs"
    by (auto simp: engine_stat_def tree_kind_def option.map_comp o_def)
qed (rule posix.tree posix.top; assumption?)+

theorem write_path_exact_witness:
  "confine_resolve_guest_write_path (engine_stat sample_tree) ''out'' ''/srv/work'' \<noteq> Inr ''/srv/work/out''
   \<and> confine_resolve_guest_write_path (engine_stat sample_tree) ''f'' ''/srv/work'' = Inr ''/srv/work/f''"
proof -
  have stat: "truthful_stat (tree_kind sample_tree) (engine_stat sample_tree)"
    unfolding sample_tree_def by (rule engine.truthful_stat_axioms)
  have total: "\<exists>e. engine_stat sample_tree q = Inr e" for q by (simp add: engine_stat_def)
  note exact = write_path_exact [OF stat total sample_work refl]
  have "confine_resolve_guest_path ''f'' ''/srv/work'' = Inr ''/srv/work/f''"
    "lexical (lexical [] ''/srv/work'') ''out'' = [''srv'', ''work'', ''out'']"
    "lexical (lexical [] ''/srv/work'') ''f'' = [''srv'', ''work'', ''f'']"
    "lexical [] ''/srv/work'' = [''srv'', ''work'']"
    "tree_kind sample_tree [''srv'', ''work'', ''out''] = Some SYMLINK"
    "tree_kind sample_tree [''srv'', ''work'', ''f''] = Some FILE"
    "\<forall>k \<in> {..<3}. tree_kind sample_tree (take k [''srv'', ''work'', ''f'']) \<in> {None, Some DIRECTORY}"
    by code_simp+
  then show ?thesis
    using exact [of "''out''" "''/srv/work/out''"] exact [of "''f''" "''/srv/work/f''"] by auto
qed

text \<open>
  An enumeration the bundle accepts passes through no link either, the directory it names
  included, and that directory is at or below the working directory.
\<close>

theorem list_path_follows_no_link:
  assumes stat: "truthful_stat kind stat"
    and wd: "leading_slashes wd = 1" "lexical [] wd \<noteq> []"
    and ok: "confine_resolve_guest_list_path stat p wd = Inr r"
  shows "\<exists>segs. r = render 1 segs \<and> prefix (lexical [] wd) segs
    \<and> walk kind jump [] segs = segs \<and> kind segs \<in> {None, Some DIRECTORY}"
proof -
  define segs where "segs = lexical (lexical [] wd) p"
  note c = truthful_stat.confined_and_checked [OF stat wd _ _ segs_def, of r True "()"]
    ok [unfolded list_path_eq_Inr]
  have "kind segs \<noteq> Some SYMLINK" using c by auto
  then show ?thesis
    using c walk_real_root [of kind segs jump] open_above_real [of kind segs] by auto
qed

theorem list_path_follows_no_link_witness:
  "\<exists>segs. ''/srv/work/sub'' = render 1 segs \<and> prefix (lexical [] ''/srv/work'') segs
    \<and> walk (tree_kind sample_tree) (\<lambda>_. []) [] segs = segs
    \<and> tree_kind sample_tree segs \<in> {None, Some DIRECTORY}"
proof -
  have "confine_resolve_guest_list_path sample_stat ''./sub/'' ''/srv/work'' = Inr ''/srv/work/sub''"
    by code_simp
  then show ?thesis by (rule list_path_follows_no_link [OF sample_truthful sample_work])
qed

text \<open>
  A removal the bundle accepts unlinks an entry of the directory its text names: it is
  strictly below the working directory, and the kernel reaches its parent through no link.
  The entry itself may be a link, which is then what is unlinked.
\<close>

theorem delete_path_reaches_its_parent:
  assumes stat: "truthful_stat kind stat"
    and wd: "leading_slashes wd = 1" "lexical [] wd \<noteq> []"
    and ok: "confine_resolve_guest_delete_path stat p wd = Inr r"
  shows "\<exists>segs. r = render 1 segs \<and> strict_prefix (lexical [] wd) segs
    \<and> walk kind jump [] (butlast segs) = butlast segs"
proof -
  define segs where "segs = lexical (lexical [] wd) p"
  note w = ok [unfolded delete_path_eq_Inr]
  have c: "r = render 1 segs" "prefix (lexical [] wd) segs" "open_above kind segs"
    using truthful_stat.confined_and_checked [OF stat wd _ _ segs_def, of r False "()"] w by simp_all
  have "segs \<noteq> lexical [] wd" using c(1) w working_directory_render [OF wd(1)] by auto
  moreover have "segs \<noteq> []" using c(2) wd(2) by auto
  ultimately show ?thesis
    using c walk_to_parent [OF open_above_real [OF c(3)], of jump] by (auto simp: strict_prefix_def)
qed

theorem delete_path_reaches_its_parent_witness:
  "\<exists>segs. ''/srv/work/out'' = render 1 segs \<and> strict_prefix (lexical [] ''/srv/work'') segs
    \<and> walk (tree_kind sample_tree) (\<lambda>_. []) [] (butlast segs) = butlast segs"
proof -
  have "confine_resolve_guest_delete_path sample_stat ''out'' ''/srv/work'' = Inr ''/srv/work/out''"
    by code_simp
  then show ?thesis by (rule delete_path_reaches_its_parent [OF sample_truthful sample_work])
qed

text \<open>
  A read or a stat the bundle accepts is at or below the working directory and the kernel
  reaches its parent through no link; what the leaf is stays the caller's question.
\<close>

theorem read_path_reaches_its_parent:
  assumes stat: "truthful_stat kind stat"
    and wd: "leading_slashes wd = 1" "lexical [] wd \<noteq> []"
    and ok: "confine_resolve_guest_read_path stat p wd = Inr r"
  shows "\<exists>segs. r = render 1 segs \<and> prefix (lexical [] wd) segs
    \<and> walk kind jump [] (butlast segs) = butlast segs"
proof -
  define segs where "segs = lexical (lexical [] wd) p"
  note w = ok [unfolded read_path_eq_Inr]
  have c: "r = render 1 segs" "prefix (lexical [] wd) segs" "open_above kind segs"
    using truthful_stat.confined_and_checked [OF stat wd _ _ segs_def, of r False "()"] w by simp_all
  have "segs \<noteq> []" using c(2) wd(2) by auto
  then show ?thesis
    using c walk_to_parent [OF open_above_real [OF c(3)], of jump] by auto
qed

theorem read_path_reaches_its_parent_witness:
  "\<exists>segs. ''/srv/work/out'' = render 1 segs \<and> prefix (lexical [] ''/srv/work'') segs
    \<and> walk (tree_kind sample_tree) (\<lambda>_. []) [] (butlast segs) = butlast segs"
proof -
  have "confine_resolve_guest_read_path sample_stat ''sub/../out'' ''/srv/work'' = Inr ''/srv/work/out''"
    by code_simp
  then show ?thesis by (rule read_path_reaches_its_parent [OF sample_truthful sample_work])
qed

subsection \<open>Asking the guest, preparing a base, the reach rule\<close>

text \<open>
  C26: Over a guest whose \<open>test\<close> is honest, an answered stat is the truth for a path with no
  link above it: a link is reported as a link although \<open>-d\<close> and \<open>-f\<close> follow it, and "absent"
  is answered only where nothing is there, not where the asker could not have seen it.
\<close>

theorem guest_stat_tells_the_truth:
  assumes guest: "honest_guest kind searches ask"
    and path: "list_all plain segs" "segs \<noteq> []" "real_above kind segs"
    and answered: "stat_by_asking_the_guest ask (render 1 segs) rel = Inr e"
  shows "map_option entry_kind e = kind segs \<and> (\<forall>entry. e = Some entry \<longrightarrow> entry_path entry = rel)"
proof
  show "map_option entry_kind e = kind segs"
    by (rule honest_guest.guest_stat_truthful [OF guest path answered])
  show "\<forall>entry. e = Some entry \<longrightarrow> entry_path entry = rel"
    using answered
    by (auto simp: stat_by_asking_the_guest_def bindE_eq_Inr split: option.splits if_splits)
qed

theorem guest_stat_tells_the_truth_witness:
  "map_option entry_kind (Some \<lparr>entry_path = ''out'', entry_kind = SYMLINK, size_bytes = None\<rparr>)
     = tree_kind sample_tree [''srv'', ''work'', ''out'']"
proof -
  have guest: "honest_guest (tree_kind sample_tree) (tree_searches sample_tree) (posix_test sample_tree)"
    unfolding sample_tree_def by (rule posix.honest_guest_axioms)
  have "list_all plain [''srv'', ''work'', ''out'']"
    "real_above (tree_kind sample_tree) [''srv'', ''work'', ''out'']"
    "stat_by_asking_the_guest (posix_test sample_tree) (render 1 [''srv'', ''work'', ''out'']) ''out''
      = Inr (Some \<lparr>entry_path = ''out'', entry_kind = SYMLINK, size_bytes = None\<rparr>)"
    by code_simp+
  then show ?thesis using guest_stat_tells_the_truth [OF guest] by blast
qed

text \<open>
  Preparing a storage base touches nothing that is there.  The directories of the base are
  looked at outermost first: real ones are passed, the first missing one and all below it are
  handed to \<open>create\<close> in one call, and a link or a non-directory ends the preparation with
  nothing created.
\<close>

theorem ensure_creates_the_missing_suffix:
  "\<exists>there rest. directories = there @ rest
    \<and> (\<forall>d \<in> set there. \<exists>e. stat d = Inr (Some e) \<and> entry_kind e = DIRECTORY)
    \<and> ensure_directories stat create directories =
        (case rest of
           [] \<Rightarrow> Inr ()
         | d # _ \<Rightarrow> (case stat d of
             Inl x \<Rightarrow> Inl x
           | Inr None \<Rightarrow> create rest
           | Inr (Some e) \<Rightarrow> Inl (if entry_kind e = SYMLINK then ValueError else NotADirectoryError)))
    \<and> (\<forall>d below e. rest = d # below \<longrightarrow> stat d = Inr (Some e) \<longrightarrow> entry_kind e \<noteq> DIRECTORY)"
proof (induction directories)
  case Nil
  show ?case by (intro exI [of _ "[]"]) simp
next
  case (Cons d ds)
  show ?case
  proof (cases "\<exists>e. stat d = Inr (Some e) \<and> entry_kind e = DIRECTORY")
    case True
    from Cons.IH obtain there rest where IH: "ds = there @ rest"
      "\<forall>d \<in> set there. \<exists>e. stat d = Inr (Some e) \<and> entry_kind e = DIRECTORY"
      "ensure_directories stat create ds =
        (case rest of
           [] \<Rightarrow> Inr ()
         | d # _ \<Rightarrow> (case stat d of
             Inl x \<Rightarrow> Inl x
           | Inr None \<Rightarrow> create rest
           | Inr (Some e) \<Rightarrow> Inl (if entry_kind e = SYMLINK then ValueError else NotADirectoryError)))"
      "\<forall>d below e. rest = d # below \<longrightarrow> stat d = Inr (Some e) \<longrightarrow> entry_kind e \<noteq> DIRECTORY"
      by blast
    show ?thesis
      by (rule exI [of _ "d # there"], rule exI [of _ rest]) (use IH True in auto)
  next
    case False
    show ?thesis
      by (rule exI [of _ "[]"], rule exI [of _ "d # ds"])
        (use False in \<open>auto split: sum.splits option.splits\<close>)
  qed
qed

theorem ensure_creates_the_missing_suffix_witness:
  "ensure_directories (engine_stat sample_tree) (\<lambda>ds. if ds = [''/srv/a'', ''/srv/a/b''] then Inr () else Inl KeyError)
     [''/srv'', ''/srv/a'', ''/srv/a/b''] = Inr ()
   \<and> (\<exists>there rest. [''/srv'', ''/srv/a'', ''/srv/a/b''] = there @ rest)"
proof
  show "ensure_directories (engine_stat sample_tree)
     (\<lambda>ds. if ds = [''/srv/a'', ''/srv/a/b''] then Inr () else Inl KeyError)
     [''/srv'', ''/srv/a'', ''/srv/a/b''] = Inr ()"
    by code_simp
  show "\<exists>there rest. [''/srv'', ''/srv/a'', ''/srv/a/b''] = there @ rest"
    using ensure_creates_the_missing_suffix
      [of "[''/srv'', ''/srv/a'', ''/srv/a/b'']" "engine_stat sample_tree" "\<lambda>_. Inr ()"] by blast
qed

text \<open>
  The reach rule licenses raised authority only where the guest could have replaced nothing:
  with some component walked, it answers yes exactly when every one belongs to root and has
  neither the group's nor the others' write bit.
\<close>

theorem host_owned_means_nobody_else_writes:
  assumes "walked \<noteq> []"
  shows "path_ancestors_are_host_owned walked otherwise \<longleftrightarrow>
    (\<forall>(path, uid, mode) \<in> set walked. uid = 0 \<and> \<not> bit mode 4 \<and> \<not> bit mode 1)"
proof -
  have "(m AND 18 = 0) \<longleftrightarrow> \<not> bit m 4 \<and> \<not> bit m 1" for m :: int
  proof
    assume "m AND 18 = 0"
    then have "\<not> bit (m AND 18) k" for k by simp
    from this [of 4] this [of 1] show "\<not> bit m 4 \<and> \<not> bit m 1"
      by (simp add: bit_and_iff bit_numeral_rec)
  next
    assume no: "\<not> bit m 4 \<and> \<not> bit m 1"
    have eighteen: "bit (18 :: int) k \<longleftrightarrow> k = 4 \<or> k = 1" for k
      by (auto simp: bit_numeral_rec bit_1_iff split: nat.splits)
    show "m AND 18 = 0"
      by (rule bit_eqI) (use no in \<open>auto simp: bit_and_iff eighteen\<close>)
  qed
  then show ?thesis
    using assms by (auto simp: path_ancestors_are_host_owned_def list_all_iff)
qed

theorem host_owned_means_nobody_else_writes_witness:
  "path_ancestors_are_host_owned [(''/srv'', 0, 493)] False
   \<and> \<not> path_ancestors_are_host_owned [(''/srv'', 0, 493), (''/srv/w'', 0, 509)] True"
proof -
  have "\<forall>(path, uid, mode) \<in> set [(''/srv'', 0 :: int, 493 :: int)].
      uid = 0 \<and> \<not> bit mode 4 \<and> \<not> bit mode 1"
    by (simp add: bit_numeral_rec)
  moreover have "\<not> (\<forall>(path, uid, mode) \<in> set [(''/srv'', 0 :: int, 493 :: int), (''/srv/w'', 0, 509)].
      uid = 0 \<and> \<not> bit mode 4 \<and> \<not> bit mode 1)"
    by (simp add: bit_numeral_rec)
  ultimately show ?thesis
    using host_owned_means_nobody_else_writes [of "[(''/srv'', 0, 493)]" False]
      host_owned_means_nobody_else_writes [of "[(''/srv'', 0, 493), (''/srv/w'', 0, 509)]" True]
    by blast
qed

text \<open>
  A relative path handed out is the way back: joining it onto the base gives the path it
  was computed from.
\<close>

theorem relative_path_joins_back:
  assumes base: "norm_form base = (m, ys)" "ys \<noteq> []"
    and rel: "guest_path_relative_to path base = Some rel"
  shows "normpath (path_join (normpath base) rel) = normpath path"
proof -
  obtain n xs where path: "norm_form path = (n, xs)" by (cases "norm_form path")
  from relative_to_segments [OF path base] rel
  have same: "n = m" and pre: "prefix ys xs" and r: "rel = join_with slash (drop (length ys) xs)"
    by (auto split: if_splits)
  obtain zs where zs: "xs = ys @ zs" using pre by (auto simp: prefix_def)
  have shape: "norm_shape (0 < n) xs" using slash_free_norm_form [OF path] by simp
  have ok: "list_all seg_ok zs" using norm_shape_seg_ok [OF shape] zs by simp
  have rz: "rel = join_with slash zs" using r zs by simp
  have abs: "\<not> isabs rel"
    using join_hd_not_slash [OF ok] rz by (cases "zs = []") (auto simp: isabs_def)
  have "foldl (push_segment (0 < m)) ys (split_on slash rel) = xs"
  proof (cases "zs = []")
    case True
    then show ?thesis using rz zs by (simp add: push_segment_def)
  next
    case False
    have "split_on slash rel = zs"
      unfolding rz using ok False by (intro split_join) (auto simp: list_all_iff seg_ok_def)
    moreover have "norm_segments (0 < m) (ys @ zs) = foldl (push_segment (0 < m)) ys zs"
      using slash_free_norm_form [OF base(1)] by (intro norm_segments_append_shape) simp
    ultimately show ?thesis using norm_segments_id [OF shape] zs same by simp
  qed
  then have "norm_form (path_join (normpath base) rel) = norm_form path"
    using norm_form_join_rel [OF abs base(1)] path same by simp
  then show ?thesis by (simp add: normpath_eq_iff)
qed

theorem relative_path_joins_back_witness:
  "normpath (path_join (normpath ''/srv//work'') ''a/b'') = normpath ''/srv/work/x/../a/b''"
proof -
  have "norm_form ''/srv//work'' = (1, [''srv'', ''work''])"
    "guest_path_relative_to ''/srv/work/x/../a/b'' ''/srv//work'' = Some ''a/b''"
    by code_simp+
  then show ?thesis using relative_path_joins_back by blast
qed

end
