(* ===== verification/Egress_Rules.thy ===== *)
theory Egress_Rules
  imports Vocabulary
begin

text \<open>
  The allow entries of a closed network (\<open>_protocol.py\<close>): the host grammar, the method tokens
  and \<open>EgressRule.__post_init__\<close>.  The regular expressions are transcribed as they stand and
  given a meaning; the predicates the model computes with are proved to be that meaning.
\<close>

subsection \<open>Regular expressions\<close>

datatype regex = Class string | Eps | Alt regex regex | Cat regex regex | Star regex

inductive accepts :: "regex \<Rightarrow> string \<Rightarrow> bool" where
  a_class: "c \<in> set cs \<Longrightarrow> accepts (Class cs) [c]"
| a_eps: "accepts Eps []"
| a_left: "accepts r s \<Longrightarrow> accepts (Alt r q) s"
| a_right: "accepts q s \<Longrightarrow> accepts (Alt r q) s"
| a_cat: "accepts r s \<Longrightarrow> accepts q t \<Longrightarrow> accepts (Cat r q) (s @ t)"
| a_nil: "accepts (Star r) []"
| a_step: "accepts r s \<Longrightarrow> accepts (Star r) t \<Longrightarrow> accepts (Star r) (s @ t)"

inductive_simps accepts_Class [simp]: "accepts (Class cs) s"
inductive_simps accepts_Eps [simp]: "accepts Eps s"
inductive_simps accepts_Alt [simp]: "accepts (Alt r q) s"
inductive_simps accepts_Cat: "accepts (Cat r q) s"
inductive_cases accepts_StarE: "accepts (Star r) s"

definition optional :: "regex \<Rightarrow> regex" where "optional r = Alt Eps r"

primrec up_to :: "nat \<Rightarrow> regex \<Rightarrow> regex" where
  "up_to 0 r = Eps"
| "up_to (Suc n) r = Alt Eps (Cat r (up_to n r))"

definition some_of :: "regex \<Rightarrow> regex" where "some_of r = Cat r (Star r)"

lemma accepts_optional [simp]: "accepts (optional r) s \<longleftrightarrow> s = [] \<or> accepts r s"
  by (simp add: optional_def)

lemma accepts_cat_class [simp]:
  "accepts (Cat (Class cs) q) s \<longleftrightarrow> (\<exists>c t. s = c # t \<and> c \<in> set cs \<and> accepts q t)"
proof
  show "accepts (Cat (Class cs) q) s \<Longrightarrow> \<exists>c t. s = c # t \<and> c \<in> set cs \<and> accepts q t"
    by (auto simp: accepts_Cat)
  show "\<exists>c t. s = c # t \<and> c \<in> set cs \<and> accepts q t \<Longrightarrow> accepts (Cat (Class cs) q) s"
    using a_cat [of "Class cs"] by fastforce
qed

lemma accepts_cat_eps [simp]: "accepts (Cat Eps q) s \<longleftrightarrow> accepts q s"
  by (simp add: accepts_Cat)

lemma accepts_cat_alt [simp]:
  "accepts (Cat (Alt p r) q) s \<longleftrightarrow> accepts (Cat p q) s \<or> accepts (Cat r q) s"
  by (auto simp: accepts_Cat)

lemma accepts_cat_optional [simp]:
  "accepts (Cat (optional r) q) s \<longleftrightarrow> accepts q s \<or> accepts (Cat r q) s"
  by (simp add: optional_def)

lemma accepts_cat_cat [simp]:
  "accepts (Cat (Cat p q) r) s \<longleftrightarrow> accepts (Cat p (Cat q r)) s"
proof
  assume "accepts (Cat (Cat p q) r) s"
  then obtain a b c where "s = (a @ b) @ c" "accepts p a" "accepts q b" "accepts r c"
    by (auto simp: accepts_Cat)
  then show "accepts (Cat p (Cat q r)) s" using a_cat [of p a "Cat q r"] a_cat [of q b r c] by simp
next
  assume "accepts (Cat p (Cat q r)) s"
  then obtain a b c where "s = a @ b @ c" "accepts p a" "accepts q b" "accepts r c"
    by (auto simp: accepts_Cat)
  then show "accepts (Cat (Cat p q) r) s" using a_cat [of "Cat p q" "a @ b" r c] a_cat [of p a q b] by simp
qed

lemma accepts_up_to: "accepts (up_to n (Class cs)) s \<longleftrightarrow> length s \<le> n \<and> set s \<subseteq> set cs"
proof (induction n arbitrary: s)
  case (Suc n)
  show ?case by (cases s) (auto simp: Suc.IH)
qed auto

lemma accepts_star_class: "accepts (Star (Class cs)) s \<longleftrightarrow> set s \<subseteq> set cs"
proof
  show "accepts (Star (Class cs)) s \<Longrightarrow> set s \<subseteq> set cs"
    by (induction "Star (Class cs)" s rule: accepts.induct) auto
  show "set s \<subseteq> set cs \<Longrightarrow> accepts (Star (Class cs)) s"
  proof (induction s)
    case Nil
    show ?case by (rule a_nil)
  next
    case (Cons c s)
    then have "accepts (Star (Class cs)) ([c] @ s)" by (intro a_step) auto
    then show ?case by simp
  qed
qed

lemma accepts_some_of: "accepts (some_of (Class cs)) s \<longleftrightarrow> s \<noteq> [] \<and> set s \<subseteq> set cs"
  by (cases s) (auto simp: some_of_def accepts_star_class)

subsection \<open>Host names\<close>

definition digit_chars :: string where "digit_chars = ''0123456789''"

definition alnum_chars :: string where
  "alnum_chars = ''ABCDEFGHIJKLMNOPQRSTUVWXYZabcdefghijklmnopqrstuvwxyz0123456789''"

definition hex_chars :: string where "hex_chars = ''0123456789ABCDEFabcdef''"

definition egress_label_re :: regex where
  "egress_label_re =
     Cat (Class alnum_chars)
       (optional (Cat (up_to 61 (Class (alnum_chars @ ''-''))) (Class alnum_chars)))"

definition egress_host_re :: regex where
  "egress_host_re =
     Cat (optional (Cat (Class ''*'') (Class ''.'')))
       (Cat egress_label_re (Star (Cat (Class ''.'') egress_label_re)))"

definition numeric_label_re :: regex where
  "numeric_label_re =
     Alt (some_of (Class digit_chars))
       (Cat (Class ''0'') (Cat (Class ''xX'') (Star (Class hex_chars))))"

definition http_token_re :: regex where
  "http_token_re = some_of (Class (''!#$%&'' @ [CHR 0x27] @ ''*+.^_'' @ [CHR 0x60] @ ''|~'' @ alnum_chars @ ''-''))"

definition egress_host_max :: nat where "egress_host_max = 253"

text \<open>The predicates the model evaluates.\<close>

definition label_ok :: "string \<Rightarrow> bool" where
  "label_ok l \<longleftrightarrow> l \<noteq> [] \<and> length l \<le> 63 \<and> hd l \<in> set alnum_chars \<and> last l \<in> set alnum_chars
     \<and> (\<forall>c \<in> set l. c \<in> set alnum_chars \<or> c = CHR ''-'')"

definition labels_of :: "string \<Rightarrow> string list" where
  "labels_of s = split_on CHR ''.'' (if prefix ''*.'' s then drop 2 s else s)"

definition host_shape :: "string \<Rightarrow> bool" where
  "host_shape s \<longleftrightarrow> list_all label_ok (labels_of s)"

definition numeric_label :: "string \<Rightarrow> bool" where
  "numeric_label l \<longleftrightarrow>
     (l \<noteq> [] \<and> (\<forall>c \<in> set l. c \<in> set digit_chars))
     \<or> (case l of z # x # rest \<Rightarrow> z = CHR ''0'' \<and> x \<in> set ''xX'' \<and> (\<forall>c \<in> set rest. c \<in> set hex_chars)
        | _ \<Rightarrow> False)"

definition http_token :: "string \<Rightarrow> bool" where
  "http_token s \<longleftrightarrow> s \<noteq> [] \<and>
     (\<forall>c \<in> set s. c \<in> set (''!#$%&'' @ [CHR 0x27] @ ''*+.^_'' @ [CHR 0x60] @ ''|~'' @ alnum_chars @ ''-''))"

lemma marks_not_alnum: "CHR ''.'' \<notin> set alnum_chars" "CHR ''*'' \<notin> set alnum_chars"
  by (simp_all add: alnum_chars_def)

lemma dot_not_label: "label_ok l \<Longrightarrow> CHR ''.'' \<notin> set l"
  using marks_not_alnum by (auto simp: label_ok_def)

lemma star_not_label: "label_ok l \<Longrightarrow> CHR ''*'' \<notin> set l"
  using marks_not_alnum by (auto simp: label_ok_def)

lemma label_split:
  "accepts egress_label_re l \<longleftrightarrow> (\<exists>c t. l = c # t \<and> c \<in> set alnum_chars
    \<and> (t = [] \<or> (\<exists>m e. t = m @ [e] \<and> length m \<le> 61 \<and> set m \<subseteq> set (alnum_chars @ ''-'')
          \<and> e \<in> set alnum_chars)))"
proof -
  have tail: "accepts (Cat (up_to n (Class cs)) (Class ds)) t \<longleftrightarrow>
      (\<exists>m e. t = m @ [e] \<and> length m \<le> n \<and> set m \<subseteq> set cs \<and> e \<in> set ds)" for n cs ds t
    by (subst accepts_Cat) (metis accepts_Class accepts_up_to)
  show ?thesis
    unfolding egress_label_re_def by (simp only: accepts_cat_class accepts_optional tail)
qed

lemma label_re: "accepts egress_label_re l \<longleftrightarrow> label_ok l"
proof
  assume "accepts egress_label_re l"
  then obtain c t where l: "l = c # t" "c \<in> set alnum_chars"
    and t: "t = [] \<or> (\<exists>m e. t = m @ [e] \<and> length m \<le> 61 \<and> set m \<subseteq> set (alnum_chars @ ''-'')
          \<and> e \<in> set alnum_chars)"
    by (auto simp only: label_split)
  from t show "label_ok l"
  proof (elim disjE exE conjE)
    fix m e
    assume "t = m @ [e]" "length m \<le> 61" "set m \<subseteq> set (alnum_chars @ ''-'')" "e \<in> set alnum_chars"
    then show ?thesis using l by (auto simp: label_ok_def)
  qed (simp add: l label_ok_def)
next
  assume l: "label_ok l"
  show "accepts egress_label_re l"
  proof (cases "tl l" rule: rev_cases)
    case Nil
    then have "l = [hd l]" using l by (cases l) (auto simp: label_ok_def)
    then show ?thesis
      using l unfolding label_split label_ok_def by blast
  next
    case (snoc m e)
    then have eq: "l = hd l # m @ [e]" using l by (cases l) (auto simp: label_ok_def)
    have "length m \<le> 61"
      using l arg_cong [OF eq, of length] by (simp add: label_ok_def)
    moreover have "set m \<subseteq> set (alnum_chars @ ''-'')"
    proof -
      have "set m \<subseteq> set l" by (subst eq) auto
      then show ?thesis using l by (auto simp: label_ok_def)
    qed
    moreover have "e \<in> set alnum_chars"
      using l arg_cong [OF eq, of last] by (simp add: label_ok_def)
    moreover have "hd l \<in> set alnum_chars" using l by (simp add: label_ok_def)
    ultimately show ?thesis unfolding label_split using eq by blast
  qed
qed

lemma dotted_re:
  "accepts (Star (Cat (Class ''.'') egress_label_re)) s \<longleftrightarrow>
   s = [] \<or> (\<exists>t. s = CHR ''.'' # t \<and> list_all label_ok (split_on CHR ''.'' t))"
proof
  show "accepts (Star (Cat (Class ''.'') egress_label_re)) s \<Longrightarrow>
    s = [] \<or> (\<exists>t. s = CHR ''.'' # t \<and> list_all label_ok (split_on CHR ''.'' t))"
  proof (induction "Star (Cat (Class ''.'') egress_label_re)" s rule: accepts.induct)
    case (a_step p q)
    then obtain l where l: "p = CHR ''.'' # l" "label_ok l" by (auto simp: label_re)
    then have "split_on CHR ''.'' l = [l]" by (simp add: split_on_free dot_not_label)
    then show ?case
      using a_step(3) l dot_not_label [OF l(2)] by (auto simp: split_on_append)
  qed simp
  have "list_all label_ok ls \<Longrightarrow> ls \<noteq> [] \<Longrightarrow>
      accepts (Star (Cat (Class ''.'') egress_label_re)) (CHR ''.'' # join_with CHR ''.'' ls)" for ls
  proof (induction ls)
    case (Cons l ls)
    have head: "accepts (Cat (Class ''.'') egress_label_re) (''.'' @ l)"
      using Cons.prems by (intro a_cat) (auto simp: label_re)
    show ?case
    proof (cases "ls = []")
      case True
      then show ?thesis using a_step [OF head a_nil] by simp
    next
      case False
      then show ?thesis
        using a_step [OF head Cons.IH] Cons.prems by (simp add: join_with_Cons)
    qed
  qed simp
  from this [of "split_on CHR ''.'' (tl s)"]
  show "s = [] \<or> (\<exists>t. s = CHR ''.'' # t \<and> list_all label_ok (split_on CHR ''.'' t)) \<Longrightarrow>
    accepts (Star (Cat (Class ''.'') egress_label_re)) s"
    by (auto intro: a_nil)
qed

lemma labels_re:
  "accepts (Cat egress_label_re (Star (Cat (Class ''.'') egress_label_re))) s \<longleftrightarrow>
   list_all label_ok (split_on CHR ''.'' s)"
proof
  assume "accepts (Cat egress_label_re (Star (Cat (Class ''.'') egress_label_re))) s"
  then obtain l t where "s = l @ t" "label_ok l"
    "t = [] \<or> (\<exists>u. t = CHR ''.'' # u \<and> list_all label_ok (split_on CHR ''.'' u))"
    by (auto simp: label_re dotted_re accepts_Cat)
  then show "list_all label_ok (split_on CHR ''.'' s)"
    using dot_not_label [of l] by (auto simp: split_on_free split_on_append)
next
  assume ok: "list_all label_ok (split_on CHR ''.'' s)"
  obtain l ls where ls: "split_on CHR ''.'' s = l # ls"
    using split_on_nonempty by (metis neq_Nil_conv)
  have s: "s = join_with CHR ''.'' (l # ls)" using ls by (metis join_split)
  have l: "label_ok l" "list_all label_ok ls" using ok ls by simp_all
  define t where "t = (if ls = [] then [] else CHR ''.'' # join_with CHR ''.'' ls)"
  have "s = l @ t" using s by (simp add: t_def join_with_Cons)
  moreover have "accepts (Star (Cat (Class ''.'') egress_label_re)) t"
    using l dot_not_label by (auto simp: dotted_re t_def split_join list_all_iff)
  ultimately show "accepts (Cat egress_label_re (Star (Cat (Class ''.'') egress_label_re))) s"
    using l by (auto simp: label_re intro: a_cat)
qed

lemma host_re: "accepts egress_host_re s \<longleftrightarrow> host_shape s"
proof -
  have star: "\<not> list_all label_ok (split_on CHR ''.'' (CHR ''*'' # t))" for t
  proof -
    have "\<exists>p ps. split_on CHR ''.'' (CHR ''*'' # t) = (CHR ''*'' # p) # ps"
      by (auto split: list.splits)
    then show ?thesis using star_not_label by fastforce
  qed
  have "accepts egress_host_re s \<longleftrightarrow> list_all label_ok (split_on CHR ''.'' s)
      \<or> (\<exists>t. s = ''*.'' @ t \<and> list_all label_ok (split_on CHR ''.'' t))"
    by (auto simp: egress_host_re_def labels_re)
  then show ?thesis
    using star by (auto simp: host_shape_def labels_of_def prefix_def)
qed

lemma numeric_re: "accepts numeric_label_re l \<longleftrightarrow> numeric_label l"
  by (auto simp: numeric_label_re_def numeric_label_def accepts_some_of accepts_star_class
      subset_eq split: list.splits)

lemma token_re: "accepts http_token_re s \<longleftrightarrow> http_token s"
  by (auto simp: http_token_re_def http_token_def accepts_some_of subset_eq)

subsection \<open>One allow entry\<close>

text \<open>A Python object handed where a string is expected.\<close>

datatype obj = Str string | Not_a_str

definition validated_egress_host :: "obj \<Rightarrow> string result" where
  "validated_egress_host entry =
     (case entry of
        Not_a_str \<Rightarrow> Inl TypeError
      | Str s \<Rightarrow>
          if s = ''*'' then Inl ValueError
          else if \<not> host_shape s then Inl ValueError
          else if length s > egress_host_max then Inl ValueError
          else if numeric_label (last (split_on CHR ''.'' s)) then Inl ValueError
          else Inr s)"

definition host_ok :: "string \<Rightarrow> bool" where
  "host_ok s \<longleftrightarrow> validated_egress_host (Str s) = Inr s"

lemma validated_host_eq: "validated_egress_host e = Inr s \<longleftrightarrow> e = Str s \<and> host_ok s"
  by (cases e) (auto simp: validated_egress_host_def host_ok_def split: if_splits)

text \<open>\<open>str.upper\<close> and \<open>str.lower\<close> on ASCII, which is all that reaches them here.\<close>

definition ascii_upper :: "char \<Rightarrow> char" where
  "ascii_upper c = (let n = of_char c :: nat in if 97 \<le> n \<and> n \<le> 122 then char_of (n - 32) else c)"

definition ascii_lower :: "char \<Rightarrow> char" where
  "ascii_lower c = (let n = of_char c :: nat in if 65 \<le> n \<and> n \<le> 90 then char_of (n + 32) else c)"

definition fold_host :: "string \<Rightarrow> string" where
  "fold_host h = map ascii_lower h"

subsection \<open>Methods\<close>

datatype http_method = GET | HEAD | POST | PUT | PATCH | DELETE | OPTIONS | TRACE | CONNECT

primrec http_method_value :: "http_method \<Rightarrow> string" where
  "http_method_value GET = ''GET''"
| "http_method_value HEAD = ''HEAD''"
| "http_method_value POST = ''POST''"
| "http_method_value PUT = ''PUT''"
| "http_method_value PATCH = ''PATCH''"
| "http_method_value DELETE = ''DELETE''"
| "http_method_value OPTIONS = ''OPTIONS''"
| "http_method_value TRACE = ''TRACE''"
| "http_method_value CONNECT = ''CONNECT''"

definition http_methods :: "http_method list" where
  "http_methods = [GET, HEAD, POST, PUT, PATCH, DELETE, OPTIONS, TRACE, CONNECT]"

interpretation http_method_enum: string_enum http_method_value http_methods
proof
  show "m \<in> set http_methods" for m by (cases m) (simp_all add: http_methods_def)
  show "http_method_value a = http_method_value b \<Longrightarrow> a = b" for a b by (cases a; cases b) simp_all
qed

text \<open>A validated method: a member where one exists, otherwise the token.\<close>

datatype egress_method = Verb http_method | Token string

primrec method_text :: "egress_method \<Rightarrow> string" where
  "method_text (Verb m) = http_method_value m"
| "method_text (Token s) = s"

definition validated_egress_method :: "obj \<Rightarrow> egress_method result" where
  "validated_egress_method method =
     (case method of
        Not_a_str \<Rightarrow> Inl ValueError
      | Str s \<Rightarrow>
          if \<not> http_token s then Inl ValueError
          else if s \<noteq> map ascii_upper s then Inl ValueError
          else (case enum_parse http_method_value http_methods s of
              Inr m \<Rightarrow> Inr (Verb m)
            | Inl _ \<Rightarrow> Inr (Token s)))"

lemma verbs_are_tokens: "http_token (http_method_value m) \<and> map ascii_upper (http_method_value m) = http_method_value m"
proof -
  have "list_all (\<lambda>m. http_token (http_method_value m)
      \<and> map ascii_upper (http_method_value m) = http_method_value m) http_methods"
    by code_simp
  then show ?thesis using http_method_enum.covered [of m] by (simp add: list_all_iff)
qed

lemma validated_method_text:
  "validated_egress_method e = Inr m \<Longrightarrow> e = Str (method_text m) \<and> http_token (method_text m)
    \<and> map ascii_upper (method_text m) = method_text m \<and> validated_egress_method (Str (method_text m)) = Inr m"
  by (cases e)
    (auto simp: validated_egress_method_def http_method_enum.parse_eq_Inr verbs_are_tokens
      http_method_enum.parse_value dest: http_method_enum.value_inj split: if_splits sum.splits)

lemma method_text_inj:
  "validated_egress_method a = Inr m \<Longrightarrow> validated_egress_method b = Inr n \<Longrightarrow>
   method_text m = method_text n \<Longrightarrow> m = n"
  using validated_method_text by (metis sum.inject(2))

subsection \<open>EgressRule\<close>

record egress_rule =
  rule_host :: string
  rule_methods :: "egress_method list option"
  rule_authority :: "string option"
  rule_paths :: "string list option"

text \<open>The constructor's arguments, before \<open>__post_init__\<close> has looked at them.\<close>

datatype tuple_arg = Omitted | Tuple "obj list" | Not_a_tuple

record rule_args =
  arg_host :: obj
  arg_methods :: tuple_arg
  arg_authority :: "obj option"
  arg_paths :: tuple_arg

definition is_space :: "char \<Rightarrow> bool" where
  "is_space c \<longleftrightarrow> (let n = of_char c :: nat in
     9 \<le> n \<and> n \<le> 13 \<or> 28 \<le> n \<and> n \<le> 32 \<or> n = 133 \<or> n = 160)"

definition has_whitespace_or_control :: "string \<Rightarrow> bool" where
  "has_whitespace_or_control v \<longleftrightarrow>
     (\<exists>c \<in> set v. is_space c \<or> of_char c < (32 :: nat)
        \<or> (127 \<le> (of_char c :: nat) \<and> of_char c \<le> (159 :: nat)))"

definition stars_allowed :: "string \<Rightarrow> nat" where
  "stars_allowed path = (if suffix ''/*'' path then 1 else 0)"

definition checked_egress_path :: "obj \<Rightarrow> string result" where
  "checked_egress_path path =
     (case path of
        Not_a_str \<Rightarrow> Inl ValueError
      | Str p \<Rightarrow>
          if \<not> prefix ''/'' p then Inl ValueError
          else if (\<exists>c \<in> set p. c \<in> set (''?#[]'' @ [CHR 0x5C]))
                  \<or> length (filter (\<lambda>c. c = CHR ''*'') p) > stars_allowed p
            then Inl ValueError
          else if (\<exists>seg \<in> set (split_on CHR ''/'' p). seg = ''.'' \<or> seg = ''..'')
            then Inl ValueError
          else if has_whitespace_or_control p then Inl ValueError
          else Inr p)"

definition checked_egress_paths :: "tuple_arg \<Rightarrow> string list option result" where
  "checked_egress_paths paths =
     (case paths of
        Omitted \<Rightarrow> Inr None
      | Not_a_tuple \<Rightarrow> Inl ValueError
      | Tuple ps \<Rightarrow>
          if ps = [] then Inl ValueError
          else bindE (mapE checked_egress_path ps) (\<lambda>texts.
            if distinct texts then Inr (Some texts) else Inl ValueError))"

definition checked_authority :: "string \<Rightarrow> obj option \<Rightarrow> string option result" where
  "checked_authority host authority =
     (case authority of
        None \<Rightarrow> Inr None
      | Some Not_a_str \<Rightarrow> Inl ValueError
      | Some (Str a) \<Rightarrow>
          if a = [] \<or> has_whitespace_or_control a then Inl ValueError
          else if prefix ''*.'' host then Inl ValueError
          else Inr (Some a))"

definition checked_methods :: "tuple_arg \<Rightarrow> egress_method list option result" where
  "checked_methods methods =
     (case methods of
        Omitted \<Rightarrow> Inr None
      | Not_a_tuple \<Rightarrow> Inl TypeError
      | Tuple ms \<Rightarrow>
          if ms = [] then Inl ValueError
          else bindE (mapE validated_egress_method ms) (\<lambda>tokens.
            if distinct tokens then Inr (Some tokens) else Inl ValueError))"

definition egress_rule_post_init :: "rule_args \<Rightarrow> egress_rule result" where
  "egress_rule_post_init a =
     bindE (validated_egress_host (arg_host a)) (\<lambda>host.
     bindE (checked_egress_paths (arg_paths a)) (\<lambda>paths.
     bindE (checked_authority host (arg_authority a)) (\<lambda>authority.
     bindE (checked_methods (arg_methods a)) (\<lambda>methods.
       Inr \<lparr>rule_host = host, rule_methods = methods, rule_authority = authority,
            rule_paths = paths\<rparr>))))"

text \<open>\<open>", ".join\<close> and \<open>EgressRule.__str__\<close>.\<close>

fun comma_join :: "string list \<Rightarrow> string" where
  "comma_join [] = []"
| "comma_join [x] = x"
| "comma_join (x # y # zs) = x @ '', '' @ comma_join (y # zs)"

definition egress_rule_str :: "egress_rule \<Rightarrow> string" where
  "egress_rule_str r =
     (if rule_methods r = None \<and> rule_paths r = None then rule_host r
      else rule_host r @ '' ('' @
        (case rule_methods r of
           None \<Rightarrow> comma_join (the (rule_paths r))
         | Some ms \<Rightarrow> comma_join (map method_text ms) @
             (case rule_paths r of None \<Rightarrow> [] | Some ps \<Rightarrow> ''; '' @ comma_join ps)) @ '')'')"

text \<open>A rule as an argument again, for a rule that is handed on.\<close>

definition tuple_of :: "string list option \<Rightarrow> tuple_arg" where
  "tuple_of xs = (case xs of None \<Rightarrow> Omitted | Some ys \<Rightarrow> Tuple (map Str ys))"

definition rule_as_args :: "egress_rule \<Rightarrow> rule_args" where
  "rule_as_args r =
     \<lparr>arg_host = Str (rule_host r),
      arg_methods = tuple_of (map_option (map method_text) (rule_methods r)),
      arg_authority = map_option Str (rule_authority r),
      arg_paths = tuple_of (rule_paths r)\<rparr>"

definition rule_ok :: "egress_rule \<Rightarrow> bool" where
  "rule_ok r \<longleftrightarrow> egress_rule_post_init (rule_as_args r) = Inr r"

lemma checked_path_text: "checked_egress_path e = Inr p \<Longrightarrow> e = Str p"
  by (cases e) (auto simp: checked_egress_path_def split: if_splits)

lemma mapE_texts:
  assumes "mapE f es = Inr ts" and "\<And>e t. f e = Inr t \<Longrightarrow> e = g t"
  shows "es = map g ts"
  using assms(1)
  by (induction es arbitrary: ts) (auto simp: bindE_eq_Inr dest: assms(2))

lemma checked_paths_again:
  "checked_egress_paths ps = Inr texts \<Longrightarrow> checked_egress_paths (tuple_of texts) = Inr texts"
proof (cases ps)
  case (Tuple os)
  assume "checked_egress_paths ps = Inr texts"
  then obtain ts where ts: "mapE checked_egress_path os = Inr ts" "distinct ts" "texts = Some ts" "os \<noteq> []"
    using Tuple by (auto simp: checked_egress_paths_def bindE_eq_Inr split: if_splits)
  then have "os = map Str ts" by (auto dest: mapE_texts checked_path_text)
  then show ?thesis using ts by (auto simp: checked_egress_paths_def tuple_of_def)
qed (auto simp: checked_egress_paths_def tuple_of_def)

lemma checked_authority_again:
  "checked_authority h a = Inr t \<Longrightarrow> checked_authority h (map_option Str t) = Inr t"
  by (auto simp: checked_authority_def split: option.splits obj.splits if_splits)

lemma checked_methods_again:
  assumes "checked_methods ms = Inr t"
  shows "checked_methods (tuple_of (map_option (map method_text) t)) = Inr t"
proof (cases ms)
  case (Tuple os)
  then obtain ts where ts: "mapE validated_egress_method os = Inr ts" "distinct ts" "t = Some ts" "os \<noteq> []"
    using assms by (auto simp: checked_methods_def bindE_eq_Inr split: if_splits)
  then have "os = map (\<lambda>m. Str (method_text m)) ts"
    by (auto intro!: mapE_texts dest: validated_method_text)
  then show ?thesis using ts by (auto simp: checked_methods_def tuple_of_def o_def)
qed (use assms in \<open>auto simp: checked_methods_def tuple_of_def\<close>)

text \<open>Building a rule again from its own fields gives the same rule.\<close>

lemma post_init_rule_ok: "egress_rule_post_init a = Inr r \<Longrightarrow> rule_ok r"
  by (auto simp: rule_ok_def egress_rule_post_init_def rule_as_args_def bindE_eq_Inr
      validated_host_eq checked_paths_again checked_authority_again checked_methods_again)

lemma post_init_host: "egress_rule_post_init a = Inr r \<Longrightarrow> host_ok (rule_host r)"
  by (auto simp: egress_rule_post_init_def bindE_eq_Inr validated_host_eq)


end
