(* ===== verification/Sandbox_Spec.thy ===== *)
theory Sandbox_Spec
  imports Complex_Main Egress_Rules
begin

text \<open>
  What a workload asks for: the identity declarations, the program requirements, the host-tool
  surface and \<open>SandboxSpec\<close> with its \<open>__post_init__\<close> (\<open>_protocol.py\<close>).  Arguments the code
  coerces or type-checks are modelled before the check; the others have their declared type.
\<close>

subsection \<open>Attached and configured identities\<close>

text \<open>A value the code tests with \<open>type(value) is int\<close>.\<close>

datatype seconds_arg = No_seconds | Seconds int | Odd_seconds

definition positive_identity_seconds :: "seconds_arg \<Rightarrow> int result" where
  "positive_identity_seconds v =
     (case v of Seconds n \<Rightarrow> if n \<le> 0 then Inl ValueError else Inr n | _ \<Rightarrow> Inl ValueError)"

record attached_identity =
  att_scope :: identity_scope
  auto_delete_seconds :: "int option"
  att_channels :: "authority_channel set"

datatype channels_arg = Channels "string list" | Not_a_set

record attached_args =
  arg_att_scope :: string
  arg_auto_delete :: seconds_arg
  arg_channels :: channels_arg

definition authority_channel_parse :: "string \<Rightarrow> authority_channel result" where
  "authority_channel_parse = enum_parse (\<lambda>_. ''egress_header'') [EGRESS_HEADER]"

definition attached_identity_post_init :: "attached_args \<Rightarrow> attached_identity result" where
  "attached_identity_post_init a =
     bindE (enum_parse identity_scope_value identity_scope_members (arg_att_scope a)) (\<lambda>scope.
     case arg_channels a of
       Not_a_set \<Rightarrow> Inl TypeError
     | Channels names \<Rightarrow>
         bindE (mapE authority_channel_parse names) (\<lambda>channels.
           if scope = NO_IDENTITY
             then (if arg_auto_delete a \<noteq> No_seconds \<or> channels \<noteq> [] then Inl ValueError
                   else Inr \<lparr>att_scope = scope, auto_delete_seconds = None, att_channels = {}\<rparr>)
           else bindE (positive_identity_seconds (arg_auto_delete a)) (\<lambda>n.
             if channels = [] then Inl ValueError
             else Inr \<lparr>att_scope = scope, auto_delete_seconds = Some n,
                       att_channels = set channels\<rparr>)))"

definition no_attached_identity :: attached_identity where
  "no_attached_identity = \<lparr>att_scope = NO_IDENTITY, auto_delete_seconds = None, att_channels = {}\<rparr>"

record configured_identity =
  conf_scope :: identity_scope
  guest_token_endpoint :: bool

datatype bool_arg = Bool bool | Not_a_bool

definition configured_identity_post_init :: "string \<Rightarrow> bool_arg \<Rightarrow> configured_identity result" where
  "configured_identity_post_init scope endpoint =
     bindE (enum_parse identity_scope_value identity_scope_members scope) (\<lambda>s.
     case endpoint of
       Not_a_bool \<Rightarrow> Inl TypeError
     | Bool b \<Rightarrow> if s = NO_IDENTITY \<and> b then Inl ValueError
                else Inr \<lparr>conf_scope = s, guest_token_endpoint = b\<rparr>)"

subsection \<open>Programs and host tools\<close>

text \<open>A value the code tests for being an \<open>int\<close> or a \<open>float\<close>, and for being finite.\<close>

datatype number_arg = Finite rat | Infinite_or_nan | Not_a_number

record program_requirements =
  profile :: string
  max_program_bytes :: int
  host_tool_timeout_seconds :: rat

definition program_requirements_post_init ::
  "obj \<Rightarrow> seconds_arg \<Rightarrow> number_arg \<Rightarrow> program_requirements result" where
  "program_requirements_post_init prof bytes seconds =
     (case (prof, bytes) of
        (Str p, Seconds n) \<Rightarrow>
          if p = [] \<or> n \<le> 0 then Inl ValueError
          else (case seconds of
              Finite q \<Rightarrow> if q \<le> 0 then Inl ValueError
                else Inr \<lparr>profile = p, max_program_bytes = n, host_tool_timeout_seconds = q\<rparr>
            | _ \<Rightarrow> Inl ValueError)
      | _ \<Rightarrow> Inl ValueError)"

record host_tool_aggregate =
  result_integrity :: "source_integrity option"
  outbound_caps :: "string set"
  agg_identities :: "identity set"
  requires_approval :: bool
  has_undeclared :: bool
  response_limits :: transfer_limits
  max_host_tool_calls_per_run :: int
  tool_names :: "string set"

text \<open>\<open>HostToolCallResult\<close>: exactly one of a value and a refusal.\<close>

record host_tool_call_result =
  value_json :: "string option"
  refusal_text :: "string option"

definition host_tool_call_result_post_init ::
  "string option \<Rightarrow> string option \<Rightarrow> host_tool_call_result result" where
  "host_tool_call_result_post_init v r =
     (if (v = None) = (r = None) then Inl ValueError
      else Inr \<lparr>value_json = v, refusal_text = r\<rparr>)"

definition call_result_ok :: "host_tool_call_result \<Rightarrow> bool" where
  "call_result_ok c \<longleftrightarrow> refusal_text c = None"

datatype disposition = LAND | CONSUME

record declared_output =
  out_path :: string
  out_disposition :: disposition
  out_media_type :: "string option"
  out_required :: bool
  out_name :: "string option"

subsection \<open>SandboxSpec\<close>

text \<open>An element of \<open>egress_allow\<close> as handed in, and the argument itself.\<close>

datatype raw_entry = Raw_host string | Raw_rule egress_rule | Raw_other
datatype allow_arg = One_string string | Not_iterable | Entries "raw_entry list"

text \<open>An element of \<open>egress_allow\<close> once it is validated.\<close>

datatype allow_entry = Host string | Rule egress_rule

record spec_fields =
  spec_kind :: string
  image :: "string option"
  image_id :: "string option"
  work_dir :: "string option"
  labels :: "(string \<times> string) list"
  requires :: "capability set"
  min_isolation :: "isolation option"
  declared_outputs :: "declared_output list"
  files_in :: transfer_limits
  files_out :: transfer_limits
  outputs_named_at_call_time :: bool
  requires_os_family :: "os_family option"
  host_tools :: "host_tool_aggregate option"
  confined_to_guest_call_path :: bool
  exclusive_admission :: bool
  program :: "program_requirements option"

text \<open>The arguments the constructor looks at, beside the fields it stores as they are.\<close>

record spec_args = spec_fields +
  arg_egress_allow :: allow_arg
  arg_egress :: string
  arg_isolation_scope :: string
  arg_min_cleanup :: "string option"
  arg_max_identity_scope :: "string option"
  arg_max_identity_retention :: seconds_arg
  arg_execution_contract :: "obj option"

record sandbox_spec = spec_fields +
  egress_allow :: "allow_entry list"
  egress :: egress
  isolation_scope :: isolation_scope
  min_cleanup :: "cleanup option"
  max_identity_scope :: "identity_scope option"
  max_identity_retention :: seconds_arg
  execution_contract :: "string option"

definition contract_post_init :: "obj option \<Rightarrow> string option result" where
  "contract_post_init c =
     (case c of
        None \<Rightarrow> Inr None
      | Some Not_a_str \<Rightarrow> Inl ValueError
      | Some (Str s) \<Rightarrow> if list_all is_space s then Inl ValueError else Inr (Some s))"

definition parse_opt :: "('a \<Rightarrow> string) \<Rightarrow> 'a list \<Rightarrow> string option \<Rightarrow> 'a option result" where
  "parse_opt val_of members s =
     (case s of None \<Rightarrow> Inr None | Some x \<Rightarrow> bindE (enum_parse val_of members x) (\<lambda>m. Inr (Some m)))"

subsection \<open>The allow list\<close>

fun entry_host :: "allow_entry \<Rightarrow> string" where
  "entry_host (Host h) = h"
| "entry_host (Rule r) = rule_host r"

type_synonym policy = "egress_method set option \<times> string option \<times> string set option"

fun entry_policy :: "allow_entry \<Rightarrow> policy" where
  "entry_policy (Host h) = (None, None, None)"
| "entry_policy (Rule r) =
     (map_option set (rule_methods r), rule_authority r,
      case rule_paths r of None \<Rightarrow> None | Some ps \<Rightarrow> if ps = [] then None else Some (set ps))"

text \<open>A rule that names nothing but its host is that host; a host is validated.\<close>

definition normal_entry :: "raw_entry \<Rightarrow> allow_entry result" where
  "normal_entry e =
     (case e of
        Raw_rule r \<Rightarrow>
          if rule_methods r = None \<and> rule_authority r = None \<and> rule_paths r = None
          then bindE (validated_egress_host (Str (rule_host r))) (\<lambda>h. Inr (Host h))
          else Inr (Rule r)
      | Raw_host s \<Rightarrow> bindE (validated_egress_host (Str s)) (\<lambda>h. Inr (Host h))
      | Raw_other \<Rightarrow> bindE (validated_egress_host Not_a_str) (\<lambda>h. Inr (Host h)))"

text \<open>One turn of the loop: \<open>entries\<close> is the dictionary from folded host to entry, in order.\<close>

definition add_entry :: "(string \<times> allow_entry) list \<Rightarrow> raw_entry \<Rightarrow> (string \<times> allow_entry) list result" where
  "add_entry entries raw =
     bindE (normal_entry raw) (\<lambda>entry.
       let folded = fold_host (entry_host entry) in
       case map_of entries folded of
         Some old \<Rightarrow> if entry_policy old \<noteq> entry_policy entry then Inl ValueError else Inr entries
       | None \<Rightarrow> Inr (entries @ [(folded, entry)]))"

fun add_entries :: "(string \<times> allow_entry) list \<Rightarrow> raw_entry list \<Rightarrow> (string \<times> allow_entry) list result" where
  "add_entries entries [] = Inr entries"
| "add_entries entries (raw # raws) = bindE (add_entry entries raw) (\<lambda>es. add_entries es raws)"

definition allow_list :: "allow_arg \<Rightarrow> raw_entry list result" where
  "allow_list a =
     (case a of One_string _ \<Rightarrow> Inl TypeError | Not_iterable \<Rightarrow> Inl TypeError | Entries es \<Rightarrow> Inr es)"

definition has_authority :: "allow_entry list \<Rightarrow> bool" where
  "has_authority entries \<longleftrightarrow>
     (\<exists>e \<in> set entries. case e of Rule r \<Rightarrow> rule_authority r \<noteq> None | Host _ \<Rightarrow> False)"

definition check_identity_bounds ::
  "capability set \<Rightarrow> allow_entry list \<Rightarrow> identity_scope option \<Rightarrow> seconds_arg \<Rightarrow> unit result" where
  "check_identity_bounds req entries scope retention =
     (if ATTACHED_IDENTITY \<in> req
      then (if scope \<in> {None, Some NO_IDENTITY} then Inl ValueError
            else bindE (positive_identity_seconds retention) (\<lambda>_. Inr ()))
      else if has_authority entries \<or> retention \<noteq> No_seconds \<or> scope \<notin> {None, Some NO_IDENTITY}
        then Inl ValueError
      else Inr ())"

definition spec_post_init :: "spec_args \<Rightarrow> sandbox_spec result" where
  "spec_post_init a =
     bindE (contract_post_init (arg_execution_contract a)) (\<lambda>contract.
     bindE (enum_parse egress_value egress_members (arg_egress a)) (\<lambda>mode.
     bindE (enum_parse isolation_scope_value isolation_scope_ladder (arg_isolation_scope a)) (\<lambda>scope.
     bindE (parse_opt cleanup_value cleanup_ladder (arg_min_cleanup a)) (\<lambda>rung.
     bindE (allow_list (arg_egress_allow a)) (\<lambda>raws.
     bindE (raiseIf (mode = ALLOWLIST \<and> raws = []) ValueError) (\<lambda>_.
     bindE (raiseIf (raws \<noteq> [] \<and> mode \<noteq> ALLOWLIST) ValueError) (\<lambda>_.
     bindE (add_entries [] raws) (\<lambda>entries.
     bindE (parse_opt identity_scope_value identity_scope_members (arg_max_identity_scope a)) (\<lambda>id_scope.
     bindE (check_identity_bounds (requires a) (map snd entries) id_scope
              (arg_max_identity_retention a)) (\<lambda>_.
     bindE (raiseIf (RECLAIM \<in> requires a) ValueError) (\<lambda>_.
     bindE (raiseIf (host_tools a \<noteq> None \<and> HOST_TOOLS \<notin> requires a) ValueError) (\<lambda>_.
       Inr (spec_fields.extend (spec_fields.truncate a)
         \<lparr>egress_allow = map snd entries, egress = mode, isolation_scope = scope,
          min_cleanup = rung, max_identity_scope = id_scope,
          max_identity_retention = arg_max_identity_retention a,
          execution_contract = contract\<rparr>)))))))))))))"

subsection \<open>What a spec requires\<close>

definition required_capabilities :: "sandbox_spec \<Rightarrow> capability set" where
  "required_capabilities s =
     requires s
     \<union> (if \<exists>e \<in> set (egress_allow s). case e of Rule r \<Rightarrow> rule_methods r \<noteq> None | Host _ \<Rightarrow> False
        then {EGRESS_METHODS} else {})
     \<union> (if \<exists>e \<in> set (egress_allow s). case e of Rule r \<Rightarrow> rule_paths r \<noteq> None | Host _ \<Rightarrow> False
        then {EGRESS_PATHS} else {})"

definition authority_channels :: "sandbox_spec \<Rightarrow> authority_channel set" where
  "authority_channels s = (if has_authority (egress_allow s) then {EGRESS_HEADER} else {})"

definition identities :: "sandbox_spec \<Rightarrow> identity set" where
  "identities s = (case host_tools s of None \<Rightarrow> {} | Some h \<Rightarrow> agg_identities h)"

subsection \<open>The constructor runs again on its own result\<close>

fun raw_of :: "allow_entry \<Rightarrow> raw_entry" where
  "raw_of (Host h) = Raw_host h"
| "raw_of (Rule r) = Raw_rule r"

text \<open>\<open>dataclasses.replace\<close> hands every field back to the constructor.\<close>

definition spec_as_args :: "sandbox_spec \<Rightarrow> spec_args" where
  "spec_as_args s =
     spec_fields.extend (spec_fields.truncate s)
       \<lparr>arg_egress_allow = Entries (map raw_of (egress_allow s)),
        arg_egress = egress_value (egress s),
        arg_isolation_scope = isolation_scope_value (isolation_scope s),
        arg_min_cleanup = map_option cleanup_value (min_cleanup s),
        arg_max_identity_scope = map_option identity_scope_value (max_identity_scope s),
        arg_max_identity_retention = max_identity_retention s,
        arg_execution_contract = map_option Str (execution_contract s)\<rparr>"

subsection \<open>The loop over the entries\<close>

text \<open>The dictionary: every key is its entry's folded host, and no key occurs twice.\<close>

definition entries_ok :: "(string \<times> allow_entry) list \<Rightarrow> bool" where
  "entries_ok es \<longleftrightarrow> distinct (map fst es) \<and> (\<forall>(k, e) \<in> set es. k = fold_host (entry_host e))"

lemma add_entry_inv:
  assumes "add_entry es raw = Inr es'"
  obtains e where "normal_entry raw = Inr e"
    and "es' = es \<and> map_of es (fold_host (entry_host e)) \<noteq> None
      \<or> es' = es @ [(fold_host (entry_host e), e)] \<and> fold_host (entry_host e) \<notin> fst ` set es"
proof -
  obtain e where e: "normal_entry raw = Inr e"
    using assms by (auto simp: add_entry_def bindE_eq_Inr)
  show thesis
  proof (cases "map_of es (fold_host (entry_host e))")
    case None
    then have "es' = es @ [(fold_host (entry_host e), e)]"
      using assms e by (simp add: add_entry_def Let_def)
    then show thesis using that [OF e] None by (simp add: map_of_eq_None_iff)
  next
    case (Some old)
    then show thesis
      using that [OF e] assms e by (simp add: add_entry_def Let_def split: if_splits)
  qed
qed

lemma add_entry_ok: "entries_ok es \<Longrightarrow> add_entry es raw = Inr es' \<Longrightarrow> entries_ok es'"
  by (erule add_entry_inv) (auto simp: entries_ok_def)

lemma add_entries_ok: "entries_ok es \<Longrightarrow> add_entries es raws = Inr es' \<Longrightarrow> entries_ok es'"
  by (induction raws arbitrary: es) (auto simp: bindE_eq_Inr dest: add_entry_ok)

lemma add_entry_keeps: "add_entry es raw = Inr es' \<Longrightarrow> set es \<subseteq> set es'"
  by (auto simp: add_entry_def bindE_eq_Inr Let_def split: option.splits if_splits)

lemma add_entries_keeps: "add_entries es raws = Inr es' \<Longrightarrow> set es \<subseteq> set es'"
  by (induction raws arbitrary: es) (auto simp: bindE_eq_Inr dest!: add_entry_keeps)

text \<open>Every raw entry is represented, and every entry comes from one.\<close>

definition same_rule :: "allow_entry \<Rightarrow> allow_entry \<Rightarrow> bool" where
  "same_rule e f \<longleftrightarrow>
     fold_host (entry_host e) = fold_host (entry_host f) \<and> entry_policy e = entry_policy f"

lemma add_entry_covers:
  assumes "entries_ok es" and "add_entry es raw = Inr es'"
  shows "\<exists>e f. normal_entry raw = Inr e \<and> f \<in> snd ` set es' \<and> same_rule e f"
proof -
  obtain e where e: "normal_entry raw = Inr e"
    using assms(2) by (auto simp: add_entry_def bindE_eq_Inr)
  show ?thesis
  proof (cases "map_of es (fold_host (entry_host e))")
    case None
    then have "(fold_host (entry_host e), e) \<in> set es'"
      using assms(2) e by (auto simp: add_entry_def Let_def)
    then show ?thesis using e by (force simp: same_rule_def)
  next
    case (Some old)
    then have mem: "(fold_host (entry_host e), old) \<in> set es" by (rule map_of_SomeD)
    then have "fold_host (entry_host e) = fold_host (entry_host old)"
      using assms(1) by (auto simp: entries_ok_def)
    moreover have "entry_policy old = entry_policy e \<and> es' = es"
      using assms(2) e Some by (auto simp: add_entry_def Let_def split: if_splits)
    ultimately show ?thesis using e mem by (force simp: same_rule_def)
  qed
qed

lemma add_entries_covers:
  "entries_ok es \<Longrightarrow> add_entries es raws = Inr es' \<Longrightarrow> raw \<in> set raws \<Longrightarrow>
   \<exists>e f. normal_entry raw = Inr e \<and> f \<in> snd ` set es' \<and> same_rule e f"
proof (induction raws arbitrary: es)
  case (Cons r raws)
  obtain es1 where es1: "add_entry es r = Inr es1" "add_entries es1 raws = Inr es'"
    using Cons.prems by (auto simp: bindE_eq_Inr)
  show ?case
  proof (cases "raw = r")
    case True
    have "snd ` set es1 \<subseteq> snd ` set es'" using add_entries_keeps [OF es1(2)] by blast
    then show ?thesis using add_entry_covers [OF Cons.prems(1) es1(1)] True by blast
  next
    case False
    then show ?thesis
      using Cons.IH [OF add_entry_ok [OF Cons.prems(1) es1(1)] es1(2)] Cons.prems by auto
  qed
qed simp

lemma add_entry_origin:
  "add_entry es raw = Inr es' \<Longrightarrow> x \<in> set es' \<Longrightarrow> x \<in> set es \<or> normal_entry raw = Inr (snd x)"
  by (auto simp: add_entry_def bindE_eq_Inr Let_def split: option.splits if_splits)

lemma add_entries_origin:
  "add_entries es raws = Inr es' \<Longrightarrow> x \<in> set es' \<Longrightarrow>
   x \<in> set es \<or> (\<exists>raw \<in> set raws. normal_entry raw = Inr (snd x))"
  by (induction raws arbitrary: es) (auto simp: bindE_eq_Inr dest: add_entry_origin)

lemma normal_entry_again: "normal_entry raw = Inr e \<Longrightarrow> normal_entry (raw_of e) = Inr e"
  by (cases raw)
    (auto simp: normal_entry_def bindE_eq_Inr validated_host_eq split: if_splits)

text \<open>Adding distinct normal entries appends them as they are.\<close>

lemma add_entries_normal:
  assumes "\<forall>e \<in> set es. normal_entry (raw_of e) = Inr e"
    and "distinct (map fst done @ map (fold_host \<circ> entry_host) es)"
  shows "add_entries done (map raw_of es) = Inr (done @ map (\<lambda>e. (fold_host (entry_host e), e)) es)"
  using assms
proof (induction es arbitrary: "done")
  case (Cons e es)
  have "map_of done (fold_host (entry_host e)) = None"
    using Cons.prems(2) by (auto simp: map_of_eq_None_iff)
  then have "add_entry done (raw_of e) = Inr (done @ [(fold_host (entry_host e), e)])"
    using Cons.prems(1) by (simp add: add_entry_def Let_def)
  then show ?case using Cons.IH [of "done @ [(fold_host (entry_host e), e)]"] Cons.prems by simp
qed simp

lemma entries_of_keys:
  "entries_ok es \<Longrightarrow> map (\<lambda>e. (fold_host (entry_host e), e)) (map snd es) = es"
  by (auto simp: entries_ok_def intro!: map_idI)

lemma entries_keys: "entries_ok es \<Longrightarrow> map (fold_host \<circ> entry_host) (map snd es) = map fst es"
  by (auto simp: entries_ok_def)


subsection \<open>What a constructed spec guarantees\<close>

lemma fields_simps [simp]:
  "requires (spec_fields.extend (spec_fields.truncate a) x) = requires a"
  "host_tools (spec_fields.extend (spec_fields.truncate a) x) = host_tools a"
  "spec_fields.truncate (spec_fields.extend (spec_fields.truncate a) x) = spec_fields.truncate a"
  by (simp_all add: spec_fields.defs)

lemma spec_post_init_inv:
  assumes "spec_post_init a = Inr s"
  obtains raws entries where
    "arg_egress_allow a = Entries raws" and "add_entries [] raws = Inr entries"
    and "egress_allow s = map snd entries" and "raws \<noteq> [] \<longleftrightarrow> egress s = ALLOWLIST"
    and "contract_post_init (arg_execution_contract a) = Inr (execution_contract s)"
    and "check_identity_bounds (requires s) (egress_allow s) (max_identity_scope s)
          (max_identity_retention s) = Inr ()"
    and "RECLAIM \<notin> requires s" and "host_tools s \<noteq> None \<longrightarrow> HOST_TOOLS \<in> requires s"
    and "spec_fields.truncate s = spec_fields.truncate a"
  using assms
  by (auto simp: spec_post_init_def bindE_eq_Inr allow_list_def spec_fields.defs split: allow_arg.splits)

lemma contract_again:
  "contract_post_init c = Inr t \<Longrightarrow> contract_post_init (map_option Str t) = Inr t"
  by (auto simp: contract_post_init_def split: option.splits obj.splits if_splits)

lemma parse_opt_again:
  assumes "string_enum val_of members"
  shows "parse_opt val_of members (map_option val_of m) = Inr m"
  using string_enum.parse_value [OF assms] by (simp add: parse_opt_def split: option.splits)

lemma positive_seconds_iff: "(\<exists>n. positive_identity_seconds v = Inr n) \<longleftrightarrow> (\<exists>n > 0. v = Seconds n)"
  by (auto simp: positive_identity_seconds_def split: seconds_arg.splits)

lemma allow_list_keys:
  assumes "spec_post_init a = Inr s"
  shows "egress s = ALLOWLIST \<longleftrightarrow> egress_allow s \<noteq> []"
    and "distinct (map (fold_host \<circ> entry_host) (egress_allow s))"
proof -
  from assms obtain raws entries where adds: "add_entries [] raws = Inr entries"
    and allow: "egress_allow s = map snd entries" and mode: "raws \<noteq> [] \<longleftrightarrow> egress s = ALLOWLIST"
    by (rule spec_post_init_inv)
  have ok: "entries_ok entries" using adds by (rule add_entries_ok [rotated]) (simp add: entries_ok_def)
  have "raws = [] \<Longrightarrow> entries = []" using adds by simp
  moreover have "raws \<noteq> [] \<Longrightarrow> entries \<noteq> []"
    using add_entries_covers [OF _ adds] by (fastforce simp: entries_ok_def neq_Nil_conv)
  ultimately show "egress s = ALLOWLIST \<longleftrightarrow> egress_allow s \<noteq> []" using mode allow by auto
  show "distinct (map (fold_host \<circ> entry_host) (egress_allow s))"
    unfolding allow entries_keys [OF ok] using ok by (simp add: entries_ok_def)
qed

text \<open>
  A spec's allow list is canonical.  It is nonempty exactly in allowlist mode, no two entries
  name the same host whatever their case, every plain entry is a host the grammar admits, and a
  rule that narrows nothing has become its host.
\<close>

theorem allow_list_canonical:
  assumes "spec_post_init a = Inr s"
  shows "(egress s = ALLOWLIST \<longleftrightarrow> egress_allow s \<noteq> [])
    \<and> distinct (map (fold_host \<circ> entry_host) (egress_allow s))
    \<and> (\<forall>h. Host h \<in> set (egress_allow s) \<longrightarrow> host_ok h)
    \<and> (\<forall>r. Rule r \<in> set (egress_allow s) \<longrightarrow>
          rule_methods r \<noteq> None \<or> rule_authority r \<noteq> None \<or> rule_paths r \<noteq> None)"
proof -
  from assms obtain raws entries where adds: "add_entries [] raws = Inr entries"
    and allow: "egress_allow s = map snd entries"
    by (rule spec_post_init_inv)
  note allow_list_keys [OF assms]
  moreover have "\<exists>raw. normal_entry raw = Inr e" if "e \<in> set (egress_allow s)" for e
    using that add_entries_origin [OF adds] by (force simp: allow)
  ultimately show ?thesis
    by (fastforce simp: normal_entry_def bindE_eq_Inr validated_host_eq split: raw_entry.splits if_splits)
qed

text \<open>
  No rule is lost and none appears.  Every entry handed in is in the spec's list under its
  folded host with its own methods, authority and paths, and every entry of the list was
  handed in; so a host written twice keeps one policy, the one both spellings agree on.
\<close>

theorem allow_list_faithful:
  assumes "spec_post_init a = Inr s" and "arg_egress_allow a = Entries raws"
  shows "(\<forall>raw \<in> set raws. \<exists>e f. normal_entry raw = Inr e \<and> f \<in> set (egress_allow s) \<and> same_rule e f)
    \<and> (\<forall>f \<in> set (egress_allow s). \<exists>raw \<in> set raws. normal_entry raw = Inr f)"
proof -
  from assms(1) obtain raws' entries where "arg_egress_allow a = Entries raws'"
    and adds: "add_entries [] raws' = Inr entries" and allow: "egress_allow s = map snd entries"
    by (rule spec_post_init_inv)
  then have "add_entries [] raws = Inr entries" using assms(2) by simp
  then show ?thesis
    using add_entries_covers [of "[]" raws entries] add_entries_origin [of "[]" raws entries]
    by (fastforce simp: entries_ok_def allow)
qed

text \<open>
  Authority is bounded before it is asked for.  A constructed spec that requires an attached
  identity names a sharing ceiling that is not \<open>NONE\<close> and a positive retention; one that does
  not names neither, and no rule of it carries an authority.
\<close>

theorem identity_bounds_hold:
  assumes "spec_post_init a = Inr s"
  shows "if ATTACHED_IDENTITY \<in> requires s
    then max_identity_scope s \<notin> {None, Some NO_IDENTITY}
      \<and> (\<exists>n > 0. max_identity_retention s = Seconds n)
    else max_identity_scope s \<in> {None, Some NO_IDENTITY}
      \<and> max_identity_retention s = No_seconds \<and> authority_channels s = {}"
proof -
  from assms obtain raws entries where
    "check_identity_bounds (requires s) (egress_allow s) (max_identity_scope s)
      (max_identity_retention s) = Inr ()"
    by (rule spec_post_init_inv)
  then show ?thesis
    using positive_seconds_iff [of "max_identity_retention s"]
    by (auto simp: check_identity_bounds_def authority_channels_def bindE_eq_Inr split: if_splits)
qed

text \<open>
  What the router matches is what the workload asked for.  A constructed spec never asks for
  \<open>RECLAIM\<close>, not even through its rules, asks for \<open>HOST_TOOLS\<close> wherever it carries a callable
  surface, and so exercises an identity only where \<open>HOST_TOOLS\<close> can be denied.
\<close>

theorem required_capabilities_honest:
  assumes "spec_post_init a = Inr s"
  shows "requires s \<subseteq> required_capabilities s \<and> RECLAIM \<notin> required_capabilities s
    \<and> (host_tools s \<noteq> None \<longrightarrow> HOST_TOOLS \<in> required_capabilities s)
    \<and> (identities s \<noteq> {} \<longrightarrow> HOST_TOOLS \<in> required_capabilities s)"
proof -
  from assms have "RECLAIM \<notin> requires s" and "host_tools s \<noteq> None \<longrightarrow> HOST_TOOLS \<in> requires s"
    by (auto elim: spec_post_init_inv)
  then show ?thesis
    by (auto simp: required_capabilities_def identities_def split: option.splits)
qed

text \<open>
  Constructing a spec again from its own fields gives the same spec, so a caller that uses
  \<open>dataclasses.replace\<close> on an unrelated field changes nothing else.
\<close>

theorem spec_reconstructs:
  assumes "spec_post_init a = Inr s"
  shows "spec_post_init (spec_as_args s) = Inr s"
proof -
  from assms obtain raws entries where
    adds: "add_entries [] raws = Inr entries" and allow: "egress_allow s = map snd entries"
    and mode: "raws \<noteq> [] \<longleftrightarrow> egress s = ALLOWLIST"
    and contract: "contract_post_init (arg_execution_contract a) = Inr (execution_contract s)"
    and bounds: "check_identity_bounds (requires s) (egress_allow s) (max_identity_scope s)
          (max_identity_retention s) = Inr ()"
    and rest: "RECLAIM \<notin> requires s" "host_tools s \<noteq> None \<longrightarrow> HOST_TOOLS \<in> requires s"
    by (rule spec_post_init_inv)
  have ok: "entries_ok entries" using adds by (rule add_entries_ok [rotated]) (simp add: entries_ok_def)
  note ne = allow_list_keys(1) [OF assms]
  have "\<forall>e \<in> set (egress_allow s). normal_entry (raw_of e) = Inr e"
    using add_entries_origin [OF adds] normal_entry_again by (force simp: allow)
  then have "add_entries [] (map raw_of (egress_allow s)) =
      Inr (map (\<lambda>e. (fold_host (entry_host e), e)) (egress_allow s))"
    using add_entries_normal [of "egress_allow s" "[]"] allow_list_keys(2) [OF assms] by simp
  then have again: "add_entries [] (map raw_of (egress_allow s)) = Inr entries"
    using entries_of_keys [OF ok] by (simp only: allow)
  have args: "requires (spec_as_args s) = requires s" "host_tools (spec_as_args s) = host_tools s"
    "arg_execution_contract (spec_as_args s) = map_option Str (execution_contract s)"
    "arg_egress (spec_as_args s) = egress_value (egress s)"
    "arg_isolation_scope (spec_as_args s) = isolation_scope_value (isolation_scope s)"
    "arg_min_cleanup (spec_as_args s) = map_option cleanup_value (min_cleanup s)"
    "arg_max_identity_scope (spec_as_args s) = map_option identity_scope_value (max_identity_scope s)"
    "arg_max_identity_retention (spec_as_args s) = max_identity_retention s"
    "arg_egress_allow (spec_as_args s) = Entries (map raw_of (egress_allow s))"
    "spec_fields.truncate (spec_as_args s) = spec_fields.truncate s"
    by (simp_all add: spec_as_args_def spec_fields.defs)
  have rebuilt: "spec_fields.extend (spec_fields.truncate s)
      \<lparr>egress_allow = egress_allow s, egress = egress s, isolation_scope = isolation_scope s,
       min_cleanup = min_cleanup s, max_identity_scope = max_identity_scope s,
       max_identity_retention = max_identity_retention s,
       execution_contract = execution_contract s\<rparr> = s"
    by (simp add: spec_fields.defs)
  show ?thesis
    using rest bounds ne
    by (cases "host_tools s") (simp_all add: spec_post_init_def args contract_again [OF contract] egress_enum.parse_value
        isolation_scope_enum.parse_value parse_opt_again [OF cleanup_enum.string_enum_axioms]
        parse_opt_again [OF identity_scope_enum.string_enum_axioms] allow_list_def raiseIf_def
        again rebuilt flip: allow)
qed


subsection \<open>A spec to look at\<close>

definition get_rule :: egress_rule where
  "get_rule = \<lparr>rule_host = ''api.example.org'', rule_methods = Some [Verb GET],
     rule_authority = Some ''api://audience'', rule_paths = Some [''/v1/*'']\<rparr>"

definition sample_args :: spec_args where
  "sample_args = \<lparr>spec_kind = ''python'', image = None, image_id = None,
     work_dir = Some ''/maf-sandbox/work'', labels = [],
     requires = {EXEC, FILES_IN, ATTACHED_IDENTITY}, min_isolation = None, declared_outputs = [],
     files_in = default_transfer_limits, files_out = default_transfer_limits,
     outputs_named_at_call_time = False, requires_os_family = Some POSIX, host_tools = None,
     confined_to_guest_call_path = False, exclusive_admission = True, program = None,
     arg_egress_allow = Entries [Raw_host ''PyPI.org'', Raw_rule get_rule, Raw_host ''pypi.org''],
     arg_egress = ''allowlist'', arg_isolation_scope = ''call'', arg_min_cleanup = Some ''reset'',
     arg_max_identity_scope = Some ''per_sandbox'', arg_max_identity_retention = Seconds 600,
     arg_execution_contract = Some (Str ''v1'')\<rparr>"

definition sample_spec :: sandbox_spec where
  "sample_spec = projr (spec_post_init sample_args)"

lemma sample_spec_built: "spec_post_init sample_args = Inr sample_spec"
  unfolding sample_spec_def by code_simp

theorem allow_list_canonical_witness:
  "distinct (map (fold_host \<circ> entry_host) (egress_allow sample_spec)) \<and> egress_allow sample_spec \<noteq> []"
proof -
  have "egress sample_spec = ALLOWLIST" by code_simp
  then show ?thesis using allow_list_canonical [OF sample_spec_built] by blast
qed

theorem allow_list_faithful_witness:
  "\<exists>e f. normal_entry (Raw_rule get_rule) = Inr e \<and> f \<in> set (egress_allow sample_spec) \<and> same_rule e f"
proof -
  have "arg_egress_allow sample_args = Entries [Raw_host ''PyPI.org'', Raw_rule get_rule, Raw_host ''pypi.org'']"
    by (simp add: sample_args_def)
  from conjunct1 [OF allow_list_faithful [OF sample_spec_built this]] show ?thesis by simp
qed

theorem identity_bounds_hold_witness: "max_identity_scope sample_spec \<notin> {None, Some NO_IDENTITY}"
proof -
  have "ATTACHED_IDENTITY \<in> requires sample_spec" by code_simp
  then show ?thesis using identity_bounds_hold [OF sample_spec_built] by auto
qed

theorem required_capabilities_honest_witness:
  "RECLAIM \<notin> required_capabilities sample_spec \<and> EGRESS_PATHS \<in> required_capabilities sample_spec"
proof
  show "RECLAIM \<notin> required_capabilities sample_spec"
    using required_capabilities_honest [OF sample_spec_built] by blast
  show "EGRESS_PATHS \<in> required_capabilities sample_spec" by code_simp
qed

theorem spec_reconstructs_witness: "spec_post_init (spec_as_args sample_spec) = Inr sample_spec"
  by (rule spec_reconstructs [OF sample_spec_built])

text \<open>
  The host grammar the code evaluates is the regular expression it states: the whole-string
  match of \<open>_EGRESS_HOST\<close>, one optional wildcard label in front, is exactly the predicate on
  dot-separated labels, and likewise for the numeric last label.
\<close>

theorem host_grammar_is_the_regex:
  "validated_egress_host (Str s) =
    (if s \<noteq> ''*'' \<and> accepts egress_host_re s \<and> length s \<le> 253
        \<and> \<not> accepts numeric_label_re (last (split_on CHR ''.'' s))
     then Inr s else Inl ValueError)"
  by (auto simp: validated_egress_host_def host_re numeric_re egress_host_max_def)

text \<open>
  An admitted allow entry can only mean the hosts it names.  It has no scheme, port, path,
  comma, whitespace or second wildcard in it, every label is one DNS can carry, and no URL
  parser reads its end as a number.
\<close>

theorem admitted_host_is_one_name:
  assumes "validated_egress_host e = Inr h"
  shows "e = Str h \<and> (\<forall>c \<in> set h. c \<in> set alnum_chars \<or> c \<in> {CHR ''-'', CHR ''.'', CHR ''*''})
    \<and> (\<forall>i. 0 < i \<and> i < length h \<longrightarrow> h ! i \<noteq> CHR ''*'')
    \<and> list_all label_ok (labels_of h) \<and> length h \<le> 253
    \<and> \<not> (\<exists>c. c \<in> set digit_chars \<and> last (split_on CHR ''.'' h) = [c])"
proof -
  have e: "e = Str h" and ok: "host_ok h" using assms by (simp_all add: validated_host_eq)
  then have shape: "list_all label_ok (labels_of h)" and len: "length h \<le> 253"
    and num: "\<not> numeric_label (last (split_on CHR ''.'' h))"
    by (auto simp: host_ok_def validated_egress_host_def host_shape_def egress_host_max_def
        split: if_splits)
  define t where "t = (if prefix ''*.'' h then drop 2 h else h)"
  have h: "h = t \<or> h = ''*.'' @ t" by (auto simp: t_def prefix_def)
  have chars: "c \<in> set alnum_chars \<or> c = CHR ''-'' \<or> c = CHR ''.''" if "c \<in> set t" for c
  proof -
    have "c \<in> set (join_with CHR ''.'' (labels_of h))" using that by (simp add: labels_of_def t_def)
    then have "c \<in> insert CHR ''.'' (\<Union> (set ` set (labels_of h)))" using set_join_with by blast
    then show ?thesis using shape by (auto simp: list_all_iff label_ok_def)
  qed
  have star: "CHR ''*'' \<notin> set t"
    using chars [of "CHR ''*''"] marks_not_alnum by auto
  have "h ! i \<noteq> CHR ''*''" if "0 < i" "i < length h" for i
    using h
  proof
    assume "h = t"
    then show ?thesis using star that nth_mem by metis
  next
    assume eq: "h = ''*.'' @ t"
    show ?thesis
    proof (cases "i = 1")
      case False
      then have "h ! i = t ! (i - 2)" "i - 2 < length t" using that eq by (auto simp: nth_append nth_Cons' numeral_2_eq_2)
      then show ?thesis using star nth_mem by metis
    qed (simp add: eq)
  qed
  moreover have "\<forall>c \<in> set h. c \<in> set alnum_chars \<or> c \<in> {CHR ''-'', CHR ''.'', CHR ''*''}"
    using h by (auto dest: chars)
  moreover have "\<not> (\<exists>c. c \<in> set digit_chars \<and> last (split_on CHR ''.'' h) = [c])"
    using num by (auto simp: numeric_label_def)
  ultimately show ?thesis using e shape len by blast
qed

theorem admitted_host_is_one_name_witness:
  "length ''*.example.org'' \<le> 253 \<and> list_all label_ok (labels_of ''*.example.org'')"
proof -
  have "validated_egress_host (Str ''*.example.org'') = Inr ''*.example.org''" by code_simp
  then show ?thesis using admitted_host_is_one_name by blast
qed


end
