(* ===== verification/Declarations.thy ===== *)
theory Declarations
  imports Sandbox_Spec
begin

text \<open>
  What a backend says of itself and how the router reads it: \<open>BackendDeclarations\<close>
  (\<open>_protocol.py\<close>), the readers \<open>_declared_*\<close> of \<open>_router.py\<close> and the cleanup rungs of
  \<open>_cleanup.py\<close>.  A dataclass checks no field, so a field the readers check may be \<open>Misshapen\<close>.
  A set of enum members is the set of their values: a \<open>StrEnum\<close> member equals its string, and
  an element that is no string can equal no member.
\<close>

datatype 'a shaped = Shaped 'a | Misshapen

subsection \<open>Backends\<close>

text \<open>A program channel is the backend's own object: its two functions are parameters.\<close>

record program_channel =
  ch_name :: string
  ch_mode :: string
  ch_profiles :: "string set"
  ch_host_tools :: bool
  ch_required :: "sandbox_spec \<Rightarrow> capability set"
  ch_limits :: "sandbox_spec \<Rightarrow> sandbox_limits result"

text \<open>An element of \<open>os_families\<close>; only members count there, their strings do not.\<close>

datatype os_claim = Family os_family | Not_a_family string

record declarations =
  d_capabilities :: "string set shaped"
  d_limits :: "sandbox_limits shaped"
  d_egress_modes :: "string set shaped"
  d_os_families :: "os_claim set shaped"
  d_isolation_scopes :: "string set shaped"
  d_observes_egress :: bool
  d_egress_method_tokens :: "string set shaped option"
  d_attached_identity :: "attached_identity shaped"
  d_requires_exclusive :: "bool shaped"
  d_configured_identity :: "configured_identity shaped option"
  d_program_channels :: "program_channel list"

definition default_declarations :: declarations where
  "default_declarations =
     \<lparr>d_capabilities = Shaped (capability_value ` default_capabilities),
      d_limits = Shaped default_sandbox_limits, d_egress_modes = Shaped {},
      d_os_families = Shaped {}, d_isolation_scopes = Shaped {''conversation''},
      d_observes_egress = False, d_egress_method_tokens = Some (Shaped {}),
      d_attached_identity = Shaped no_attached_identity, d_requires_exclusive = Shaped False,
      d_configured_identity = None, d_program_channels = []\<rparr>"

text \<open>What reading the attribute \<open>declarations\<close> of a backend gives.\<close>

datatype raw_declarations =
    Undeclared | Raises_attribute_error | Not_declarations | Declared declarations

text \<open>
  A backend as the policy sees it: its identity as an object, its name, the string form of its
  \<open>isolation\<close>, the superseded attributes it still carries and its declarations.
\<close>

record backend =
  b_id :: nat
  b_name :: string
  b_isolation :: string
  b_superseded :: "string list"
  b_declarations :: raw_declarations

subsection \<open>The readers\<close>

definition declared_isolation :: "backend \<Rightarrow> isolation result" where
  "declared_isolation b =
     (case isolation_parse (b_isolation b) of
        Inl _ \<Rightarrow> Inl (Attach BackendNotPermitted) | Inr i \<Rightarrow> Inr i)"

definition superseded_declarations :: "string list" where
  "superseded_declarations = [''capabilities'', ''limits'', ''egress_modes'', ''os_families'']"

definition declarations_of :: "backend \<Rightarrow> declarations result" where
  "declarations_of b =
     (if filter (\<lambda>n. n \<in> set (b_superseded b)) superseded_declarations \<noteq> []
      then Inl (Attach BackendNotPermitted)
      else case b_declarations b of
        Undeclared \<Rightarrow> Inr default_declarations
      | Raises_attribute_error \<Rightarrow> Inl (Attach BackendNotPermitted)
      | Not_declarations \<Rightarrow> Inl (Attach BackendNotPermitted)
      | Declared d \<Rightarrow>
          if d_configured_identity d = Some Misshapen then Inl (Attach BackendNotPermitted)
          else if d_requires_exclusive d = Misshapen then Inl (Attach BackendNotPermitted)
          else (case d_attached_identity d of
              Misshapen \<Rightarrow> Inl (Attach BackendNotPermitted)
            | Shaped att \<Rightarrow>
                (case d_capabilities d of
                   Shaped caps \<Rightarrow>
                     if (''attached_identity'' \<in> caps) \<noteq> (att_scope att \<noteq> NO_IDENTITY)
                     then Inl (Attach BackendNotPermitted) else Inr d
                 | Misshapen \<Rightarrow> Inr d)))"

definition declared_set :: "string set shaped \<Rightarrow> string set result" where
  "declared_set s = (case s of Shaped x \<Rightarrow> Inr x | Misshapen \<Rightarrow> Inl (Attach BackendNotPermitted))"

definition declared_os_families :: "declarations \<Rightarrow> os_family set" where
  "declared_os_families d =
     (case d_os_families d of
        Misshapen \<Rightarrow> {}
      | Shaped claims \<Rightarrow> (\<Union>c \<in> claims. case c of Family f \<Rightarrow> {f} | Not_a_family _ \<Rightarrow> {}))"

definition declared_isolation_scopes :: "declarations \<Rightarrow> string set result" where
  "declared_isolation_scopes d =
     bindE (declared_set (d_isolation_scopes d)) (\<lambda>scopes.
       Inr (if scopes = {} then {isolation_scope_value CONVERSATION} else scopes))"

definition declared_limits :: "declarations \<Rightarrow> sandbox_limits result" where
  "declared_limits d =
     (case d_limits d of
        Shaped l \<Rightarrow> Inr l | Misshapen \<Rightarrow> Inl (Attach TransferLimitsNotPermitted))"

definition attachment :: "declarations \<Rightarrow> attached_identity" where
  "attachment d = (case d_attached_identity d of Shaped a \<Rightarrow> a | Misshapen \<Rightarrow> no_attached_identity)"

text \<open>Reading declarations yields an attachment, and says so exactly when there is one.\<close>

lemma declarations_of_eq:
  assumes "declarations_of b = Inr d"
  obtains "d = default_declarations"
  | att where "d_attached_identity d = Shaped att"
    and "\<And>caps. d_capabilities d = Shaped caps \<Longrightarrow>
          ''attached_identity'' \<in> caps \<longleftrightarrow> att_scope att \<noteq> NO_IDENTITY"
proof (cases "b_declarations b")
  case (Declared d')
  then have "d' = d"
    using assms by (auto simp: declarations_of_def split: shaped.splits if_splits)
  then show thesis
    using assms Declared that(2)
    by (cases "d_attached_identity d"; cases "d_capabilities d")
      (simp_all add: declarations_of_def split: if_splits)
qed (use assms that(1) in \<open>simp_all add: declarations_of_def split: if_splits\<close>)

lemma declarations_of_attachment:
  assumes "declarations_of b = Inr d"
  shows "d_attached_identity d = Shaped (attachment d)"
    and "d_capabilities d = Shaped caps \<Longrightarrow>
      capability_value ATTACHED_IDENTITY \<in> caps \<longleftrightarrow> att_scope (attachment d) \<noteq> NO_IDENTITY"
  using declarations_of_eq [OF assms]
  by (cases; simp add: attachment_def default_declarations_def no_attached_identity_def
      default_capabilities_def; fastforce)+

lemma declarations_of_refusal:
  "declarations_of b = Inl e \<Longrightarrow> e = Attach BackendNotPermitted"
  by (auto simp: declarations_of_def split: raw_declarations.splits shaped.splits if_splits)

lemma declared_isolation_refusal:
  "declared_isolation b = Inl e \<Longrightarrow> e = Attach BackendNotPermitted"
  by (auto simp: declared_isolation_def split: sum.splits)

lemma declared_isolation_eq: "declared_isolation b = Inr i \<longleftrightarrow> b_isolation b = isolation_value i"
  using isolation_enum.parse_eq_Inr [of "b_isolation b" i]
  by (auto simp: declared_isolation_def split: sum.splits)

subsection \<open>Cleanup rungs\<close>

definition established_cleanup :: "capability set \<Rightarrow> cleanup set" where
  "established_cleanup declared =
     {DISPOSE} \<union> (if SNAPSHOT \<in> declared then {RESET} else {})
               \<union> (if RECLAIM \<in> declared then {RECLAIM_RUNG} else {})"

text \<open>
  \<open>min\<close> over the rungs at or above the floor; the set iterated in ladder order, which cannot
  matter to a minimum by rank.  \<open>ValueError\<close> is what \<open>min\<close> raises on nothing.
\<close>

definition resolve_cleanup :: "cleanup set \<Rightarrow> cleanup \<Rightarrow> cleanup result" where
  "resolve_cleanup established lowest =
     (case filter (\<lambda>r. r \<in> established \<and> cleanup_rank r \<ge> cleanup_rank lowest) cleanup_ladder of
        [] \<Rightarrow> Inl ValueError
      | r # rs \<Rightarrow> Inr (foldl min r rs))"

lemma foldl_min: "foldl min (r :: 'a :: linorder) rs = Min (set (r # rs))"
proof -
  have "fold (\<lambda>x s. min s x) rs r = fold min rs r"
    by (rule fold_cong) (simp_all add: min.commute)
  then show ?thesis by (simp only: foldl_conv_fold Min.set_eq_fold)
qed

lemma resolve_cleanup_eq:
  assumes "DISPOSE \<in> established"
  shows "\<exists>r. resolve_cleanup established lowest = Inr r \<and> r \<in> established \<and> lowest \<le> r
    \<and> (\<forall>q \<in> established. lowest \<le> q \<longrightarrow> r \<le> q)"
proof -
  define able where "able = filter (\<lambda>r. r \<in> established \<and> lowest \<le> r) cleanup_ladder"
  have set_able: "set able = {r \<in> established. lowest \<le> r}"
    using cleanup_enum.covered by (auto simp: able_def)
  then have "DISPOSE \<in> set able" using assms by simp
  then obtain r rs where able: "able = r # rs" by (cases able) auto
  have "resolve_cleanup established lowest = Inr (foldl min r rs)"
    using able by (simp add: resolve_cleanup_def able_def less_eq_cleanup_def)
  moreover have "foldl min r rs = Min (set able)" by (simp only: foldl_min able)
  moreover have "Min (set able) \<in> set able" by (rule Min_in) (use able in auto)
  moreover have "\<forall>q \<in> set able. Min (set able) \<le> q" by simp
  ultimately show ?thesis using set_able by auto
qed

end
