(* ===== verification/Routing.thy ===== *)
theory Routing
  imports Declarations
begin

text \<open>
  The policy half of \<open>SandboxRouter\<close> (\<open>_router.py\<close>): construction, the checks one backend must
  pass to serve a spec, and the choice among the registered backends.  Declarations are read
  anew on each decision; between two decisions they are taken not to change.
\<close>

subsection \<open>The router\<close>

datatype selection = FIXED | PER_SPEC

definition selection_value :: "selection \<Rightarrow> string" where
  "selection_value s = (case s of FIXED \<Rightarrow> ''fixed'' | PER_SPEC \<Rightarrow> ''per_spec'')"

interpretation selection_enum: string_enum selection_value "[FIXED, PER_SPEC]"
proof
  show "m \<in> set [FIXED, PER_SPEC]" for m by (cases m) simp_all
  show "selection_value a = selection_value b \<Longrightarrow> a = b" for a b
    by (cases a; cases b) (simp_all add: selection_value_def)
qed

record router =
  r_backends :: "backend list"
  r_candidates :: "backend list"
  r_backend :: "backend option"
  r_min_isolation :: isolation
  r_min_scope :: isolation_scope
  r_min_cleanup :: cleanup
  r_max_identity_scope :: identity_scope
  r_selection :: selection
  r_denied_capabilities :: "capability set"
  r_denied_identities :: "identity set"
  r_channel_preference :: "string list"

subsection \<open>Floors\<close>

definition effective_floor :: "router \<Rightarrow> sandbox_spec \<Rightarrow> isolation" where
  "effective_floor r s =
     (case min_isolation s of None \<Rightarrow> r_min_isolation r | Some i \<Rightarrow> max (r_min_isolation r) i)"

definition effective_isolation_scope :: "router \<Rightarrow> sandbox_spec \<Rightarrow> isolation_scope" where
  "effective_isolation_scope r s = max (r_min_scope r) (isolation_scope s)"

definition effective_cleanup_floor :: "router \<Rightarrow> sandbox_spec \<Rightarrow> cleanup" where
  "effective_cleanup_floor r s =
     (case min_cleanup s of None \<Rightarrow> r_min_cleanup r | Some c \<Rightarrow> max (r_min_cleanup r) c)"

definition refuse_identity_scope :: "router \<Rightarrow> attached_identity \<Rightarrow> unit result" where
  "refuse_identity_scope r att =
     raiseIf (identity_scope_rank (att_scope att) > identity_scope_rank (r_max_identity_scope r))
       (Attach AttachedIdentityNotPermitted)"

subsection \<open>Choosing a program channel\<close>

definition needs_host_tools :: "sandbox_spec \<Rightarrow> bool" where
  "needs_host_tools s \<longleftrightarrow> host_tools s \<noteq> None \<or> HOST_TOOLS \<in> requires s"

text \<open>
  The \<open>if\<close> of the inner loop, short-circuiting as Python does; comparing a set with something
  that is no set raises \<open>TypeError\<close>.
\<close>

definition channel_fits ::
  "router \<Rightarrow> declarations \<Rightarrow> sandbox_spec \<Rightarrow> program_requirements \<Rightarrow> string \<Rightarrow> program_channel \<Rightarrow> bool result" where
  "channel_fits r d s prog mode c =
     (if ch_mode c = mode \<and> profile prog \<in> ch_profiles c \<and> (\<not> needs_host_tools s \<or> ch_host_tools c)
      then (case d_capabilities d of
          Misshapen \<Rightarrow> Inl TypeError
        | Shaped caps \<Rightarrow>
            Inr (capability_value ` ch_required c s \<subseteq> caps
                 \<and> ch_required c s \<inter> r_denied_capabilities r = {}))
      else Inr False)"

fun pick_channel ::
  "router \<Rightarrow> declarations \<Rightarrow> sandbox_limits \<Rightarrow> sandbox_spec \<Rightarrow> program_requirements \<Rightarrow>
   program_channel option \<Rightarrow> (string \<times> program_channel) list \<Rightarrow> program_channel option result" where
  "pick_channel r d ceil s prog first [] = Inr first"
| "pick_channel r d ceil s prog first ((mode, c) # rest) =
     bindE (channel_fits r d s prog mode c) (\<lambda>fits.
       if \<not> fits then pick_channel r d ceil s prog first rest
       else (let first' = (case first of None \<Rightarrow> Some c | Some f \<Rightarrow> Some f)
             in case ch_limits c s of
                  Inl e \<Rightarrow>
                    if e = Attach TransferLimitsNotPermitted
                    then pick_channel r d ceil s prog first' rest else Inl e
                | Inr t \<Rightarrow>
                    if within_limits (limits_in t) (limits_in ceil) \<and> within_limits (limits_out t) (limits_out ceil)
                    then Inr (Some c) else pick_channel r d ceil s prog first' rest))"

definition channel_for :: "router \<Rightarrow> backend \<Rightarrow> sandbox_spec \<Rightarrow> program_channel option result" where
  "channel_for r b s =
     (case program s of
        None \<Rightarrow> if needs_host_tools s then Inl (Attach CapabilityNotSupported) else Inr None
      | Some prog \<Rightarrow>
          bindE (declarations_of b) (\<lambda>d.
          bindE (declared_limits d) (\<lambda>ceil.
          bindE (pick_channel r d ceil s prog None
                   (List.product (r_channel_preference r) (d_program_channels d))) (\<lambda>first.
            case first of None \<Rightarrow> Inl (Attach CapabilityNotSupported) | Some c \<Rightarrow> Inr (Some c)))))"

subsection \<open>The checks of one backend\<close>

definition check_attachment :: "router \<Rightarrow> attached_identity \<Rightarrow> sandbox_spec \<Rightarrow> unit result" where
  "check_attachment r att s =
     bindE (refuse_identity_scope r att) (\<lambda>_.
     if att_scope att = NO_IDENTITY then Inr ()
     else bindE (raiseIf (ATTACHED_IDENTITY \<notin> requires s) (Attach AttachedIdentityNotPermitted)) (\<lambda>_.
       bindE (raiseIf (case max_identity_scope s of
                         None \<Rightarrow> True
                       | Some m \<Rightarrow> identity_scope_rank (att_scope att) > identity_scope_rank m)
                (Attach AttachedIdentityNotPermitted)) (\<lambda>_.
       bindE (raiseIf (case (auto_delete_seconds att, max_identity_retention s) of
                         (Some n, Seconds m) \<Rightarrow> n > m | _ \<Rightarrow> True)
                (Attach AttachedIdentityNotPermitted)) (\<lambda>_.
         raiseIf (att_channels att \<noteq> authority_channels s) (Attach AttachedIdentityNotPermitted)))))"

definition check_floor :: "router \<Rightarrow> backend \<Rightarrow> sandbox_spec \<Rightarrow> unit result" where
  "check_floor r b s =
     bindE (declared_isolation b) (\<lambda>declared.
       raiseIf (\<not> meets_floor declared (effective_floor r s)) (Attach BackendNotPermitted))"

definition requested_methods :: "sandbox_spec \<Rightarrow> string set" where
  "requested_methods s =
     (\<Union>e \<in> set (egress_allow s). case e of
        Rule r \<Rightarrow> (case rule_methods r of None \<Rightarrow> {} | Some ms \<Rightarrow> method_text ` set ms)
      | Host _ \<Rightarrow> {})"

definition check_methods :: "declarations \<Rightarrow> sandbox_spec \<Rightarrow> unit result" where
  "check_methods d s =
     (case d_egress_method_tokens d of
        None \<Rightarrow> Inr ()
      | Some tokens \<Rightarrow>
          bindE (declared_set tokens) (\<lambda>supported.
            raiseIf (\<not> requested_methods s \<subseteq> supported) (Attach CapabilityNotSupported)))"

definition check_os_family :: "declarations \<Rightarrow> sandbox_spec \<Rightarrow> unit result" where
  "check_os_family d s =
     (case requires_os_family s of
        None \<Rightarrow> Inr ()
      | Some f \<Rightarrow> raiseIf (f \<notin> declared_os_families d) (Attach OsFamilyNotSupported))"

definition check_channel ::
  "router \<Rightarrow> string set \<Rightarrow> sandbox_spec \<Rightarrow> program_channel option \<Rightarrow> unit result" where
  "check_channel r caps s channel =
     (case channel of
        None \<Rightarrow> Inr ()
      | Some c \<Rightarrow>
          raiseIf
            ((case program s of None \<Rightarrow> True | Some p \<Rightarrow> profile p \<notin> ch_profiles c)
             \<or> (needs_host_tools s \<and> \<not> ch_host_tools c)
             \<or> \<not> capability_value ` ch_required c s \<subseteq> caps
             \<or> ch_required c s \<inter> r_denied_capabilities r \<noteq> {})
            (Attach CapabilityNotSupported))"

definition asked_limits :: "sandbox_spec \<Rightarrow> program_channel option \<Rightarrow> sandbox_limits result" where
  "asked_limits s channel =
     (case channel of
        None \<Rightarrow> Inr \<lparr>limits_in = files_in s, limits_out = files_out s\<rparr>
      | Some c \<Rightarrow> ch_limits c s)"

definition check_limits :: "sandbox_limits \<Rightarrow> sandbox_limits \<Rightarrow> unit result" where
  "check_limits asked ceil =
     raiseIf (\<not> within_limits (limits_in asked) (limits_in ceil)
              \<or> \<not> within_limits (limits_out asked) (limits_out ceil))
       (Attach TransferLimitsNotPermitted)"

definition check_egress :: "declarations \<Rightarrow> sandbox_spec \<Rightarrow> unit result" where
  "check_egress d s =
     bindE (declared_set (d_egress_modes d)) (\<lambda>modes.
       raiseIf (egress_value (egress s) \<notin> modes) (Attach EgressNotEnforced))"

definition check_scope :: "router \<Rightarrow> declarations \<Rightarrow> sandbox_spec \<Rightarrow> unit result" where
  "check_scope r d s =
     bindE (declared_isolation_scopes d) (\<lambda>scopes.
       raiseIf (isolation_scope_value (effective_isolation_scope r s) \<notin> scopes)
         (Attach ScopeNotEnforced))"

definition refuse_unless_this_backend_can_serve ::
  "router \<Rightarrow> backend \<Rightarrow> sandbox_spec \<Rightarrow> program_channel option \<Rightarrow> unit result" where
  "refuse_unless_this_backend_can_serve r b s pinned =
     bindE (declarations_of b) (\<lambda>d.
     bindE (check_attachment r (attachment d) s) (\<lambda>_.
     bindE (check_floor r b s) (\<lambda>_.
     bindE (declared_set (d_capabilities d)) (\<lambda>caps.
     bindE (raiseIf (\<not> capability_value ` required_capabilities s \<subseteq> caps)
              (Attach CapabilityNotSupported)) (\<lambda>_.
     bindE (check_methods d s) (\<lambda>_.
     bindE (check_os_family d s) (\<lambda>_.
     bindE (declared_limits d) (\<lambda>ceil.
     bindE (case pinned of Some c \<Rightarrow> Inr (Some c) | None \<Rightarrow> channel_for r b s) (\<lambda>channel.
     bindE (check_channel r caps s channel) (\<lambda>_.
     bindE (raiseIf (capability_value HOST_TOOLS \<in> caps \<and> \<not> (\<exists>c \<in> set (d_program_channels d). ch_host_tools c))
              (Attach CapabilityNotSupported)) (\<lambda>_.
     bindE (asked_limits s channel) (\<lambda>asked.
     bindE (check_limits asked ceil) (\<lambda>_.
     bindE (check_egress d s) (\<lambda>_.
       check_scope r d s))))))))))))))"

subsection \<open>Routing\<close>

definition refusal_serving :: "router \<Rightarrow> backend \<Rightarrow> sandbox_spec \<Rightarrow> refusal option result" where
  "refusal_serving r b s =
     (case refuse_unless_this_backend_can_serve r b s None of
        Inr _ \<Rightarrow> Inr None
      | Inl (Attach x) \<Rightarrow> Inr (Some x)
      | Inl e \<Rightarrow> Inl e)"

fun position :: "'a list \<Rightarrow> 'a \<Rightarrow> nat result" where
  "position [] x = Inl ValueError"
| "position (y # ys) x = (if x = y then Inr 0 else bindE (position ys x) (\<lambda>n. Inr (Suc n)))"

definition channel_rank :: "router \<Rightarrow> sandbox_spec \<Rightarrow> backend \<Rightarrow> nat result" where
  "channel_rank r s b =
     (case channel_for r b s of
        Inl e \<Rightarrow>
          if e = Attach CapabilityNotSupported then Inr (length (r_channel_preference r)) else Inl e
      | Inr None \<Rightarrow> Inr 0
      | Inr (Some c) \<Rightarrow> position (r_channel_preference r) (ch_mode c))"

definition program_candidates :: "router \<Rightarrow> sandbox_spec \<Rightarrow> backend list result" where
  "program_candidates r s =
     (if program s = None then Inr (r_candidates r)
      else bindE (mapE (channel_rank r s) (r_candidates r)) (\<lambda>ranks.
        Inr (map snd (sort_key fst (zip ranks (r_candidates r))))))"

fun route_from ::
  "router \<Rightarrow> sandbox_spec \<Rightarrow> (backend \<times> refusal) list \<Rightarrow> backend list \<Rightarrow>
   (backend option \<times> (backend \<times> refusal) list) result" where
  "route_from r s passed [] = Inr (None, passed)"
| "route_from r s passed (b # bs) =
     bindE (refusal_serving r b s) (\<lambda>refused.
       case refused of
         None \<Rightarrow> Inr (Some b, passed)
       | Some x \<Rightarrow> route_from r s (passed @ [(b, x)]) bs)"

definition route :: "router \<Rightarrow> sandbox_spec \<Rightarrow> (backend option \<times> (backend \<times> refusal) list) result" where
  "route r s = bindE (program_candidates r s) (route_from r s [])"

definition refuse_host_denials :: "router \<Rightarrow> sandbox_spec \<Rightarrow> unit result" where
  "refuse_host_denials r s =
     bindE (raiseIf (required_capabilities s \<inter> r_denied_capabilities r \<noteq> {}) (Attach CapabilityDenied)) (\<lambda>_.
       raiseIf (identities s \<inter> r_denied_identities r \<noteq> {}) (Attach IdentityDenied))"

text \<open>With several refusals the first one's class is raised under a longer message.\<close>

definition nothing_can_serve :: "(backend \<times> refusal) list \<Rightarrow> exc" where
  "nothing_can_serve passed =
     (case passed of [] \<Rightarrow> Raised ''IndexError'' | (b, x) # _ \<Rightarrow> Attach x)"

definition refuse_unless_backend_can_serve :: "router \<Rightarrow> sandbox_spec \<Rightarrow> backend result" where
  "refuse_unless_backend_can_serve r s =
     bindE (raiseIf (egress s = ALLOWLIST \<and> egress_allow s = []) ValueError) (\<lambda>_.
     bindE (refuse_host_denials r s) (\<lambda>_.
     bindE (route r s) (\<lambda>(served, passed).
       case served of None \<Rightarrow> Inl (nothing_can_serve passed) | Some b \<Rightarrow> Inr b)))"

definition ensure_can_serve :: "router \<Rightarrow> sandbox_spec \<Rightarrow> unit result" where
  "ensure_can_serve r s =
     (case r_candidates r of
        [] \<Rightarrow> Inr ()
      | _ \<Rightarrow> bindE (refuse_unless_backend_can_serve r s) (\<lambda>_. Inr ()))"

definition backend_for :: "router \<Rightarrow> sandbox_spec \<Rightarrow> backend option result" where
  "backend_for r s =
     (case r_candidates r of [] \<Rightarrow> Inr None
      | _ \<Rightarrow>
      if required_capabilities s \<inter> r_denied_capabilities r \<noteq> {} then Inr None
      else if identities s \<inter> r_denied_identities r \<noteq> {} then Inr None
      else bindE (route r s) (\<lambda>(served, _). Inr served))"

subsection \<open>Cleanup\<close>

definition known_capabilities :: "string set \<Rightarrow> capability set" where
  "known_capabilities declared = set (filter (\<lambda>c. capability_value c \<in> declared) capability_members)"

definition cleanup_on :: "router \<Rightarrow> backend \<Rightarrow> sandbox_spec \<Rightarrow> cleanup result" where
  "cleanup_on r b s =
     (if effective_isolation_scope r s = CALL then Inr DISPOSE
      else bindE (declarations_of b) (\<lambda>d.
        bindE (declared_set (d_capabilities d)) (\<lambda>declared.
          resolve_cleanup (established_cleanup (known_capabilities declared))
            (effective_cleanup_floor r s))))"

definition effective_cleanup :: "router \<Rightarrow> sandbox_spec \<Rightarrow> cleanup result" where
  "effective_cleanup r s = bindE (refuse_unless_backend_can_serve r s) (\<lambda>b. cleanup_on r b s)"

subsection \<open>Construction\<close>

datatype timeout_arg = Timeout rat | Not_finite

record router_args =
  a_backends :: "backend list"
  a_min_isolation :: string
  a_min_scope :: string
  a_min_cleanup :: string
  a_max_identity_scope :: string
  a_selected :: "string option"
  a_selection :: string
  a_channel_preference :: "string list"
  a_denied_capabilities :: "string list"
  a_denied_identities :: "string list"
  a_reclaim_timeout :: timeout_arg

definition resolve_backend :: "router_args \<Rightarrow> router \<Rightarrow> backend option result" where
  "resolve_backend a r =
     (case a_backends a of [] \<Rightarrow> Inr None
      | first # _ \<Rightarrow> bindE (case a_selected a of
            None \<Rightarrow> Inr first
          | Some n \<Rightarrow> (case filter (\<lambda>b. b_name b = n) (a_backends a) of
                [] \<Rightarrow> Inl NoSandboxBackend | b # _ \<Rightarrow> Inr b)) (\<lambda>b.
        bindE (declarations_of b) (\<lambda>d.
        bindE (refuse_identity_scope r (attachment d)) (\<lambda>_.
        bindE (declared_isolation b) (\<lambda>declared.
        bindE (raiseIf (\<not> meets_floor declared (r_min_isolation r)) (Attach BackendNotPermitted)) (\<lambda>_.
          Inr (Some b)))))))"

definition read_every_field :: "backend \<Rightarrow> unit result" where
  "read_every_field b =
     bindE (declarations_of b) (\<lambda>d.
     bindE (declared_set (d_capabilities d)) (\<lambda>_.
     bindE (declared_set (d_egress_modes d)) (\<lambda>_.
     bindE (case d_egress_method_tokens d of None \<Rightarrow> Inr {} | Some t \<Rightarrow> declared_set t) (\<lambda>_.
     bindE (declared_isolation_scopes d) (\<lambda>_.
     bindE (declared_limits d) (\<lambda>_. Inr ()))))))"

text \<open>The warning about backends below the floor is a log line and not modelled.\<close>

definition eligible :: "backend list \<Rightarrow> isolation \<Rightarrow> backend list result" where
  "eligible bs lowest =
     (case bs of [] \<Rightarrow> Inr []
      | _ \<Rightarrow> bindE (mapE declared_isolation bs) (\<lambda>rungs.
        bindE (each read_every_field bs) (\<lambda>_.
        bindE (raiseIf (\<not> (\<exists>i \<in> set rungs. meets_floor i lowest)) (Attach BackendNotPermitted)) (\<lambda>_.
          Inr bs))))"

text \<open>
  \<open>__init__\<close>: the checks in their order, then the choice of candidates.  The observer's check and the handing out of the
  egress reporter concern no decision modelled here.
\<close>

definition router_config :: "router_args \<Rightarrow> router result" where
  "router_config a =
     bindE (raiseIf (set (a_channel_preference a) \<noteq> {''exec'', ''runtime''}
              \<or> length (a_channel_preference a) \<noteq> 2) ValueError) (\<lambda>_.
     bindE (raiseIf (case a_reclaim_timeout a of Not_finite \<Rightarrow> True | Timeout t \<Rightarrow> t \<le> 0) ValueError) (\<lambda>_.
     bindE (enum_parse isolation_value isolation_ladder (a_min_isolation a)) (\<lambda>lowest.
     bindE (enum_parse identity_scope_value identity_scope_members (a_max_identity_scope a)) (\<lambda>id_scope.
     bindE (enum_parse isolation_scope_value isolation_scope_ladder (a_min_scope a)) (\<lambda>scope.
     bindE (enum_parse cleanup_value cleanup_ladder (a_min_cleanup a)) (\<lambda>rung.
     bindE (enum_parse selection_value [FIXED, PER_SPEC] (a_selection a)) (\<lambda>sel.
     bindE (raiseIf (sel = PER_SPEC \<and> a_selected a \<noteq> None) ValueError) (\<lambda>_.
     bindE (mapE (enum_parse capability_value capability_members) (a_denied_capabilities a)) (\<lambda>caps.
     bindE (mapE (enum_parse identity_value [APP, USER]) (a_denied_identities a)) (\<lambda>ids.
       Inr \<lparr>r_backends = a_backends a, r_candidates = [], r_backend = None,
            r_min_isolation = lowest, r_min_scope = scope, r_min_cleanup = rung,
            r_max_identity_scope = id_scope, r_selection = sel,
            r_denied_capabilities = set caps, r_denied_identities = set ids,
            r_channel_preference = a_channel_preference a\<rparr>))))))))))"

definition router_init :: "router_args \<Rightarrow> router result" where
  "router_init a =
     bindE (router_config a) (\<lambda>r.
       if r_selection r = PER_SPEC
       then bindE (eligible (a_backends a) (r_min_isolation r)) (\<lambda>bs. Inr (r\<lparr>r_candidates := bs\<rparr>))
       else bindE (resolve_backend a r) (\<lambda>b.
         Inr (r\<lparr>r_backend := b,
                r_candidates := (case b of None \<Rightarrow> [] | Some x \<Rightarrow> [x])\<rparr>)))"

end
