(* ===== verification/Routing_Properties.thy ===== *)
theory Routing_Properties
  imports Routing "HOL-Library.Multiset"
begin

text \<open>
  The properties of the router's policy: what a served workload is guaranteed, which backend
  serves it, what construction has established, and which rung cleans up after a call.
\<close>

subsection \<open>A host's floor and a spec's\<close>

text \<open>The three floors the router resolves follow one rule: a spec may raise, never lower.\<close>

locale raised_floor =
  fixes host :: "router \<Rightarrow> 'f :: linorder" and asked :: "sandbox_spec \<Rightarrow> 'f option"
    and effective :: "router \<Rightarrow> sandbox_spec \<Rightarrow> 'f"
  assumes resolves:
    "effective r s = (case asked s of None \<Rightarrow> host r | Some f \<Rightarrow> max (host r) f)"
begin

lemma host_kept: "host r \<le> effective r s"
  by (simp add: resolves split: option.splits)

lemma asked_kept: "asked s = Some f \<Longrightarrow> f \<le> effective r s"
  by (simp add: resolves)

lemma effective_least:
  "host r \<le> f \<Longrightarrow> (\<And>a. asked s = Some a \<Longrightarrow> a \<le> f) \<Longrightarrow> effective r s \<le> f"
  by (simp add: resolves split: option.splits)

lemma effective_mono: "host r \<le> host q \<Longrightarrow> effective r s \<le> effective q s"
  by (rule effective_least) (auto intro: order_trans host_kept asked_kept)

end

interpretation isolation_floor: raised_floor r_min_isolation min_isolation effective_floor
  by unfold_locales (simp add: effective_floor_def)

interpretation scope_floor: raised_floor r_min_scope "\<lambda>s. Some (isolation_scope s)" effective_isolation_scope
  by unfold_locales (simp add: effective_isolation_scope_def)

interpretation cleanup_floor: raised_floor r_min_cleanup min_cleanup effective_cleanup_floor
  by unfold_locales (simp add: effective_cleanup_floor_def)

subsection \<open>What one backend has passed\<close>

text \<open>Everything a backend must have answered, once the checks are over.\<close>

lemma serves_inv:
  assumes "refuse_unless_this_backend_can_serve r b s pinned = Inr u"
  obtains d i caps modes scopes ceil asked channel where
    "declarations_of b = Inr d" and "declared_isolation b = Inr i"
    and "check_attachment r (attachment d) s = Inr ()"
    and "effective_floor r s \<le> i"
    and "d_capabilities d = Shaped caps" and "capability_value ` required_capabilities s \<subseteq> caps"
    and "check_methods d s = Inr ()" and "check_os_family d s = Inr ()"
    and "declared_limits d = Inr ceil"
    and "(case pinned of Some c \<Rightarrow> Inr (Some c) | None \<Rightarrow> channel_for r b s) = Inr channel"
    and "check_channel r caps s channel = Inr ()"
    and "capability_value HOST_TOOLS \<in> caps \<longrightarrow> (\<exists>c \<in> set (d_program_channels d). ch_host_tools c)"
    and "asked_limits s channel = Inr asked" and "check_limits asked ceil = Inr ()"
    and "d_egress_modes d = Shaped modes" and "egress_value (egress s) \<in> modes"
    and "declared_isolation_scopes d = Inr scopes"
    and "isolation_scope_value (effective_isolation_scope r s) \<in> scopes"
proof -
  note steps = assms [unfolded refuse_unless_this_backend_can_serve_def bindE_eq_Inr]
  obtain d where d: "declarations_of b = Inr d" "check_attachment r (attachment d) s = Inr ()"
    using steps by auto
  obtain i where i: "declared_isolation b = Inr i" "effective_floor r s \<le> i"
    using steps by (auto simp: check_floor_def bindE_eq_Inr meets_floor_le)
  obtain caps where caps: "d_capabilities d = Shaped caps"
    "capability_value ` required_capabilities s \<subseteq> caps"
    using steps d by (auto simp: declared_set_def split: shaped.splits)
  obtain ceil channel asked where lim: "check_methods d s = Inr ()" "check_os_family d s = Inr ()"
    "declared_limits d = Inr ceil"
    "(case pinned of Some c \<Rightarrow> Inr (Some c) | None \<Rightarrow> channel_for r b s) = Inr channel"
    "check_channel r caps s channel = Inr ()"
    "capability_value HOST_TOOLS \<in> caps \<longrightarrow> (\<exists>c \<in> set (d_program_channels d). ch_host_tools c)"
    "asked_limits s channel = Inr asked" "check_limits asked ceil = Inr ()"
    "check_egress d s = Inr ()" "check_scope r d s = Inr ()"
    using steps d caps by (auto simp: declared_set_def)
  obtain modes where modes: "d_egress_modes d = Shaped modes" "egress_value (egress s) \<in> modes"
    using lim(9) by (auto simp: check_egress_def bindE_eq_Inr declared_set_def split: shaped.splits)
  obtain scopes where "declared_isolation_scopes d = Inr scopes"
    "isolation_scope_value (effective_isolation_scope r s) \<in> scopes"
    using lim(10) by (auto simp: check_scope_def bindE_eq_Inr)
  then show thesis using that d i caps lim(1-8) modes by blast
qed

lemma refusal_serving_None:
  "refusal_serving r b s = Inr None \<longleftrightarrow> refuse_unless_this_backend_can_serve r b s None = Inr ()"
  by (auto simp: refusal_serving_def split: sum.splits exc.splits)

lemma refusal_serving_Some:
  "refusal_serving r b s = Inr (Some x) \<longleftrightarrow>
   refuse_unless_this_backend_can_serve r b s None = Inl (Attach x)"
  by (auto simp: refusal_serving_def split: sum.splits exc.splits)

text \<open>The walk along the candidates, exactly.\<close>

lemma route_from_served:
  "route_from r s passed bs = Inr (Some b, out) \<Longrightarrow>
   \<exists>pre post xs. bs = pre @ b # post \<and> out = passed @ zip pre xs \<and> length xs = length pre
     \<and> list_all2 (\<lambda>q x. refusal_serving r q s = Inr (Some x)) pre xs
     \<and> refusal_serving r b s = Inr None"
proof (induction r s passed bs rule: route_from.induct)
  case (2 r s passed q bs)
  then obtain ref where ref: "refusal_serving r q s = Inr ref" by (auto simp: bindE_eq_Inr)
  show ?case
  proof (cases ref)
    case None
    then have "q = b \<and> out = passed" using 2(2) ref by simp
    then show ?thesis using ref None by (intro exI [of _ "[]"] exI [of _ bs]) simp
  next
    case (Some x)
    then have "route_from r s (passed @ [(q, x)]) bs = Inr (Some b, out)" using 2(2) ref by simp
    from 2(1) [OF this] obtain pre post xs where IH:
      "bs = pre @ b # post" "out = (passed @ [(q, x)]) @ zip pre xs" "length xs = length pre"
      "list_all2 (\<lambda>q x. refusal_serving r q s = Inr (Some x)) pre xs"
      "refusal_serving r b s = Inr None" by blast
    show ?thesis
      by (rule exI [of _ "q # pre"], rule exI [of _ post], rule exI [of _ "x # xs"])
        (use IH ref Some in auto)
  qed
qed simp

lemma route_from_none:
  "route_from r s passed bs = Inr (None, out) \<Longrightarrow> \<forall>b \<in> set bs. \<exists>x. refusal_serving r b s = Inr (Some x)"
proof (induction r s passed bs rule: route_from.induct)
  case (2 r s passed q bs)
  then show ?case by (auto simp: bindE_eq_Inr split: option.splits)
qed simp

lemma route_from_out: "route_from r s passed bs = Inr (None, out) \<Longrightarrow> map fst out = map fst passed @ bs"
proof (induction r s passed bs rule: route_from.induct)
  case (2 r s passed q bs)
  then show ?case by (fastforce simp: bindE_eq_Inr split: option.splits)
qed auto

text \<open>The preference order is the registration order, channels permitting.\<close>

lemma mapE_length: "mapE f xs = Inr ys \<Longrightarrow> length ys = length xs"
  by (auto simp: mapE_eq_Inr dest: list_all2_lengthD)

lemma program_candidates_perm:
  assumes "program_candidates r s = Inr bs"
  shows "mset bs = mset (r_candidates r)"
proof (cases "program s = None")
  case False
  then obtain ranks where ranks: "mapE (channel_rank r s) (r_candidates r) = Inr ranks"
    and bs: "bs = map snd (sort_key fst (zip ranks (r_candidates r)))"
    using assms by (auto simp: program_candidates_def bindE_eq_Inr)
  have "mset bs = image_mset snd (mset (zip ranks (r_candidates r)))"
    by (simp add: bs)
  also have "\<dots> = mset (map snd (zip ranks (r_candidates r)))" by simp
  finally show ?thesis using mapE_length [OF ranks] by (simp add: map_snd_zip)
qed (use assms in \<open>simp add: program_candidates_def\<close>)

lemma program_candidates_set: "program_candidates r s = Inr bs \<Longrightarrow> set bs = set (r_candidates r)"
  by (metis program_candidates_perm mset_eq_setD)

lemma served_inv:
  assumes "refuse_unless_backend_can_serve r s = Inr b"
  shows "b \<in> set (r_candidates r)" and "refuse_unless_this_backend_can_serve r b s None = Inr ()"
    and "refuse_host_denials r s = Inr ()" and "\<not> (egress s = ALLOWLIST \<and> egress_allow s = [])"
proof -
  note steps = assms [unfolded refuse_unless_backend_can_serve_def bindE_eq_Inr raiseIf_eq_Inr]
  have checks: "refuse_host_denials r s = Inr ()" "\<not> (egress s = ALLOWLIST \<and> egress_allow s = [])"
    using steps by auto
  obtain p where p: "route r s = Inr p"
    "(case p of (served, passed) \<Rightarrow>
       case served of None \<Rightarrow> Inl (nothing_can_serve passed) | Some b \<Rightarrow> Inr b) = Inr b"
    using steps by blast
  then obtain out where route: "route r s = Inr (Some b, out)"
    by (cases p; cases "fst p") simp_all
  from checks show "refuse_host_denials r s = Inr ()" "\<not> (egress s = ALLOWLIST \<and> egress_allow s = [])"
    by simp_all
  obtain bs where bs: "program_candidates r s = Inr bs" "route_from r s [] bs = Inr (Some b, out)"
    using route by (auto simp: route_def bindE_eq_Inr)
  obtain pre post where "bs = pre @ b # post" using route_from_served [OF bs(2)] by blast
  then have "b \<in> set bs" by simp
  then show "b \<in> set (r_candidates r)" using program_candidates_set [OF bs(1)] by simp
  show "refuse_unless_this_backend_can_serve r b s None = Inr ()"
    using route_from_served [OF bs(2)] refusal_serving_None by blast
qed

subsection \<open>What construction leaves behind\<close>

lemma resolve_backend_cong:
  assumes "r_min_isolation r = r_min_isolation q" and "r_max_identity_scope r = r_max_identity_scope q"
  shows "resolve_backend a r = resolve_backend a q"
proof -
  have same: "refuse_identity_scope r = refuse_identity_scope q"
    using assms(2) by (simp add: refuse_identity_scope_def fun_eq_iff)
  show ?thesis unfolding resolve_backend_def assms(1) same ..
qed

lemma bindE_InrE:
  "bindE m f = Inr y \<Longrightarrow> (\<And>x. m = Inr x \<Longrightarrow> f x = Inr y \<Longrightarrow> P) \<Longrightarrow> P"
  by (cases m) simp_all

lemma router_config_inv:
  assumes "router_config a = Inr q"
  shows "r_backends q = a_backends a" and "r_candidates q = []" and "r_backend q = None"
    and "r_selection q = PER_SPEC \<longrightarrow> a_selected a = None"
  using assms unfolding router_config_def
  by (elim bindE_InrE; simp only: raiseIf_eq_Inr sum.inject; hypsubst; simp; fail)+

lemma router_init_inv:
  assumes "router_init a = Inr r"
  shows "r_backends r = a_backends a
    \<and> (if r_selection r = PER_SPEC
       then a_selected a = None \<and> r_backend r = None
         \<and> eligible (a_backends a) (r_min_isolation r) = Inr (r_candidates r)
       else resolve_backend a r = Inr (r_backend r)
         \<and> r_candidates r = (case r_backend r of None \<Rightarrow> [] | Some b \<Rightarrow> [b]))"
proof -
  obtain q where q: "router_config a = Inr q" using assms by (auto simp: router_init_def bindE_eq_Inr)
  then have conf: "r_backends q = a_backends a" "r_candidates q = []" "r_backend q = None"
    "r_selection q = PER_SPEC \<longrightarrow> a_selected a = None"
    using router_config_inv by blast+
  show ?thesis
  proof (cases "r_selection q = PER_SPEC")
    case True
    then obtain bs where el: "eligible (a_backends a) (r_min_isolation q) = Inr bs"
      and r: "r = q\<lparr>r_candidates := bs\<rparr>"
      using assms q by (auto simp: router_init_def bindE_eq_Inr)
    show ?thesis using True conf el by (simp add: r)
  next
    case False
    then obtain b where res: "resolve_backend a q = Inr b"
      and r: "r = q\<lparr>r_backend := b, r_candidates := (case b of None \<Rightarrow> [] | Some x \<Rightarrow> [x])\<rparr>"
      using assms q by (auto simp: router_init_def bindE_eq_Inr)
    have "resolve_backend a r = Inr b"
      unfolding res [symmetric] by (rule resolve_backend_cong) (simp_all add: r)
    then show ?thesis using False conf by (simp add: r)
  qed
qed

lemma eligible_inv:
  assumes "eligible bs lowest = Inr cs"
  shows "cs = bs" and "b \<in> set bs \<Longrightarrow> read_every_field b = Inr ()"
    and "b \<in> set bs \<Longrightarrow> \<exists>i. declared_isolation b = Inr i"
    and "bs \<noteq> [] \<Longrightarrow> \<exists>b \<in> set bs. \<exists>i. declared_isolation b = Inr i \<and> lowest \<le> i"
proof -
  show "cs = bs" using assms by (auto simp: eligible_def bindE_eq_Inr split: list.splits)
  show "b \<in> set bs \<Longrightarrow> read_every_field b = Inr ()"
    using assms by (auto simp: eligible_def bindE_eq_Inr each_eq_Inr split: list.splits)
  show "b \<in> set bs \<Longrightarrow> \<exists>i. declared_isolation b = Inr i"
    using assms
    by (cases bs) (auto simp: eligible_def bindE_eq_Inr mapE_eq_Inr list_all2_conv_all_nth in_set_conv_nth)
  show "bs \<noteq> [] \<Longrightarrow> \<exists>b \<in> set bs. \<exists>i. declared_isolation b = Inr i \<and> lowest \<le> i"
  proof -
    assume "bs \<noteq> []"
    then obtain rungs where rungs: "mapE declared_isolation bs = Inr rungs"
      and some: "\<exists>i \<in> set rungs. lowest \<le> i"
      using assms by (cases bs) (auto simp: eligible_def bindE_eq_Inr meets_floor_le)
    then show ?thesis
      by (fastforce simp: mapE_eq_Inr list_all2_conv_all_nth in_set_conv_nth)
  qed
qed

lemma per_spec_candidates:
  "router_init a = Inr r \<Longrightarrow> r_selection r = PER_SPEC \<Longrightarrow> r_candidates r = a_backends a"
  using router_init_inv [of a r] eligible_inv(1) by fastforce

subsection \<open>A host to look at\<close>

definition sample_declarations :: declarations where
  "sample_declarations = default_declarations
     \<lparr>d_capabilities := Shaped {''exec'', ''files_in'', ''snapshot''},
      d_egress_modes := Shaped {''closed'', ''allowlist''},
      d_os_families := Shaped {Family POSIX},
      d_isolation_scopes := Shaped {''conversation'', ''call''}\<rparr>"

definition sample_backend :: backend where
  "sample_backend = \<lparr>b_id = 1, b_name = ''docker'', b_isolation = ''hardened_container'',
     b_superseded = [], b_declarations = Declared sample_declarations\<rparr>"

definition weak_backend :: backend where
  "weak_backend = \<lparr>b_id = 2, b_name = ''process'', b_isolation = ''os_process'',
     b_superseded = [], b_declarations = Declared sample_declarations\<rparr>"

definition sample_router_args :: router_args where
  "sample_router_args = \<lparr>a_backends = [weak_backend, sample_backend], a_min_isolation = ''container'',
     a_min_scope = ''conversation'', a_min_cleanup = ''reclaim'', a_max_identity_scope = ''none'',
     a_selected = None, a_selection = ''per_spec'', a_channel_preference = [''exec'', ''runtime''],
     a_denied_capabilities = [''host_tools''], a_denied_identities = [''user''],
     a_reclaim_timeout = Timeout 30\<rparr>"

definition sample_router :: router where
  "sample_router = projr (router_init sample_router_args)"

definition plain_args :: spec_args where
  "plain_args = sample_args\<lparr>requires := {EXEC, FILES_IN}, arg_egress_allow := Entries [],
     arg_egress := ''closed'', arg_isolation_scope := ''conversation'',
     arg_min_cleanup := None, arg_max_identity_scope := None,
     arg_max_identity_retention := No_seconds\<rparr>"

definition plain_spec :: sandbox_spec where
  "plain_spec = projr (spec_post_init plain_args)"

lemma sample_router_built: "router_init sample_router_args = Inr sample_router"
proof -
  have "\<not> isl (router_init sample_router_args)" by code_simp
  then show ?thesis by (simp add: sample_router_def)
qed

lemma sample_per_spec: "r_selection sample_router = PER_SPEC"
  by code_simp

lemma plain_spec_built: "spec_post_init plain_args = Inr plain_spec"
  unfolding plain_spec_def by code_simp

text \<open>The backend that serves, told apart from the others by its identity.\<close>

lemma sample_served:
  obtains b where "refuse_unless_backend_can_serve sample_router plain_spec = Inr b" and "b_id b = 1"
proof -
  have "map_sum id b_id (refuse_unless_backend_can_serve sample_router plain_spec) = Inr 1"
    by code_simp
  then show thesis
    using that by (cases "refuse_unless_backend_can_serve sample_router plain_spec") simp_all
qed

subsection \<open>What a served workload is guaranteed\<close>

text \<open>
  C2: A workload is served behind a boundary no weaker than the host's floor and no weaker than
  its own, in exactly the network mode it declares, and at a sharing scope that is at least as
  strict as both floors and that the backend says it enforces.
\<close>

theorem served_within_the_boundary:
  assumes "refuse_unless_backend_can_serve r s = Inr b"
  shows "b \<in> set (r_candidates r) \<and>
    (\<exists>d i modes scopes sc. declarations_of b = Inr d \<and> b_isolation b = isolation_value i
      \<and> r_min_isolation r \<le> i \<and> (\<forall>m. min_isolation s = Some m \<longrightarrow> m \<le> i)
      \<and> d_egress_modes d = Shaped modes \<and> egress_value (egress s) \<in> modes
      \<and> declared_isolation_scopes d = Inr scopes \<and> isolation_scope_value sc \<in> scopes
      \<and> r_min_scope r \<le> sc \<and> isolation_scope s \<le> sc)"
proof -
  from served_inv(2) [OF assms] obtain d i modes scopes where
    d: "declarations_of b = Inr d" "declared_isolation b = Inr i" "effective_floor r s \<le> i"
    "d_egress_modes d = Shaped modes" "egress_value (egress s) \<in> modes"
    "declared_isolation_scopes d = Inr scopes"
    "isolation_scope_value (effective_isolation_scope r s) \<in> scopes"
    by (rule serves_inv)
  have "r_min_isolation r \<le> i"
    using d(3) isolation_floor.host_kept [of r s] by (rule order_trans [rotated])
  moreover have "\<forall>m. min_isolation s = Some m \<longrightarrow> m \<le> i"
    using d(3) isolation_floor.asked_kept [of s _ r] order_trans by blast
  moreover have "r_min_scope r \<le> effective_isolation_scope r s"
    by (rule scope_floor.host_kept)
  moreover have "isolation_scope s \<le> effective_isolation_scope r s"
    by (rule scope_floor.asked_kept) simp
  moreover have "b_isolation b = isolation_value i" using d(2) by (simp only: declared_isolation_eq)
  ultimately show ?thesis using d served_inv(1) [OF assms] by blast
qed

theorem served_within_the_boundary_witness:
  "\<exists>b. b \<in> set (r_candidates sample_router) \<and> (\<exists>i. b_isolation b = isolation_value i \<and> CONTAINER \<le> i)"
proof -
  obtain b where "refuse_unless_backend_can_serve sample_router plain_spec = Inr b"
    by (rule sample_served)
  moreover have "r_min_isolation sample_router = CONTAINER" by code_simp
  ultimately show ?thesis using served_within_the_boundary by metis
qed



text \<open>
  C27: Attached authority is never ambient.  Where the backend that serves attaches an identity,
  the workload asked for it, the sharing is within the host's and the workload's ceilings, the
  lifetime within the workload's bound, and the channels are exactly those its rules bound;
  where the workload did not ask, nothing is attached.
\<close>

theorem attached_authority_is_bounded:
  assumes "refuse_unless_backend_can_serve r s = Inr b"
  shows "\<exists>d. declarations_of b = Inr d \<and>
    (let att = attachment d in
      (ATTACHED_IDENTITY \<notin> requires s \<longrightarrow> att_scope att = NO_IDENTITY)
      \<and> identity_scope_rank (att_scope att) \<le> identity_scope_rank (r_max_identity_scope r)
      \<and> (att_scope att \<noteq> NO_IDENTITY \<longrightarrow>
           (\<exists>m. max_identity_scope s = Some m
              \<and> identity_scope_rank (att_scope att) \<le> identity_scope_rank m)
           \<and> (\<exists>n m. auto_delete_seconds att = Some n \<and> max_identity_retention s = Seconds m \<and> n \<le> m)
           \<and> att_channels att = authority_channels s))"
proof -
  from served_inv(2) [OF assms] obtain d where
    d: "declarations_of b = Inr d" "check_attachment r (attachment d) s = Inr ()"
    by (rule serves_inv)
  have host: "identity_scope_rank (att_scope (attachment d)) \<le> identity_scope_rank (r_max_identity_scope r)"
    using d(2) by (auto simp: check_attachment_def refuse_identity_scope_def bindE_eq_Inr)
  have bounds: "ATTACHED_IDENTITY \<in> requires s
      \<and> (\<exists>m. max_identity_scope s = Some m
           \<and> identity_scope_rank (att_scope (attachment d)) \<le> identity_scope_rank m)
      \<and> (\<exists>n m. auto_delete_seconds (attachment d) = Some n \<and> max_identity_retention s = Seconds m \<and> n \<le> m)
      \<and> att_channels (attachment d) = authority_channels s"
    if "att_scope (attachment d) \<noteq> NO_IDENTITY"
    using d(2) that
    by (auto simp: check_attachment_def bindE_eq_Inr split: option.splits seconds_arg.splits)
  show ?thesis
    by (rule exI [of _ d]) (use d(1) host bounds in \<open>auto simp: Let_def\<close>)
qed

theorem attached_authority_is_bounded_witness:
  "\<exists>b d. refuse_unless_backend_can_serve sample_router plain_spec = Inr b \<and> declarations_of b = Inr d
     \<and> att_scope (attachment d) = NO_IDENTITY"
proof -
  obtain b where b: "refuse_unless_backend_can_serve sample_router plain_spec = Inr b"
    by (rule sample_served)
  have "ATTACHED_IDENTITY \<notin> requires plain_spec" by code_simp
  then show ?thesis using attached_authority_is_bounded [OF b] b by (auto simp: Let_def)
qed

text \<open>
  No transfer cap is silently clamped.  A served workload's caps, or the whole demand of the
  program channel chosen for it, are at or below the backend's ceilings in every field and both
  directions, and a program is served only through a channel that knows its profile.
\<close>

theorem served_within_the_ceilings:
  assumes "refuse_unless_backend_can_serve r s = Inr b"
  shows "\<exists>d ceil asked channel. declarations_of b = Inr d \<and> d_limits d = Shaped ceil
    \<and> channel_for r b s = Inr channel \<and> asked_limits s channel = Inr asked
    \<and> within_limits (limits_in asked) (limits_in ceil) \<and> within_limits (limits_out asked) (limits_out ceil)
    \<and> (case program s of
         None \<Rightarrow> channel = None \<and> limits_in asked = files_in s \<and> limits_out asked = files_out s
       | Some p \<Rightarrow> (\<exists>c. channel = Some c \<and> profile p \<in> ch_profiles c
           \<and> (needs_host_tools s \<longrightarrow> ch_host_tools c)
           \<and> ch_required c s \<inter> r_denied_capabilities r = {}))"
proof -
  from served_inv(2) [OF assms] obtain d caps ceil channel asked where
    d: "declarations_of b = Inr d" "declared_limits d = Inr ceil"
    "(case None of Some c \<Rightarrow> Inr (Some c) | None \<Rightarrow> channel_for r b s) = Inr channel"
    "check_channel r caps s channel = Inr ()"
    "asked_limits s channel = Inr asked" "check_limits asked ceil = Inr ()"
    by (rule serves_inv)
  have ch: "channel_for r b s = Inr channel" using d(3) by simp
  have "d_limits d = Shaped ceil"
    using d(2) by (auto simp: declared_limits_def split: shaped.splits)
  moreover have "within_limits (limits_in asked) (limits_in ceil)"
    "within_limits (limits_out asked) (limits_out ceil)"
    using d(6) by (auto simp: check_limits_def)
  moreover have "case program s of
         None \<Rightarrow> channel = None \<and> limits_in asked = files_in s \<and> limits_out asked = files_out s
       | Some p \<Rightarrow> (\<exists>c. channel = Some c \<and> profile p \<in> ch_profiles c
           \<and> (needs_host_tools s \<longrightarrow> ch_host_tools c)
           \<and> ch_required c s \<inter> r_denied_capabilities r = {})"
  proof (cases "program s")
    case None
    then have "channel = None" using ch by (auto simp: channel_for_def split: if_splits)
    then show ?thesis using None d(5) by (auto simp: asked_limits_def)
  next
    case (Some p)
    then obtain c where "channel = Some c"
      using ch by (auto simp: channel_for_def bindE_eq_Inr split: option.splits)
    then show ?thesis using Some d(4) by (auto simp: check_channel_def)
  qed
  ultimately show ?thesis using d(1,5) ch by blast
qed

theorem served_within_the_ceilings_witness:
  "\<exists>b (asked :: sandbox_limits). refuse_unless_backend_can_serve sample_router plain_spec = Inr b
     \<and> within_limits (limits_in asked) (limits_in default_sandbox_limits)
     \<and> limits_in asked = files_in plain_spec"
proof -
  obtain b where b: "refuse_unless_backend_can_serve sample_router plain_spec = Inr b"
    by (rule sample_served)
  have prog: "program plain_spec = None" by code_simp
  have dflt: "files_in plain_spec = limits_in default_sandbox_limits" by code_simp
  obtain asked :: sandbox_limits where "limits_in asked = files_in plain_spec"
    using served_within_the_ceilings [OF b] prog by auto
  then have "within_limits (limits_in asked) (limits_in default_sandbox_limits)
      \<and> limits_in asked = files_in plain_spec"
    using dflt by simp
  then show ?thesis using b by blast
qed


subsection \<open>Which backend serves\<close>

text \<open>
  Routing takes the first backend that can serve.  The backends are tried in the preference
  order, every one ahead of the chosen one was asked and refused this spec, with the refusal
  recorded beside it, and when none is chosen every one refused.
\<close>

theorem route_takes_the_first_able:
  assumes "program_candidates r s = Inr bs" and "route r s = Inr (served, passed)"
  shows "case served of
      Some b \<Rightarrow> (\<exists>pre post. bs = pre @ b # post \<and> map fst passed = pre
        \<and> refuse_unless_this_backend_can_serve r b s None = Inr ()
        \<and> (\<forall>(q, x) \<in> set passed. refuse_unless_this_backend_can_serve r q s None = Inl (Attach x)))
    | None \<Rightarrow> map fst passed = bs
        \<and> (\<forall>q \<in> set bs. \<exists>x. refuse_unless_this_backend_can_serve r q s None = Inl (Attach x))"
proof (cases served)
  case None
  then have "route_from r s [] bs = Inr (None, passed)" using assms by (simp add: route_def)
  then show ?thesis
    using None route_from_none route_from_out by (fastforce simp: refusal_serving_Some)
next
  case (Some b)
  then have "route_from r s [] bs = Inr (Some b, passed)" using assms by (simp add: route_def)
  from route_from_served [OF this] obtain pre post xs where
    bs: "bs = pre @ b # post" and out: "passed = zip pre xs" and len: "length xs = length pre"
    and ref: "list_all2 (\<lambda>q x. refusal_serving r q s = Inr (Some x)) pre xs"
    and ok: "refusal_serving r b s = Inr None" by auto
  have "map fst passed = pre" using out len by simp
  moreover have "\<forall>(q, x) \<in> set passed. refuse_unless_this_backend_can_serve r q s None = Inl (Attach x)"
    using ref unfolding out list_all2_iff by (auto simp: refusal_serving_Some)
  ultimately show ?thesis using Some bs ok by (auto simp: refusal_serving_None)
qed

theorem route_takes_the_first_able_witness:
  "\<exists>b passed. route sample_router plain_spec = Inr (Some b, passed) \<and> map fst passed = [weak_backend]"
proof -
  have cands: "program_candidates sample_router plain_spec = Inr [weak_backend, sample_backend]"
  proof -
    have "program plain_spec = None" by code_simp
    moreover have "r_candidates sample_router = [weak_backend, sample_backend]"
      using per_spec_candidates [OF sample_router_built] sample_per_spec
      by (simp add: sample_router_args_def)
    ultimately show ?thesis by (simp add: program_candidates_def)
  qed
  have "(case route sample_router plain_spec of Inr (Some b, ps) \<Rightarrow> length ps = 1 | _ \<Rightarrow> False)"
    by code_simp
  then obtain b ps where route: "route sample_router plain_spec = Inr (Some b, ps)" "length ps = 1"
    by (auto split: sum.splits option.splits)
  obtain pre post where "[weak_backend, sample_backend] = pre @ b # post" "map fst ps = pre"
    using route_takes_the_first_able [OF cands route(1)] by auto
  then have "map fst ps = [weak_backend]"
    using route(2) by (cases pre) (auto simp: length_Suc_conv Cons_eq_append_conv)
  then show ?thesis using route(1) by metis
qed

text \<open>
  The preference order is the registration order.  For a spec with no program the candidates
  are tried as registered; for one with a program they are sorted by the rank of the channel
  each would use, backends of one rank staying in registration order.
\<close>

theorem preference_is_registration_order:
  assumes "program_candidates r s = Inr bs"
  shows "(program s = None \<longrightarrow> bs = r_candidates r) \<and> mset bs = mset (r_candidates r)
    \<and> (program s \<noteq> None \<longrightarrow> (\<exists>ranks. mapE (channel_rank r s) (r_candidates r) = Inr ranks
         \<and> (\<exists>pairs. bs = map snd pairs \<and> sorted (map fst pairs)
              \<and> (\<forall>k. filter (\<lambda>p. fst p = k) pairs = filter (\<lambda>p. fst p = k) (zip ranks (r_candidates r))))))"
proof -
  have "\<exists>ranks. mapE (channel_rank r s) (r_candidates r) = Inr ranks
         \<and> (\<exists>pairs. bs = map snd pairs \<and> sorted (map fst pairs)
              \<and> (\<forall>k. filter (\<lambda>p. fst p = k) pairs = filter (\<lambda>p. fst p = k) (zip ranks (r_candidates r))))"
    if prog: "program s \<noteq> None"
  proof -
    obtain ranks where ranks: "mapE (channel_rank r s) (r_candidates r) = Inr ranks"
      and bs: "bs = map snd (sort_key fst (zip ranks (r_candidates r)))"
      using assms prog by (auto simp: program_candidates_def bindE_eq_Inr)
    have "sorted (map fst (sort_key fst (zip ranks (r_candidates r))))" by simp
    moreover have "filter (\<lambda>p. fst p = k) (sort_key fst (zip ranks (r_candidates r)))
        = filter (\<lambda>p. fst p = k) (zip ranks (r_candidates r))" for k
      using sort_key_stable [of fst k "zip ranks (r_candidates r)"] by simp
    ultimately show ?thesis using ranks bs by blast
  qed
  moreover have "program s = None \<longrightarrow> bs = r_candidates r"
    using assms by (auto simp: program_candidates_def)
  ultimately show ?thesis using program_candidates_perm [OF assms] by blast
qed

theorem preference_is_registration_order_witness:
  "program plain_spec = None \<and>
   (\<exists>bs. program_candidates sample_router plain_spec = Inr bs \<and> bs = r_candidates sample_router)"
proof -
  have prog: "program plain_spec = None" by code_simp
  then have "program_candidates sample_router plain_spec = Inr (r_candidates sample_router)"
    by (simp add: program_candidates_def)
  then show ?thesis using preference_is_registration_order prog by blast
qed




subsection \<open>What a router that exists has checked\<close>

lemma declared_set_eq: "declared_set x = Inr v \<longleftrightarrow> x = Shaped v"
  by (cases x) (simp_all add: declared_set_def)

lemma declared_limits_eq: "declared_limits d = Inr v \<longleftrightarrow> d_limits d = Shaped v"
  by (cases "d_limits d") (simp_all add: declared_limits_def)

lemma declared_scopes_shaped: "declared_isolation_scopes d = Inr v \<Longrightarrow> \<exists>w. d_isolation_scopes d = Shaped w"
  by (auto simp: declared_isolation_scopes_def bindE_eq_Inr declared_set_eq)

lemma read_every_field_inv:
  assumes "read_every_field b = Inr u"
  shows "\<exists>d caps modes scopes ceil. declarations_of b = Inr d \<and> d_capabilities d = Shaped caps
    \<and> d_egress_modes d = Shaped modes \<and> d_egress_method_tokens d \<noteq> Some Misshapen
    \<and> d_isolation_scopes d = Shaped scopes \<and> d_limits d = Shaped ceil"
proof -
  note steps = assms [unfolded read_every_field_def bindE_eq_Inr declared_set_eq declared_limits_eq]
  obtain d caps modes scopes ceil where d: "declarations_of b = Inr d" "d_capabilities d = Shaped caps"
    "d_egress_modes d = Shaped modes" "declared_isolation_scopes d = Inr scopes" "d_limits d = Shaped ceil"
    "\<exists>x. (case d_egress_method_tokens d of None \<Rightarrow> Inr {} | Some t \<Rightarrow> declared_set t) = Inr x"
    using steps by blast
  then have "d_egress_method_tokens d \<noteq> Some Misshapen" by (auto simp: declared_set_eq)
  then show ?thesis using d declared_scopes_shaped [OF d(4)] by blast
qed

text \<open>
  A router that could be constructed is not quietly unsafe.  Under fixed selection its one
  backend is registered, is the first or the pinned one, has readable declarations and a known
  rung at or above the host's floor, and attaches no identity beyond the host's ceiling; under
  per-spec selection there is no pin, every registered backend is readable in every field the
  checks read, and one of them clears the floor.
\<close>

theorem constructed_router_is_sound:
  assumes "router_init a = Inr r"
  shows "if r_selection r = PER_SPEC
    then a_selected a = None \<and> r_candidates r = a_backends a
      \<and> (\<forall>b \<in> set (a_backends a). (\<exists>i. b_isolation b = isolation_value i)
          \<and> (\<exists>d caps modes scopes ceil. declarations_of b = Inr d \<and> d_capabilities d = Shaped caps
              \<and> d_egress_modes d = Shaped modes \<and> d_egress_method_tokens d \<noteq> Some Misshapen
              \<and> d_isolation_scopes d = Shaped scopes \<and> d_limits d = Shaped ceil))
      \<and> (a_backends a \<noteq> [] \<longrightarrow> (\<exists>b \<in> set (a_backends a). \<exists>i. b_isolation b = isolation_value i
          \<and> r_min_isolation r \<le> i))
    else (case a_backends a of
        [] \<Rightarrow> r_candidates r = []
      | first # _ \<Rightarrow> (\<exists>b i d. r_candidates r = [b] \<and> b \<in> set (a_backends a)
          \<and> (case a_selected a of None \<Rightarrow> b = first | Some n \<Rightarrow> b_name b = n)
          \<and> b_isolation b = isolation_value i \<and> r_min_isolation r \<le> i
          \<and> declarations_of b = Inr d
          \<and> identity_scope_rank (att_scope (attachment d)) \<le> identity_scope_rank (r_max_identity_scope r)))"
proof (cases "r_selection r = PER_SPEC")
  case True
  then have el: "eligible (a_backends a) (r_min_isolation r) = Inr (r_candidates r)"
    and "a_selected a = None"
    using router_init_inv [OF assms] by simp_all
  note e = eligible_inv [OF el]
  have "\<exists>i. b_isolation b = isolation_value i" if "b \<in> set (a_backends a)" for b
    using e(3) [OF that] by (simp add: declared_isolation_eq)
  moreover have "a_backends a \<noteq> [] \<longrightarrow> (\<exists>b \<in> set (a_backends a). \<exists>i. b_isolation b = isolation_value i
          \<and> r_min_isolation r \<le> i)"
    using e(4) by (simp add: declared_isolation_eq)
  ultimately show ?thesis
    using True \<open>a_selected a = None\<close> e(1) e(2) read_every_field_inv by simp
next
  case False
  then have res: "resolve_backend a r = Inr (r_backend r)"
    and cands: "r_candidates r = (case r_backend r of None \<Rightarrow> [] | Some b \<Rightarrow> [b])"
    using router_init_inv [OF assms] by simp_all
  show ?thesis
  proof (cases "a_backends a")
    case Nil
    then show ?thesis using False res cands by (simp add: resolve_backend_def)
  next
    case (Cons first rest)
    then obtain b d i where
      pick: "(case a_selected a of None \<Rightarrow> Inr first | Some n \<Rightarrow>
          (case filter (\<lambda>b. b_name b = n) (a_backends a) of [] \<Rightarrow> Inl NoSandboxBackend | b # _ \<Rightarrow> Inr b)) = Inr b"
      and b: "r_backend r = Some b" "declarations_of b = Inr d" "declared_isolation b = Inr i"
        "refuse_identity_scope r (attachment d) = Inr ()" "r_min_isolation r \<le> i"
      using res by (auto simp: resolve_backend_def bindE_eq_Inr meets_floor_le)
    have named: "b \<in> set (a_backends a) \<and> (case a_selected a of None \<Rightarrow> b = first | Some n \<Rightarrow> b_name b = n)"
    proof (cases "a_selected a")
      case None
      then show ?thesis using pick Cons by simp
    next
      case (Some n)
      then obtain qs where "filter (\<lambda>b. b_name b = n) (a_backends a) = b # qs"
        using pick by (auto split: list.splits)
      then have "b \<in> set (filter (\<lambda>b. b_name b = n) (a_backends a))" by simp
      then show ?thesis using Some by simp
    qed
    have "identity_scope_rank (att_scope (attachment d)) \<le> identity_scope_rank (r_max_identity_scope r)"
      using b(4) by (simp add: refuse_identity_scope_def)
    then show ?thesis
      using False Cons cands b named by (auto simp: declared_isolation_eq)
  qed
qed

theorem constructed_router_is_sound_witness:
  "list_all (\<lambda>b. \<exists>i. b_isolation b = isolation_value i) (a_backends sample_router_args)"
  using constructed_router_is_sound [OF sample_router_built] sample_per_spec by (simp add: list_all_iff)

text \<open>Where the choice of a channel can fail, and what it can choose.\<close>

lemma pick_channel_chosen:
  "pick_channel r d ceil s prog first pairs = Inr (Some c) \<Longrightarrow> first = Some c \<or> c \<in> snd ` set pairs"
proof (induction pairs arbitrary: first)
  case (Cons p ps)
  obtain mode x where p: "p = (mode, x)" by (cases p)
  obtain fits where fits: "channel_fits r d s prog mode x = Inr fits"
    using Cons.prems by (auto simp: p bindE_eq_Inr)
  let ?first = "case first of None \<Rightarrow> Some x | Some f \<Rightarrow> Some f"
  consider "pick_channel r d ceil s prog first ps = Inr (Some c)"
    | "pick_channel r d ceil s prog ?first ps = Inr (Some c)" | "x = c"
    using Cons.prems fits by (auto simp: p Let_def split: if_splits sum.splits)
  then show ?case
  proof cases
    case 1
    then show ?thesis using Cons.IH [OF 1] by auto
  next
    case 2
    then show ?thesis using Cons.IH [OF 2] by (cases first) (auto simp: p)
  qed (simp add: p)
qed simp

lemma pick_channel_error:
  "pick_channel r d ceil s prog first pairs = Inl e \<Longrightarrow>
   e = TypeError \<or> (\<exists>c \<in> snd ` set pairs. ch_limits c s = Inl e)"
proof (induction pairs arbitrary: first)
  case (Cons p ps)
  obtain mode x where p: "p = (mode, x)" by (cases p)
  let ?first = "case first of None \<Rightarrow> Some x | Some f \<Rightarrow> Some f"
  consider "channel_fits r d s prog mode x = Inl e"
    | "pick_channel r d ceil s prog first ps = Inl e"
    | "pick_channel r d ceil s prog ?first ps = Inl e" | "ch_limits x s = Inl e"
    using Cons.prems
    by (cases "channel_fits r d s prog mode x") (auto simp: p Let_def split: if_splits sum.splits)
  then show ?case
  proof cases
    case 1
    then show ?thesis by (auto simp: channel_fits_def split: if_splits shaped.splits)
  next
    case 2
    then show ?thesis using Cons.IH [OF 2] by auto
  next
    case 3
    then show ?thesis using Cons.IH [OF 3] by auto
  qed (simp add: p)
qed simp

lemma channel_for_chosen:
  assumes "channel_for r b s = Inr (Some c)" and "declarations_of b = Inr d"
  shows "c \<in> set (d_program_channels d)"
proof -
  obtain prog where prog: "program s = Some prog"
    using assms(1) by (cases "program s") (auto simp: channel_for_def split: if_splits)
  then obtain ceil first where
    pick: "pick_channel r d ceil s prog None
      (List.product (r_channel_preference r) (d_program_channels d)) = Inr first"
    and first: "(case first of None \<Rightarrow> Inl (Attach CapabilityNotSupported) | Some c \<Rightarrow> Inr (Some c)) = Inr (Some c)"
    using assms by (auto simp: channel_for_def bindE_eq_Inr)
  then have "first = Some c" by (cases first) simp_all
  then show ?thesis using pick_channel_chosen pick by fastforce
qed

lemma channel_for_error:
  assumes "channel_for r b s = Inl e" and "declarations_of b = Inr d" and "d_limits d = Shaped ceil"
  shows "e = Attach CapabilityNotSupported \<or> e = TypeError
    \<or> (\<exists>c \<in> set (d_program_channels d). ch_limits c s = Inl e)"
proof (cases "program s")
  case None
  then show ?thesis using assms(1) by (auto simp: channel_for_def split: if_splits)
next
  case (Some prog)
  let ?pick = "pick_channel r d ceil s prog None
      (List.product (r_channel_preference r) (d_program_channels d))"
  have "bindE ?pick (\<lambda>first. case first of None \<Rightarrow> Inl (Attach CapabilityNotSupported)
      | Some c \<Rightarrow> Inr (Some c)) = Inl e"
    using assms Some by (simp add: channel_for_def declared_limits_def)
  then show ?thesis
    using pick_channel_error by (fastforce simp: bindE_eq_Inl split: option.splits)
qed

text \<open>
  A per-spec router never routes past a declaration it cannot read.  Whatever spec a backend
  of a constructed per-spec router is asked about, its declarations are read: when it refuses
  with \<open>BackendNotPermitted\<close>, the one cause is a known rung below the resolved floor.  (Its
  channels are taken to answer a demand they cannot meet with a limits refusal only.)
\<close>

theorem refusals_are_honest:
  assumes "router_init a = Inr r" and "r_selection r = PER_SPEC" and "b \<in> set (r_candidates r)"
    and channels: "\<And>d c. declarations_of b = Inr d \<Longrightarrow> c \<in> set (d_program_channels d) \<Longrightarrow>
      ch_limits c s \<noteq> Inl (Attach BackendNotPermitted)"
    and refused: "refuse_unless_this_backend_can_serve r b s None = Inl (Attach BackendNotPermitted)"
  shows "\<exists>i. b_isolation b = isolation_value i \<and> i < effective_floor r s"
proof -
  have el: "eligible (a_backends a) (r_min_isolation r) = Inr (r_candidates r)"
    using router_init_inv [OF assms(1)] assms(2) by simp
  have mem: "b \<in> set (a_backends a)" using assms(3) eligible_inv(1) [OF el] by simp
  obtain i where i: "declared_isolation b = Inr i" using eligible_inv(3) [OF el mem] by blast
  obtain d caps modes scopes ceil where d: "declarations_of b = Inr d" "d_capabilities d = Shaped caps"
    "d_egress_modes d = Shaped modes" "d_egress_method_tokens d \<noteq> Some Misshapen"
    "d_isolation_scopes d = Shaped scopes" "d_limits d = Shaped ceil"
    using read_every_field_inv eligible_inv(2) [OF el mem] by blast
  have quiet: "check_attachment r (attachment d) s \<noteq> Inl (Attach BackendNotPermitted)"
    "check_methods d s \<noteq> Inl (Attach BackendNotPermitted)"
    "check_os_family d s \<noteq> Inl (Attach BackendNotPermitted)"
    "check_channel r caps s ch \<noteq> Inl (Attach BackendNotPermitted)"
    "check_limits asked ceil \<noteq> Inl (Attach BackendNotPermitted)"
    "check_egress d s \<noteq> Inl (Attach BackendNotPermitted)"
    "check_scope r d s \<noteq> Inl (Attach BackendNotPermitted)" for ch asked
    using d(3-5)
    by (auto simp: check_attachment_def refuse_identity_scope_def check_methods_def check_os_family_def
        check_channel_def check_limits_def check_egress_def check_scope_def declared_set_def
        declared_isolation_scopes_def bindE_eq_Inl split: option.splits shaped.splits if_splits)
  have "channel_for r b s \<noteq> Inl (Attach BackendNotPermitted)"
    using channel_for_error [OF _ d(1,6)] channels [OF d(1)] by blast
  moreover have "asked_limits s ch \<noteq> Inl (Attach BackendNotPermitted)" if "channel_for r b s = Inr ch" for ch
    using that channel_for_chosen [OF _ d(1)] channels [OF d(1)]
    by (cases ch) (auto simp: asked_limits_def)
  ultimately have "check_floor r b s = Inl (Attach BackendNotPermitted)"
    using refused quiet d(1,2,6)
    by (auto simp: refuse_unless_this_backend_can_serve_def bindE_eq_Inl declared_set_def declared_limits_def)
  then have "\<not> effective_floor r s \<le> i" using i by (simp add: check_floor_def meets_floor_le)
  then show ?thesis using i by (auto simp: declared_isolation_eq)
qed

theorem refusals_are_honest_witness:
  "\<exists>i. b_isolation weak_backend = isolation_value i \<and> i < effective_floor sample_router plain_spec"
proof (rule refusals_are_honest [OF sample_router_built sample_per_spec])
  show "weak_backend \<in> set (r_candidates sample_router)"
    using per_spec_candidates [OF sample_router_built sample_per_spec]
    by (simp add: sample_router_args_def)
  show "refuse_unless_this_backend_can_serve sample_router weak_backend plain_spec None
      = Inl (Attach BackendNotPermitted)"
    by code_simp
  show "ch_limits c plain_spec \<noteq> Inl (Attach BackendNotPermitted)"
    if "declarations_of weak_backend = Inr d" "c \<in> set (d_program_channels d)" for d c
    using that
    by (auto simp: declarations_of_def weak_backend_def sample_declarations_def
        default_declarations_def no_attached_identity_def superseded_declarations_def split: if_splits)
qed

text \<open>
  A stricter host serves nothing more.  Raising the host's isolation floor, or lowering the
  identity sharing it permits, leaves every backend's refusals in place: what the stricter
  router's backend serves, the laxer router's serves as well.
\<close>

theorem stricter_host_serves_no_more:
  assumes "r' = r\<lparr>r_min_isolation := lowest, r_max_identity_scope := widest\<rparr>"
    and "r_min_isolation r \<le> lowest"
    and "identity_scope_rank widest \<le> identity_scope_rank (r_max_identity_scope r)"
    and "refuse_unless_this_backend_can_serve r' b s pinned = Inr u"
  shows "refuse_unless_this_backend_can_serve r b s pinned = Inr ()"
proof -
  have same: "r_denied_capabilities r' = r_denied_capabilities r"
    "r_channel_preference r' = r_channel_preference r" "r_min_scope r' = r_min_scope r"
    by (simp_all add: assms(1))
  have fits: "channel_fits r' = channel_fits r"
    by (intro ext, unfold channel_fits_def same, rule refl)
  have "pick_channel r' d ceil sp prog first pairs = pick_channel r d ceil sp prog first pairs"
    for d ceil sp prog first pairs
  proof (induction pairs arbitrary: first)
    case (Cons p ps)
    obtain mode c where p: "p = (mode, c)" by (cases p)
    show ?case unfolding p pick_channel.simps fits Cons.IH ..
  qed simp
  then have pick: "pick_channel r' = pick_channel r" by (intro ext)
  have ch: "channel_for r' = channel_for r"
    by (intro ext, unfold channel_for_def same pick, rule refl)
  have chk: "check_channel r' = check_channel r"
    by (intro ext, unfold check_channel_def same, rule refl)
  have scope: "check_scope r' = check_scope r"
    by (intro ext, unfold check_scope_def effective_isolation_scope_def same, rule refl)
  have "effective_floor r s \<le> effective_floor r' s"
    by (rule isolation_floor.effective_mono) (simp add: assms(1,2))
  then have lowest: "check_floor r' b s = Inr () \<Longrightarrow> check_floor r b s = Inr ()"
    by (auto simp: check_floor_def bindE_eq_Inr meets_floor_le)
  have att: "check_attachment r' x s = Inr () \<Longrightarrow> check_attachment r x s = Inr ()" for x
    using assms(3) by (auto simp: check_attachment_def refuse_identity_scope_def bindE_eq_Inr assms(1))
  show ?thesis
    using assms(4) lowest att
    unfolding refuse_unless_this_backend_can_serve_def ch chk scope
    by (elim bindE_InrE) (auto simp: bindE_eq_Inr)
qed

theorem stricter_host_serves_no_more_witness:
  "refuse_unless_this_backend_can_serve (sample_router\<lparr>r_min_isolation := RUNTIME\<rparr>)
     sample_backend plain_spec None = Inr ()"
proof (rule stricter_host_serves_no_more [OF refl, of _ CONTAINER NO_IDENTITY])
  show "r_min_isolation (sample_router\<lparr>r_min_isolation := RUNTIME\<rparr>) \<le> CONTAINER" by code_simp
  show "identity_scope_rank NO_IDENTITY
      \<le> identity_scope_rank (r_max_identity_scope (sample_router\<lparr>r_min_isolation := RUNTIME\<rparr>))"
    by simp
  show "refuse_unless_this_backend_can_serve
      (sample_router\<lparr>r_min_isolation := RUNTIME, r_min_isolation := CONTAINER,
         r_max_identity_scope := NO_IDENTITY\<rparr>) sample_backend plain_spec None = Inr ()"
    by code_simp
qed

subsection \<open>Cleanup\<close>

lemma known_capabilities_eq: "c \<in> known_capabilities caps \<longleftrightarrow> capability_value c \<in> caps"
  using capability_enum.covered by (simp add: known_capabilities_def)

text \<open>
  Cleanup is resolved upwards.  For a served workload a rung is always resolved; it is at or
  above the host's floor and the spec's, the backend has said it can do it, no weaker rung that
  it can do meets both floors, and a sandbox of one call is always disposed of.
\<close>

theorem cleanup_is_resolved_upwards:
  assumes served: "refuse_unless_backend_can_serve r s = Inr b"
  shows "\<exists>rung. effective_cleanup r s = Inr rung
    \<and> r_min_cleanup r \<le> rung \<and> (\<forall>c. min_cleanup s = Some c \<longrightarrow> c \<le> rung)
    \<and> (effective_isolation_scope r s = CALL \<longrightarrow> rung = DISPOSE)
    \<and> (effective_isolation_scope r s \<noteq> CALL \<longrightarrow>
        (\<exists>d caps. declarations_of b = Inr d \<and> d_capabilities d = Shaped caps
          \<and> (rung = RECLAIM_RUNG \<longrightarrow> ''reclaim'' \<in> caps) \<and> (rung = RESET \<longrightarrow> ''snapshot'' \<in> caps)
          \<and> (\<forall>q. q \<in> established_cleanup (known_capabilities caps) \<and> effective_cleanup_floor r s \<le> q \<longrightarrow> rung \<le> q)))"
proof (cases "effective_isolation_scope r s = CALL")
  case True
  then have "effective_cleanup r s = Inr DISPOSE"
    using served by (simp add: effective_cleanup_def cleanup_on_def)
  then show ?thesis using True by simp
next
  case False
  from served_inv(2) [OF served] obtain d caps where
    d: "declarations_of b = Inr d" "d_capabilities d = Shaped caps" by (rule serves_inv)
  have "DISPOSE \<in> established_cleanup (known_capabilities caps)" by (simp add: established_cleanup_def)
  from resolve_cleanup_eq [OF this, of "effective_cleanup_floor r s"] obtain rung where
    rung: "resolve_cleanup (established_cleanup (known_capabilities caps)) (effective_cleanup_floor r s) = Inr rung"
    "rung \<in> established_cleanup (known_capabilities caps)" "effective_cleanup_floor r s \<le> rung"
    "\<forall>q \<in> established_cleanup (known_capabilities caps). effective_cleanup_floor r s \<le> q \<longrightarrow> rung \<le> q"
    by blast
  have "effective_cleanup r s = Inr rung"
    using served d rung(1) False by (simp add: effective_cleanup_def cleanup_on_def declared_set_def)
  moreover have "r_min_cleanup r \<le> rung"
    using cleanup_floor.host_kept [of r s] rung(3) by (rule order_trans)
  moreover have "\<forall>c. min_cleanup s = Some c \<longrightarrow> c \<le> rung"
    using cleanup_floor.asked_kept [of s _ r] rung(3) order_trans by blast
  moreover have "(rung = RECLAIM_RUNG \<longrightarrow> ''reclaim'' \<in> caps) \<and> (rung = RESET \<longrightarrow> ''snapshot'' \<in> caps)"
    using rung(2) known_capabilities_eq [of RECLAIM caps] known_capabilities_eq [of SNAPSHOT caps]
    by (auto simp: established_cleanup_def split: if_splits)
  ultimately show ?thesis using d rung(4) False by blast
qed

theorem cleanup_is_resolved_upwards_witness:
  "\<exists>rung. effective_cleanup sample_router plain_spec = Inr rung \<and> rung \<noteq> RECLAIM_RUNG"
proof -
  obtain b where b: "refuse_unless_backend_can_serve sample_router plain_spec = Inr b"
    by (rule sample_served)
  have "effective_cleanup sample_router plain_spec = Inr RESET" by code_simp
  then show ?thesis using cleanup_is_resolved_upwards [OF b] by auto
qed

subsection \<open>A question that may raise\<close>

text \<open>
  A backend whose \<open>limits\<close> cannot be read passes construction under fixed selection, which reads
  only the isolation and the attachment.
\<close>

definition unread_backend :: backend where
  "unread_backend = sample_backend\<lparr>b_declarations := Declared (sample_declarations\<lparr>d_limits := Misshapen\<rparr>)\<rparr>"

definition fixed_args :: router_args where
  "fixed_args = sample_router_args\<lparr>a_backends := [unread_backend], a_selection := ''fixed''\<rparr>"

definition program_spec :: sandbox_spec where
  "program_spec = projr (spec_post_init (plain_args\<lparr>program := Some \<lparr>profile = ''python-portable-v1'',
     max_program_bytes = 8 * mib, host_tool_timeout_seconds = 30\<rparr>\<rparr>))"

text \<open>
  C39: \<open>backend_for\<close> can raise.  Its documentation says that it refuses nothing and raises nothing;
  for a program, a router that construction accepted and a spec the constructor accepted, it
  raises the backend's limits refusal from the ranking of the candidates.
\<close>

theorem backend_for_can_raise:
  "\<exists>a r args s. router_init a = Inr r \<and> spec_post_init args = Inr s
     \<and> backend_for r s = Inl (Attach TransferLimitsNotPermitted)"
proof -
  have "\<not> isl (router_init fixed_args)" by code_simp
  then have init: "router_init fixed_args = Inr (projr (router_init fixed_args))" by simp
  have spec: "spec_post_init (plain_args\<lparr>program := Some \<lparr>profile = ''python-portable-v1'',
     max_program_bytes = 8 * mib, host_tool_timeout_seconds = 30\<rparr>\<rparr>) = Inr program_spec"
    unfolding program_spec_def by code_simp
  have "(case backend_for (projr (router_init fixed_args)) program_spec of
      Inl e \<Rightarrow> e = Attach TransferLimitsNotPermitted | Inr _ \<Rightarrow> False)"
    by code_simp
  then have "backend_for (projr (router_init fixed_args)) program_spec = Inl (Attach TransferLimitsNotPermitted)"
    by (auto split: sum.splits)
  then show ?thesis using init spec by blast
qed


end
