(* ===== verification/Slots.thy ===== *)
theory Slots
  imports Declarations
begin

text \<open>
  \<open>ExclusiveSlots\<close> (\<open>_cleanup.py\<close>): who is inside one sandbox of one kind, who waits for it, and
  the cleanup that the last one out must run.  Every operation holds the guard for the whole of
  its body, so an operation is one step.  A \<open>PendingCleanup\<close> is shared by reference: it lives in
  a heap and the slot holds its address.  Event loops are numbers, \<open>shut\<close> is the set of those
  that are closed when an operation looks, and \<open>ready\<close> the waiters whose future is resolved.
\<close>

subsection \<open>State\<close>

record waiter =
  w_id :: nat
  w_loop :: nat
  w_exclusive :: bool

record pending_cleanup =
  pc_backend :: nat
  pc_spec :: sandbox_spec
  pc_sandbox :: nat
  pc_instance :: string
  pc_rung :: cleanup
  pc_timeout :: rat
  pc_unclean :: "string option"
  pc_done :: bool
  pc_failure :: "string option"
  pc_waiters :: "waiter list"

datatype slot_state = SERVING | DRAINING | CLEANING

record slot =
  sl_state :: slot_state
  sl_pending :: "((nat \<times> string) \<times> nat) list"
  sl_shared :: "string set"
  sl_exclusive :: "string option"
  sl_waiters :: "waiter list"
  sl_generation :: nat

definition fresh_slot :: slot where
  "fresh_slot = \<lparr>sl_state = SERVING, sl_pending = [], sl_shared = {}, sl_exclusive = None,
     sl_waiters = [], sl_generation = 0\<rparr>"

type_synonym place = "sandbox_key \<times> string"

record slots =
  table :: "place \<Rightarrow> slot option"
  heap :: "nat \<Rightarrow> pending_cleanup option"
  next_waiter :: nat
  ready :: "nat set"

definition empty_slots :: slots where
  "empty_slots = \<lparr>table = (\<lambda>_. None), heap = (\<lambda>_. None), next_waiter = 0, ready = {}\<rparr>"

definition idle :: "slot \<Rightarrow> bool" where
  "idle sl \<longleftrightarrow> sl_exclusive sl = None \<and> sl_shared sl = {} \<and> sl_waiters sl = []
     \<and> sl_pending sl = [] \<and> sl_state sl = SERVING"

text \<open>\<open>_drop_if_idle\<close>: the slot as the table keeps it.\<close>

definition drop_if_idle :: "slot \<Rightarrow> slot option" where
  "drop_if_idle sl = (if idle sl then None else Some sl)"

definition put :: "place \<Rightarrow> slot option \<Rightarrow> slots \<Rightarrow> slots" where
  "put pl sl st = st\<lparr>table := (table st)(pl := sl)\<rparr>"

definition open_waiters :: "nat set \<Rightarrow> waiter list \<Rightarrow> waiter list" where
  "open_waiters shut ws = filter (\<lambda>w. w_loop w \<notin> shut) ws"

definition held_by :: "slot \<Rightarrow> string \<Rightarrow> bool" where
  "held_by sl owner \<longleftrightarrow> sl_exclusive sl = Some owner \<or> owner \<in> sl_shared sl"

subsection \<open>Waking\<close>

text \<open>\<open>_wake\<close>: every waiter on an open loop has its future resolved.\<close>

definition wake :: "nat set \<Rightarrow> place \<Rightarrow> slots \<Rightarrow> slots" where
  "wake shut pl st =
     (case table st pl of
        None \<Rightarrow> st
      | Some sl \<Rightarrow>
          let sl' = sl\<lparr>sl_waiters := open_waiters shut (sl_waiters sl)\<rparr>
          in (put pl (drop_if_idle sl') st)\<lparr>ready := ready st \<union> w_id ` set (sl_waiters sl')\<rparr>)"

definition forget_waiter :: "nat set \<Rightarrow> place \<Rightarrow> nat \<Rightarrow> slots \<Rightarrow> slots" where
  "forget_waiter shut pl wid st =
     (case table st pl of
        None \<Rightarrow> st
      | Some sl \<Rightarrow>
          wake shut pl
            (put pl (drop_if_idle (sl\<lparr>sl_waiters := filter (\<lambda>w. w_id w \<noteq> wid) (sl_waiters sl)\<rparr>)) st))"

subsection \<open>Admission\<close>

text \<open>Whether a call of that kind may enter with these waiters ahead of it.\<close>

definition free_for :: "slot \<Rightarrow> bool \<Rightarrow> waiter list \<Rightarrow> bool" where
  "free_for sl exclusive ahead \<longleftrightarrow>
     (if exclusive then sl_exclusive sl = None \<and> sl_shared sl = {} \<and> ahead = []
      else sl_exclusive sl = None \<and> \<not> (\<exists>w \<in> set ahead. w_exclusive w))
     \<and> sl_state sl = SERVING"

definition ahead_of :: "waiter option \<Rightarrow> waiter list \<Rightarrow> waiter list" where
  "ahead_of queued ws = (case queued of None \<Rightarrow> ws | Some q \<Rightarrow> takeWhile (\<lambda>w. w_id w \<noteq> w_id q) ws)"

text \<open>What one turn of the loop of \<open>take\<close> ends with, under the guard.\<close>

datatype turn = Admitted | Waits waiter nat rat

text \<open>
  One turn: \<open>seen\<close> is the generation of the turn before, \<open>deadline\<close> the bound that has been
  running, and a waiting call gets the deadline to wait for.
\<close>

definition take_turn ::
  "nat set \<Rightarrow> place \<Rightarrow> string \<Rightarrow> bool \<Rightarrow> nat \<Rightarrow> waiter option \<Rightarrow> nat option \<Rightarrow> rat \<Rightarrow> rat \<Rightarrow> rat \<Rightarrow>
   slots \<Rightarrow> turn \<times> slots" where
  "take_turn shut pl owner exclusive lp queued seen now timeout deadline st =
     (let sl0 = (case table st pl of None \<Rightarrow> fresh_slot | Some s \<Rightarrow> s);
          deadline' = (if seen \<noteq> None \<and> seen \<noteq> Some (sl_generation sl0) then now + timeout else deadline);
          sl = sl0\<lparr>sl_waiters := open_waiters shut (sl_waiters sl0)\<rparr>;
          ahead = ahead_of queued (sl_waiters sl)
      in if free_for sl exclusive ahead \<or> sl_exclusive sl = Some owner
            \<or> (\<not> exclusive \<and> owner \<in> sl_shared sl)
         then (let gone = (case queued of None \<Rightarrow> sl_waiters sl
                           | Some q \<Rightarrow> filter (\<lambda>w. w_id w \<noteq> w_id q) (sl_waiters sl));
                   inside = (if exclusive then sl\<lparr>sl_waiters := gone, sl_exclusive := Some owner\<rparr>
                             else sl\<lparr>sl_waiters := gone, sl_shared := insert owner (sl_shared sl)\<rparr>)
               in (Admitted, put pl (Some inside) st))
         else (case queued of
             None \<Rightarrow>
               let w = \<lparr>w_id = next_waiter st, w_loop = lp, w_exclusive = exclusive\<rparr>
               in (Waits w (sl_generation sl) deadline',
                   (put pl (Some (sl\<lparr>sl_waiters := sl_waiters sl @ [w]\<rparr>)) st)
                     \<lparr>next_waiter := Suc (next_waiter st)\<rparr>)
           | Some q \<Rightarrow>
               (Waits q (sl_generation sl) deadline',
                (put pl (Some sl) st)\<lparr>ready := ready st - {w_id q}\<rparr>)))"

subsection \<open>Holders and cleanup\<close>

definition or_else :: "string option \<Rightarrow> string option \<Rightarrow> string option" where
  "or_else a b = (if a \<in> {None, Some []} then b else a)"

definition fold_cleanup :: "pending_cleanup \<Rightarrow> pending_cleanup \<Rightarrow> pending_cleanup" where
  "fold_cleanup old new =
     old\<lparr>pc_rung := max (pc_rung old) (pc_rung new), pc_sandbox := pc_sandbox new,
         pc_timeout := min (pc_timeout old) (pc_timeout new),
         pc_unclean := or_else (pc_unclean old) (pc_unclean new)\<rparr>"

text \<open>\<open>queue\<close>, given the address of the new record; it answers the one that stands.\<close>

definition queue_cleanup :: "place \<Rightarrow> string \<Rightarrow> nat \<Rightarrow> slots \<Rightarrow> (nat \<times> slots) result" where
  "queue_cleanup pl owner addr st =
     (case table st pl of
        None \<Rightarrow> Inl KeyError
      | Some sl \<Rightarrow>
          if \<not> held_by sl owner then Inl RuntimeError
          else (case heap st addr of
              None \<Rightarrow> Inl KeyError
            | Some new \<Rightarrow>
                (case map_of (sl_pending sl) (pc_backend new, pc_instance new) of
                   None \<Rightarrow>
                     Inr (addr, put pl (Some (sl\<lparr>sl_state := DRAINING,
                       sl_pending := sl_pending sl @ [((pc_backend new, pc_instance new), addr)]\<rparr>)) st)
                 | Some addr' \<Rightarrow>
                     (case heap st addr' of
                        None \<Rightarrow> Inl KeyError
                      | Some old \<Rightarrow>
                          Inr (addr', (put pl (Some (sl\<lparr>sl_state := DRAINING\<rparr>)) st)
                            \<lparr>heap := (heap st)(addr' \<mapsto> fold_cleanup old new)\<rparr>)))))"

definition drain :: "place \<Rightarrow> string \<Rightarrow> slots \<Rightarrow> slots" where
  "drain pl owner st =
     (case table st pl of
        Some sl \<Rightarrow> if held_by sl owner then put pl (Some (sl\<lparr>sl_state := DRAINING\<rparr>)) st else st
      | None \<Rightarrow> st)"

text \<open>The slot once this owner left it, and whether nobody is inside.\<close>

definition left_by :: "string \<Rightarrow> slot \<Rightarrow> slot" where
  "left_by owner sl = (if sl_exclusive sl = Some owner then sl\<lparr>sl_exclusive := None\<rparr>
     else sl\<lparr>sl_shared := sl_shared sl - {owner}\<rparr>)\<lparr>sl_generation := Suc (sl_generation sl)\<rparr>"

definition vacant :: "slot \<Rightarrow> bool" where
  "vacant sl \<longleftrightarrow> sl_shared sl = {} \<and> sl_exclusive sl = None"

text \<open>\<open>release\<close>: the addresses claimed for cleanup, empty when there is nothing to clean yet.\<close>

definition release :: "nat set \<Rightarrow> place \<Rightarrow> string \<Rightarrow> slots \<Rightarrow> nat list \<times> slots" where
  "release shut pl owner st =
     (case table st pl of
        None \<Rightarrow> ([], st)
      | Some sl \<Rightarrow>
          if \<not> held_by sl owner then ([], st)
          else
            (let left = left_by owner sl
             in if vacant left \<and> sl_pending sl \<noteq> []
                then (map snd (sl_pending sl), put pl (Some (left\<lparr>sl_state := CLEANING\<rparr>)) st)
                else ([], wake shut pl
                  (put pl (drop_if_idle (if vacant left then left\<lparr>sl_state := SERVING\<rparr> else left)) st))))"

text \<open>\<open>complete\<close> publishes the outcome and notifies the waiters whose loop is still open.\<close>

definition complete_cleanup :: "nat set \<Rightarrow> nat \<Rightarrow> string option \<Rightarrow> slots \<Rightarrow> slots" where
  "complete_cleanup shut addr failure st =
     (case heap st addr of
        None \<Rightarrow> st
      | Some c \<Rightarrow>
          st\<lparr>heap := (heap st)(addr \<mapsto> c\<lparr>pc_failure := failure, pc_done := True\<rparr>),
             ready := ready st \<union> w_id ` set (open_waiters shut (pc_waiters c))\<rparr>)"

text \<open>
  \<open>wait\<close> in its two halves: what it does under the first guard, an answer for a cleanup that is
  done and a registered waiter otherwise; and the \<open>finally\<close> once its future is resolved or its
  bound has run out.
\<close>

datatype wait_turn = Answered "string option" | Registered waiter | TimedOut

definition wait_cleanup :: "nat \<Rightarrow> nat \<Rightarrow> slots \<Rightarrow> (wait_turn \<times> slots) option" where
  "wait_cleanup lp addr st =
     (case heap st addr of
        None \<Rightarrow> None
      | Some c \<Rightarrow>
          if pc_done c then Some (Answered (pc_failure c), st)
          else (let w = \<lparr>w_id = next_waiter st, w_loop = lp, w_exclusive = False\<rparr>
                in Some (Registered w,
                     st\<lparr>heap := (heap st)(addr \<mapsto> c\<lparr>pc_waiters := pc_waiters c @ [w]\<rparr>),
                        next_waiter := Suc (next_waiter st)\<rparr>)))"

definition wait_over :: "nat \<Rightarrow> nat \<Rightarrow> slots \<Rightarrow> (wait_turn \<times> slots) option" where
  "wait_over addr wid st =
     (case heap st addr of
        None \<Rightarrow> None
      | Some c \<Rightarrow>
          Some (if wid \<in> ready st then Answered (pc_failure c) else TimedOut,
                st\<lparr>heap := (heap st)(addr \<mapsto>
                  c\<lparr>pc_waiters := filter (\<lambda>w. w_id w \<noteq> wid) (pc_waiters c)\<rparr>)\<rparr>))"

definition renew :: "nat set \<Rightarrow> place \<Rightarrow> slots \<Rightarrow> slots" where
  "renew shut pl st =
     (case table st pl of
        None \<Rightarrow> st
      | Some sl \<Rightarrow> wake shut pl (put pl (Some (sl\<lparr>sl_generation := Suc (sl_generation sl)\<rparr>)) st))"

definition cleaned :: "nat set \<Rightarrow> place \<Rightarrow> slots \<Rightarrow> slots result" where
  "cleaned shut pl st =
     (case table st pl of
        None \<Rightarrow> Inl KeyError
      | Some sl \<Rightarrow>
          if \<not> (\<forall>addr \<in> set (map snd (sl_pending sl)). case heap st addr of Some c \<Rightarrow> pc_done c | None \<Rightarrow> False)
          then Inl RuntimeError
          else Inr (wake shut pl (put pl (drop_if_idle
            (sl\<lparr>sl_pending := [], sl_state := SERVING, sl_generation := Suc (sl_generation sl)\<rparr>)) st)))"

definition holds :: "place \<Rightarrow> string \<Rightarrow> slots \<Rightarrow> bool" where
  "holds pl owner st = (case table st pl of None \<Rightarrow> False | Some sl \<Rightarrow> held_by sl owner)"

text \<open>A record is created by a call; nothing refers to it until it is queued.\<close>

definition new_cleanup :: "nat \<Rightarrow> pending_cleanup \<Rightarrow> slots \<Rightarrow> slots" where
  "new_cleanup addr c st = st\<lparr>heap := (heap st)(addr \<mapsto> c)\<rparr>"

subsection \<open>Steps\<close>

text \<open>
  The operations in any order and by any caller, with the loops in \<open>shut\<close> closed.  A queued call
  takes its further turns with the waiter it was given, which is in the list for as long as it
  waits.  An execution is restricted by what it says of the closed loops.
\<close>

inductive slot_step :: "nat set \<Rightarrow> slots \<Rightarrow> slots \<Rightarrow> bool" for shut where
  s_enter: "take_turn shut pl owner exclusive lp None None now timeout deadline st = (turn, st') \<Longrightarrow>
    lp \<notin> shut \<Longrightarrow> slot_step shut st st'"
| s_retry: "table st pl = Some sl \<Longrightarrow> q \<in> set (sl_waiters sl) \<Longrightarrow> w_loop q \<notin> shut \<Longrightarrow>
    take_turn shut pl owner (w_exclusive q) (w_loop q) (Some q) seen now timeout deadline st = (turn, st') \<Longrightarrow>
    slot_step shut st st'"
| s_give_up: "slot_step shut st (forget_waiter shut pl wid st)"
| s_new: "heap st addr = None \<Longrightarrow> \<not> pc_done c \<Longrightarrow> pc_waiters c = [] \<Longrightarrow>
    slot_step shut st (new_cleanup addr c st)"
| s_queue: "queue_cleanup pl owner addr st = Inr (addr', st') \<Longrightarrow> slot_step shut st st'"
| s_drain: "slot_step shut st (drain pl owner st)"
| s_release: "release shut pl owner st = (claimed, st') \<Longrightarrow> slot_step shut st st'"
| s_complete: "slot_step shut st (complete_cleanup shut addr failure st)"
| s_wait: "wait_cleanup lp addr st = Some (turn, st') \<Longrightarrow> slot_step shut st st'"
| s_wait_over: "wait_over addr wid st = Some (turn, st') \<Longrightarrow> slot_step shut st st'"
| s_renew: "slot_step shut st (renew shut pl st)"
| s_cleaned: "cleaned shut pl st = Inr st' \<Longrightarrow> slot_step shut st st'"

inductive slot_reachable :: "(nat set \<Rightarrow> bool) \<Rightarrow> slots \<Rightarrow> bool" for loops where
  r_start: "slot_reachable loops empty_slots"
| r_step: "slot_reachable loops st \<Longrightarrow> loops shut \<Longrightarrow> slot_step shut st st' \<Longrightarrow> slot_reachable loops st'"

end
