(* ===== verification/Slot_Properties.thy ===== *)
theory Slot_Properties
  imports Slots
begin

text \<open>
  The properties of call admission: exclusion between holders, one cleanup at a time and with
  nobody inside, and no call left asleep that could enter.
\<close>

subsection \<open>The invariant of a slot\<close>

definition slot_core :: "slot \<Rightarrow> bool" where
  "slot_core sl \<longleftrightarrow>
     (\<forall>h. sl_exclusive sl = Some h \<longrightarrow> sl_shared sl \<subseteq> {h})
     \<and> (sl_state sl = CLEANING \<longrightarrow> sl_pending sl \<noteq> [] \<and> sl_shared sl = {} \<and> sl_exclusive sl = None)
     \<and> (sl_pending sl \<noteq> [] \<longrightarrow> sl_state sl \<noteq> SERVING)
     \<and> (sl_state sl = DRAINING \<longrightarrow> sl_shared sl \<noteq> {} \<or> sl_exclusive sl \<noteq> None)
     \<and> distinct (map fst (sl_pending sl))"

definition slots_inv :: "slots \<Rightarrow> bool" where
  "slots_inv st \<longleftrightarrow> (\<forall>pl sl. table st pl = Some sl \<longrightarrow> slot_core sl \<and> \<not> idle sl)"

lemma table_put [simp]: "table (put pl x st) = (table st)(pl := x)"
  by (simp add: put_def)

lemma put_other [simp]: "heap (put pl x st) = heap st" "next_waiter (put pl x st) = next_waiter st"
  "ready (put pl x st) = ready st"
  by (simp_all add: put_def)

lemma drop_if_idle_Some: "drop_if_idle sl = Some sl' \<longleftrightarrow> sl' = sl \<and> \<not> idle sl"
  by (auto simp: drop_if_idle_def)

lemma slots_inv_put:
  "slots_inv st \<Longrightarrow> (\<And>sl. x = Some sl \<Longrightarrow> slot_core sl \<and> \<not> idle sl) \<Longrightarrow> slots_inv (put pl x st)"
  by (simp add: slots_inv_def)

lemma slots_inv_put_Some:
  "slots_inv st \<Longrightarrow> slot_core sl \<Longrightarrow> \<not> idle sl \<Longrightarrow> slots_inv (put pl (Some sl) st)"
  by (simp add: slots_inv_def)

lemma slots_inv_other [simp]:
  "slots_inv (st\<lparr>ready := r\<rparr>) = slots_inv st" "slots_inv (st\<lparr>next_waiter := n\<rparr>) = slots_inv st"
  "slots_inv (st\<lparr>heap := h\<rparr>) = slots_inv st"
  by (simp_all add: slots_inv_def)

lemma slot_core_waiters [simp]: "slot_core (sl\<lparr>sl_waiters := ws\<rparr>) = slot_core sl"
  "slot_core (sl\<lparr>sl_generation := g\<rparr>) = slot_core sl"
  by (simp_all add: slot_core_def)

lemma slots_inv_put_drop:
  "slots_inv st \<Longrightarrow> slot_core sl \<Longrightarrow> slots_inv (put pl (drop_if_idle sl) st)"
  by (rule slots_inv_put) (auto simp: drop_if_idle_Some)

lemma slots_inv_core: "slots_inv st \<Longrightarrow> table st pl = Some sl \<Longrightarrow> slot_core sl"
  unfolding slots_inv_def by blast

lemma slots_inv_not_idle: "slots_inv st \<Longrightarrow> table st pl = Some sl \<Longrightarrow> \<not> idle sl"
  unfolding slots_inv_def by blast

lemma slots_inv_empty: "slots_inv empty_slots"
  by (simp add: slots_inv_def empty_slots_def)

lemma slot_core_fresh: "slot_core fresh_slot"
  by (simp add: slot_core_def fresh_slot_def)

lemma slots_inv_wake: "slots_inv st \<Longrightarrow> slots_inv (wake shut pl st)"
  by (cases "table st pl")
    (simp_all add: wake_def Let_def slots_inv_put_drop slots_inv_core)

lemma slots_inv_take:
  assumes inv: "slots_inv st"
    and turn: "take_turn shut pl owner exclusive lp queued seen now timeout deadline st = (turn, st')"
    and queued: "\<And>q. queued = Some q \<Longrightarrow> \<exists>sl. table st pl = Some sl \<and> q \<in> set (sl_waiters sl) \<and> w_loop q \<notin> shut"
  shows "slots_inv st'"
proof -
  define sl0 where "sl0 = (case table st pl of None \<Rightarrow> fresh_slot | Some s \<Rightarrow> s)"
  have core0: "slot_core sl0"
    by (cases "table st pl") (simp_all add: sl0_def slot_core_fresh slots_inv_core [OF inv])
  define sl where "sl = sl0\<lparr>sl_waiters := open_waiters shut (sl_waiters sl0)\<rparr>"
  have core: "slot_core sl" using core0 by (simp add: sl_def)
  let ?in = "free_for sl exclusive (ahead_of queued (sl_waiters sl)) \<or> sl_exclusive sl = Some owner
    \<or> (\<not> exclusive \<and> owner \<in> sl_shared sl)"
  show ?thesis
  proof (cases ?in)
    case True
    define gone where "gone = (case queued of None \<Rightarrow> sl_waiters sl
      | Some q \<Rightarrow> filter (\<lambda>w. w_id w \<noteq> w_id q) (sl_waiters sl))"
    have "st' = put pl (Some (if exclusive then sl\<lparr>sl_waiters := gone, sl_exclusive := Some owner\<rparr>
      else sl\<lparr>sl_waiters := gone, sl_shared := insert owner (sl_shared sl)\<rparr>)) st"
      using turn True unfolding take_turn_def sl0_def [symmetric] sl_def [symmetric] gone_def Let_def
      by (auto simp: Let_def split: if_splits)
    moreover have "slot_core (sl\<lparr>sl_waiters := gone, sl_exclusive := Some owner\<rparr>)" if exclusive
      using core True that by (auto simp: slot_core_def free_for_def)
    moreover have "slot_core (sl\<lparr>sl_waiters := gone, sl_shared := insert owner (sl_shared sl)\<rparr>)" if "\<not> exclusive"
      using core True that by (auto simp: slot_core_def free_for_def)
    ultimately show ?thesis
      by (cases exclusive) (simp_all add: slots_inv_put_Some inv idle_def)
  next
    case False
    show ?thesis
    proof (cases queued)
      case None
      then have "\<exists>w. st' = (put pl (Some (sl\<lparr>sl_waiters := sl_waiters sl @ [w]\<rparr>)) st)
          \<lparr>next_waiter := Suc (next_waiter st)\<rparr>"
        using turn False unfolding take_turn_def sl0_def [symmetric] sl_def [symmetric] Let_def by auto
      then show ?thesis using core by (auto simp: idle_def slots_inv_put_Some inv)
    next
      case (Some q)
      then have st': "st' = (put pl (Some sl) st)\<lparr>ready := ready st - {w_id q}\<rparr>"
        using turn False unfolding take_turn_def sl0_def [symmetric] sl_def [symmetric] Let_def by auto
      have "q \<in> set (sl_waiters sl)"
        using queued [OF Some] by (auto simp: sl_def sl0_def open_waiters_def)
      then show ?thesis unfolding st' using core slots_inv_put_Some [OF inv core, of pl]
        by (cases "sl_waiters sl") (simp_all add: idle_def)
    qed
  qed
qed

lemma slots_inv_forget: "slots_inv st \<Longrightarrow> slots_inv (forget_waiter shut pl wid st)"
  by (cases "table st pl")
    (simp_all add: forget_waiter_def slots_inv_wake slots_inv_put_drop slots_inv_core)

lemma slots_inv_queue:
  assumes "queue_cleanup pl owner addr st = Inr (addr', st')" and inv: "slots_inv st"
  shows "slots_inv st'"
proof -
  from assms(1) obtain sl where sl: "table st pl = Some sl" "held_by sl owner"
    by (auto simp: queue_cleanup_def split: option.splits if_splits)
  note core = slots_inv_core [OF inv sl(1)]
  have "slot_core (sl\<lparr>sl_state := DRAINING\<rparr>) \<and> \<not> idle (sl\<lparr>sl_state := DRAINING\<rparr>)"
    using core sl(2) by (auto simp: slot_core_def held_by_def idle_def)
  moreover have "slot_core (sl\<lparr>sl_state := DRAINING, sl_pending := sl_pending sl @ [(k, a)]\<rparr>)
      \<and> \<not> idle (sl\<lparr>sl_state := DRAINING, sl_pending := sl_pending sl @ [(k, a)]\<rparr>)"
    if "map_of (sl_pending sl) k = None" for k a
    using core sl(2) that by (auto simp: slot_core_def held_by_def idle_def map_of_eq_None_iff)
  ultimately show ?thesis
    using assms(1) sl
    by (auto simp: queue_cleanup_def slots_inv_put_Some inv split: option.splits if_splits)
qed

lemma slots_inv_drain: "slots_inv st \<Longrightarrow> slots_inv (drain pl owner st)"
proof (cases "table st pl")
  case (Some sl)
  moreover assume inv: "slots_inv st"
  moreover have "slot_core (sl\<lparr>sl_state := DRAINING\<rparr>) \<and> \<not> idle (sl\<lparr>sl_state := DRAINING\<rparr>)" if "held_by sl owner"
    using slots_inv_core [OF inv Some] that by (auto simp: slot_core_def held_by_def idle_def)
  ultimately show ?thesis by (simp add: drain_def slots_inv_put_Some)
qed (simp add: drain_def)

lemma release_cases:
  assumes "release shut pl owner st = (claimed, st')"
  obtains (stranger) "\<not> holds pl owner st" "claimed = []" "st' = st"
  | (claims) sl where "table st pl = Some sl" "held_by sl owner" "vacant (left_by owner sl)" "sl_pending sl \<noteq> []"
      "claimed = map snd (sl_pending sl)" "st' = put pl (Some ((left_by owner sl)\<lparr>sl_state := CLEANING\<rparr>)) st"
  | (reopens) sl where "table st pl = Some sl" "held_by sl owner" "vacant (left_by owner sl)" "sl_pending sl = []"
      "claimed = []"
      "st' = wake shut pl (put pl (drop_if_idle ((left_by owner sl)\<lparr>sl_state := SERVING\<rparr>)) st)"
  | (others) sl where "table st pl = Some sl" "held_by sl owner" "\<not> vacant (left_by owner sl)" "claimed = []"
      "st' = wake shut pl (put pl (drop_if_idle (left_by owner sl)) st)"
proof (cases "table st pl")
  case None
  show thesis by (rule stranger) (use assms None in \<open>auto simp: release_def holds_def\<close>)
next
  case (Some sl)
  show thesis
  proof (cases "held_by sl owner")
    case False
    show thesis by (rule stranger) (use assms Some False in \<open>auto simp: release_def holds_def\<close>)
  next
    case True
    have eq: "release shut pl owner st =
      (if vacant (left_by owner sl) \<and> sl_pending sl \<noteq> []
       then (map snd (sl_pending sl), put pl (Some ((left_by owner sl)\<lparr>sl_state := CLEANING\<rparr>)) st)
       else ([], wake shut pl (put pl (drop_if_idle
         (if vacant (left_by owner sl) then (left_by owner sl)\<lparr>sl_state := SERVING\<rparr> else left_by owner sl)) st)))"
      using Some True by (simp add: release_def Let_def)
    consider "vacant (left_by owner sl)" "sl_pending sl = []" | "vacant (left_by owner sl)" "sl_pending sl \<noteq> []"
      | "\<not> vacant (left_by owner sl)" by blast
    then show thesis
    proof cases
      case 1
      show thesis by (rule reopens [OF Some True 1]) (use assms eq 1 in auto)
    next
      case 2
      show thesis by (rule claims [OF Some True 2]) (use assms eq 2 in auto)
    next
      case 3
      show thesis by (rule others [OF Some True 3]) (use assms eq 3 in auto)
    qed
  qed
qed

lemma slots_inv_release:
  assumes "release shut pl owner st = (claimed, st')" and inv: "slots_inv st"
  shows "slots_inv st'"
  using assms(1)
proof (cases rule: release_cases)
  case stranger
  then show ?thesis using inv by simp
next
  case (claims sl)
  have "slot_core ((left_by owner sl)\<lparr>sl_state := CLEANING\<rparr>)"
    using claims(3,4) slots_inv_core [OF inv claims(1)] by (auto simp: slot_core_def vacant_def left_by_def)
  then show ?thesis using claims by (simp add: idle_def slots_inv_put_Some inv)
next
  case (reopens sl)
  have "slot_core ((left_by owner sl)\<lparr>sl_state := SERVING\<rparr>)"
    using reopens(3,4) by (auto simp: slot_core_def vacant_def left_by_def)
  then show ?thesis using reopens inv by (simp add: slots_inv_wake slots_inv_put_drop)
next
  case (others sl)
  have "slot_core (left_by owner sl)"
    using others(2,3) slots_inv_core [OF inv others(1)]
    by (auto simp: slot_core_def vacant_def left_by_def held_by_def split: if_splits)
  then show ?thesis using others inv by (simp add: slots_inv_wake slots_inv_put_drop)
qed

lemma slots_inv_renew: "slots_inv st \<Longrightarrow> slots_inv (renew shut pl st)"
proof (cases "table st pl")
  case (Some sl)
  moreover assume inv: "slots_inv st"
  moreover have "slot_core (sl\<lparr>sl_generation := g\<rparr>) \<and> \<not> idle (sl\<lparr>sl_generation := g\<rparr>)" for g
    using slots_inv_core [OF inv Some] slots_inv_not_idle [OF inv Some] by (simp add: idle_def)
  ultimately show ?thesis by (simp add: renew_def slots_inv_wake slots_inv_put_Some)
qed (simp add: renew_def)

lemma slots_inv_cleaned:
  assumes "cleaned shut pl st = Inr st'" and inv: "slots_inv st"
  shows "slots_inv st'"
proof -
  from assms(1) obtain sl where sl: "table st pl = Some sl"
    and st': "st' = wake shut pl (put pl (drop_if_idle
      (sl\<lparr>sl_pending := [], sl_state := SERVING, sl_generation := Suc (sl_generation sl)\<rparr>)) st)"
    by (auto simp: cleaned_def split: option.splits if_splits)
  have "slot_core (sl\<lparr>sl_pending := [], sl_state := SERVING, sl_generation := g\<rparr>)" for g
    using slots_inv_core [OF inv sl] by (auto simp: slot_core_def)
  then show ?thesis using inv by (simp add: st' slots_inv_wake slots_inv_put_drop)
qed

lemma slots_inv_step: "slot_step shut st st' \<Longrightarrow> slots_inv st \<Longrightarrow> slots_inv st'"
proof (induction rule: slot_step.induct)
  case (s_enter pl owner exclusive lp now timeout deadline st turn st')
  then show ?case using slots_inv_take by blast
next
  case (s_retry st pl sl q owner seen now timeout deadline turn st')
  then show ?case using slots_inv_take [OF s_retry(5,4)] by blast
qed (auto simp: new_cleanup_def complete_cleanup_def wait_cleanup_def wait_over_def Let_def
    slots_inv_forget slots_inv_drain slots_inv_renew
    intro: slots_inv_queue slots_inv_release slots_inv_cleaned split: option.splits if_splits)

lemma slots_inv_reachable: "slot_reachable loops st \<Longrightarrow> slots_inv st"
  by (induction rule: slot_reachable.induct) (auto intro: slots_inv_step slots_inv_empty)

subsection \<open>The records a slot refers to\<close>

text \<open>What a step may do to a record: only strengthen it, and never undo its completion.\<close>

definition strengthens :: "pending_cleanup \<Rightarrow> pending_cleanup \<Rightarrow> bool" where
  "strengthens c c' \<longleftrightarrow> pc_backend c' = pc_backend c \<and> pc_instance c' = pc_instance c
     \<and> pc_rung c \<le> pc_rung c' \<and> pc_timeout c' \<le> pc_timeout c
     \<and> (pc_done c \<longrightarrow> pc_done c')
     \<and> (pc_unclean c \<notin> {None, Some []} \<longrightarrow> pc_unclean c' = pc_unclean c)"

lemma strengthens_refl [simp]: "strengthens c c"
  by (simp add: strengthens_def)

lemma strengthens_fold: "strengthens old (fold_cleanup old new)"
  by (simp add: strengthens_def fold_cleanup_def or_else_def)

definition heap_grows :: "slots \<Rightarrow> slots \<Rightarrow> bool" where
  "heap_grows st st' \<longleftrightarrow> (\<forall>a c. heap st a = Some c \<longrightarrow> (\<exists>c'. heap st' a = Some c' \<and> strengthens c c'))"

lemma heap_grows_same: "heap st' = heap st \<Longrightarrow> heap_grows st st'"
  by (auto simp: heap_grows_def strengthens_refl)

lemma heap_grows_still [simp]: "heap_grows st st" "heap_grows st (put pl x st)"
  by (simp_all add: heap_grows_same)

lemma heap_grows_at:
  "heap st' = (heap st)(a \<mapsto> c') \<Longrightarrow> (\<And>c. heap st a = Some c \<Longrightarrow> strengthens c c') \<Longrightarrow> heap_grows st st'"
  by (auto simp: heap_grows_def strengthens_refl)

lemma heap_wake [simp]: "heap (wake shut pl st) = heap st"
  by (simp add: wake_def Let_def split: option.splits)

lemma heap_take:
  "take_turn shut pl owner exclusive lp queued seen now timeout deadline st = (turn, st') \<Longrightarrow> heap st' = heap st"
  by (auto simp: take_turn_def Let_def split: if_splits option.splits)

lemma heap_release: "release shut pl owner st = (claimed, st') \<Longrightarrow> heap st' = heap st"
  by (auto elim!: release_cases)

lemma heap_grows_queue:
  "queue_cleanup pl owner addr st = Inr (addr', st') \<Longrightarrow> heap_grows st st'"
  by (auto simp: queue_cleanup_def strengthens_fold split: option.splits if_splits
      intro!: heap_grows_at)

lemma heap_grows_step: "slot_step shut st st' \<Longrightarrow> heap_grows st st'"
proof (induction rule: slot_step.induct)
  case (s_new st addr c)
  then show ?case by (intro heap_grows_at) (auto simp: new_cleanup_def)
next
  case (s_complete st addr failure)
  then show ?case
    by (cases "heap st addr")
      (auto simp: complete_cleanup_def strengthens_def intro!: heap_grows_at)
next
  case (s_wait lp addr st turn st')
  then show ?case
    by (auto simp: wait_cleanup_def Let_def strengthens_def split: option.splits if_splits
        intro!: heap_grows_at)
next
  case (s_wait_over addr wid st turn st')
  then show ?case
    by (auto simp: wait_over_def strengthens_def split: option.splits intro!: heap_grows_at)
next
  case (s_queue pl owner addr st addr' st')
  then show ?case by (rule heap_grows_queue)
qed (auto simp: forget_waiter_def drain_def renew_def cleaned_def
    intro!: heap_grows_same intro: heap_take heap_release split: option.splits if_splits)

subsection \<open>Condemned instances\<close>

text \<open>
  What a step keeps of a slot with cleanup pending: the records stay, and once the cleanup has
  been claimed nothing joins them until it is over.
\<close>

definition carries :: "slot \<Rightarrow> slot \<Rightarrow> bool" where
  "carries sl sl' \<longleftrightarrow> (\<exists>later. sl_pending sl' = sl_pending sl @ later
     \<and> (sl_state sl = CLEANING \<longrightarrow> later = [] \<and> sl_state sl' = CLEANING))"

definition keeps_pending :: "slots \<Rightarrow> slots \<Rightarrow> bool" where
  "keeps_pending st st' \<longleftrightarrow> (\<forall>pl sl. table st pl = Some sl \<longrightarrow> sl_pending sl \<noteq> [] \<longrightarrow>
     (\<exists>sl'. table st' pl = Some sl' \<and> carries sl sl'))"

lemma carries_refl [simp]: "carries sl sl"
  by (simp add: carries_def)

lemma carries_trans: "carries a b \<Longrightarrow> carries b c \<Longrightarrow> carries a c"
  by (auto simp: carries_def)

lemma keeps_pending_refl [simp]: "keeps_pending st st"
  by (auto simp: keeps_pending_def)

lemma keeps_pending_trans: "keeps_pending a b \<Longrightarrow> keeps_pending b c \<Longrightarrow> keeps_pending a c"
  unfolding keeps_pending_def
proof (intro allI impI)
  fix pl sl
  assume ab: "\<forall>pl sl. table a pl = Some sl \<longrightarrow> sl_pending sl \<noteq> [] \<longrightarrow> (\<exists>sl'. table b pl = Some sl' \<and> carries sl sl')"
    and bc: "\<forall>pl sl. table b pl = Some sl \<longrightarrow> sl_pending sl \<noteq> [] \<longrightarrow> (\<exists>sl'. table c pl = Some sl' \<and> carries sl sl')"
    and sl: "table a pl = Some sl" "sl_pending sl \<noteq> []"
  from ab sl obtain m where m: "table b pl = Some m" "carries sl m" by blast
  moreover have "sl_pending m \<noteq> []" using m sl(2) by (auto simp: carries_def)
  ultimately obtain e where "table c pl = Some e" "carries m e" using bc by blast
  then show "\<exists>sl'. table c pl = Some sl' \<and> carries sl sl'" using m(2) carries_trans by blast
qed

lemma keeps_pending_put:
  assumes "table st pl = Some sl" "sl_pending sl \<noteq> [] \<Longrightarrow> carries sl sl'"
  shows "keeps_pending st (put pl (drop_if_idle sl') st)" "keeps_pending st (put pl (Some sl') st)"
proof -
  have "drop_if_idle sl' = Some sl'" if "sl_pending sl \<noteq> []"
    using assms(2) [OF that] that by (auto simp: drop_if_idle_Some idle_def carries_def)
  then show "keeps_pending st (put pl (drop_if_idle sl') st)" "keeps_pending st (put pl (Some sl') st)"
    using assms by (auto simp: keeps_pending_def)
qed

lemma keeps_pending_new: "table st pl = None \<Longrightarrow> keeps_pending st (put pl x st)"
  by (auto simp: keeps_pending_def)

lemma keeps_pending_other [simp]:
  "keeps_pending st (st'\<lparr>ready := r\<rparr>) = keeps_pending st st'"
  "keeps_pending st (st'\<lparr>next_waiter := n\<rparr>) = keeps_pending st st'"
  "keeps_pending st (st'\<lparr>heap := h\<rparr>) = keeps_pending st st'"
  by (simp_all add: keeps_pending_def)

lemma keeps_pending_wake: "keeps_pending st (wake shut pl st)"
  by (cases "table st pl") (simp_all add: wake_def Let_def keeps_pending_put carries_def)

lemma keeps_pending_put_wake:
  "table st pl = Some sl \<Longrightarrow> (sl_pending sl \<noteq> [] \<Longrightarrow> carries sl sl') \<Longrightarrow>
   keeps_pending st (wake shut pl (put pl (drop_if_idle sl') st))"
  "table st pl = Some sl \<Longrightarrow> (sl_pending sl \<noteq> [] \<Longrightarrow> carries sl sl') \<Longrightarrow>
   keeps_pending st (wake shut pl (put pl (Some sl') st))"
  by (rule keeps_pending_trans [OF _ keeps_pending_wake], rule keeps_pending_put, assumption+)+

lemma left_by_same [simp]: "sl_pending (left_by owner sl) = sl_pending sl"
  "sl_state (left_by owner sl) = sl_state sl" "sl_waiters (left_by owner sl) = sl_waiters sl"
  by (simp_all add: left_by_def)

lemma not_cleaning_while_held: "slot_core sl \<Longrightarrow> held_by sl owner \<Longrightarrow> sl_state sl \<noteq> CLEANING"
  by (auto simp: slot_core_def held_by_def)

lemma keeps_pending_take:
  assumes "take_turn shut pl owner exclusive lp queued seen now timeout deadline st = (turn, st')"
  shows "keeps_pending st st'"
proof (cases "table st pl")
  case None
  then show ?thesis using assms
    by (auto simp: take_turn_def Let_def keeps_pending_new split: if_splits option.splits)
next
  case (Some sl)
  then show ?thesis using assms
    by (auto simp: take_turn_def Let_def keeps_pending_put carries_def split: if_splits option.splits)
qed

lemma keeps_pending_release:
  assumes "release shut pl owner st = (claimed, st')" "slots_inv st"
  shows "keeps_pending st st'"
  using assms(1)
proof (cases rule: release_cases)
  case (claims sl)
  then show ?thesis by (simp add: keeps_pending_put carries_def)
next
  case (reopens sl)
  then show ?thesis by (auto intro: keeps_pending_put_wake)
next
  case (others sl)
  then show ?thesis by (auto simp: carries_def intro: keeps_pending_put_wake)
qed simp

lemma keeps_pending_queue:
  assumes "queue_cleanup pl owner addr st = Inr (addr', st')" "slots_inv st"
  shows "keeps_pending st st'"
proof -
  from assms(1) obtain sl where sl: "table st pl = Some sl" "held_by sl owner"
    by (auto simp: queue_cleanup_def split: option.splits if_splits)
  then have "sl_state sl \<noteq> CLEANING"
    using not_cleaning_while_held slots_inv_core [OF assms(2)] by blast
  then show ?thesis
    using assms(1) sl
    by (auto simp: queue_cleanup_def carries_def keeps_pending_put split: option.splits if_splits)
qed

lemma keeps_pending_drain:
  assumes "slots_inv st"
  shows "keeps_pending st (drain pl owner st)"
proof (cases "table st pl")
  case (Some sl)
  then show ?thesis
    using not_cleaning_while_held [OF slots_inv_core [OF assms Some]]
    by (auto simp: drain_def carries_def intro!: keeps_pending_put(2))
qed (simp add: drain_def)

definition all_done :: "slots \<Rightarrow> slot \<Rightarrow> bool" where
  "all_done st sl \<longleftrightarrow> (\<forall>addr \<in> set (map snd (sl_pending sl)). \<exists>c. heap st addr = Some c \<and> pc_done c)"

lemma cleaned_cases:
  assumes "cleaned shut pl st = Inr st'"
  obtains sl where "table st pl = Some sl" "all_done st sl"
    "st' = wake shut pl (put pl (drop_if_idle
      (sl\<lparr>sl_pending := [], sl_state := SERVING, sl_generation := Suc (sl_generation sl)\<rparr>)) st)"
proof (cases "table st pl")
  case (Some sl)
  moreover have "all_done st sl \<longleftrightarrow> (\<forall>addr \<in> set (map snd (sl_pending sl)).
      case heap st addr of Some c \<Rightarrow> pc_done c | None \<Rightarrow> False)"
    unfolding all_done_def by (intro ball_cong refl) (auto split: option.splits)
  ultimately show thesis
    using assms that [OF Some] by (simp add: cleaned_def split: if_splits)
qed (use assms in \<open>simp add: cleaned_def\<close>)

lemma keeps_pending_or_done:
  assumes "slot_step shut st st'" "slots_inv st" "table st pl = Some sl" "sl_pending sl \<noteq> []"
  shows "(\<exists>sl'. table st' pl = Some sl' \<and> carries sl sl') \<or> all_done st sl"
proof -
  have "keeps_pending st st' \<or> (\<exists>shut q. cleaned shut q st = Inr st')"
    using assms(1,2)
    by (induction rule: slot_step.induct)
      (auto simp: new_cleanup_def complete_cleanup_def wait_cleanup_def wait_over_def Let_def
        forget_waiter_def renew_def carries_def
        intro: keeps_pending_take keeps_pending_queue keeps_pending_drain keeps_pending_release keeps_pending_put_wake
        split: option.splits if_splits)
  moreover have ?thesis if cl: "cleaned shut' q st = Inr st'" for shut' q
  proof (cases "q = pl")
    case True
    then show ?thesis using cl assms(3) by (auto elim!: cleaned_cases)
  next
    case False
    then have "table st' pl = table st pl"
      using cl by (auto elim!: cleaned_cases simp: wake_def Let_def split: option.splits)
    then show ?thesis using assms(3) by simp
  qed
  ultimately show ?thesis using assms(3,4) unfolding keeps_pending_def by blast
qed

text \<open>Every record a slot refers to is the record of the instance it is filed under.\<close>

definition filed :: "slots \<Rightarrow> slot \<Rightarrow> bool" where
  "filed st sl \<longleftrightarrow> (\<forall>p \<in> set (sl_pending sl).
     \<exists>c. heap st (snd p) = Some c \<and> fst p = (pc_backend c, pc_instance c))"

definition filed_inv :: "slots \<Rightarrow> bool" where
  "filed_inv st \<longleftrightarrow> (\<forall>pl sl. table st pl = Some sl \<longrightarrow> filed st sl)"

lemma filed_grows: "heap_grows st st' \<Longrightarrow> filed st sl \<Longrightarrow> filed st' sl"
  unfolding filed_def heap_grows_def strengthens_def by (metis (no_types, lifting))

lemma filed_same: "filed st sl \<Longrightarrow> sl_pending sl' = sl_pending sl \<Longrightarrow> filed st sl'"
  by (simp add: filed_def)

lemma filed_distinct:
  assumes "filed st sl" "slot_core sl"
  shows "distinct (map snd (sl_pending sl))"
proof -
  have "inj_on snd (set (sl_pending sl))"
  proof (rule inj_onI)
    fix p q
    assume pq: "p \<in> set (sl_pending sl)" "q \<in> set (sl_pending sl)" "snd p = snd q"
    then have "\<exists>c. heap st (snd r) = Some c \<and> fst r = (pc_backend c, pc_instance c)" if "r \<in> {p, q}" for r
      using assms(1) that pq(1,2) unfolding filed_def by blast
    from this [of p] this [of q] show "p = q" using pq(3) by (auto intro: prod_eqI)
  qed
  then show ?thesis
    using assms(2) by (simp add: slot_core_def distinct_map)
qed

lemma filed_inv_put:
  "filed_inv st \<Longrightarrow> (\<And>sl. x = Some sl \<Longrightarrow> filed st sl) \<Longrightarrow> filed_inv (put pl x st)"
  by (simp add: filed_inv_def filed_def)

lemma filed_inv_at: "filed_inv st \<Longrightarrow> table st pl = Some sl \<Longrightarrow> filed st sl"
  unfolding filed_inv_def by blast

lemma filed_inv_other [simp]:
  "filed_inv (st\<lparr>ready := r\<rparr>) = filed_inv st" "filed_inv (st\<lparr>next_waiter := n\<rparr>) = filed_inv st"
  by (simp_all add: filed_inv_def filed_def)

lemma filed_inv_put_drop: "filed_inv st \<Longrightarrow> filed st sl \<Longrightarrow> filed_inv (put pl (drop_if_idle sl) st)"
  by (rule filed_inv_put) (simp_all add: drop_if_idle_Some)

lemma filed_inv_put_Some: "filed_inv st \<Longrightarrow> filed st sl \<Longrightarrow> filed_inv (put pl (Some sl) st)"
  by (rule filed_inv_put) simp_all

lemma filed_inv_heap: "heap_grows st st' \<Longrightarrow> table st' = table st \<Longrightarrow> filed_inv st \<Longrightarrow> filed_inv st'"
  using filed_grows unfolding filed_inv_def by metis

lemma filed_waiters [simp]: "filed st (sl\<lparr>sl_waiters := ws\<rparr>) = filed st sl"
  "filed st (sl\<lparr>sl_state := s\<rparr>) = filed st sl" "filed st (sl\<lparr>sl_generation := g\<rparr>) = filed st sl"
  "filed st (sl\<lparr>sl_shared := h\<rparr>) = filed st sl" "filed st (sl\<lparr>sl_exclusive := e\<rparr>) = filed st sl"
  "filed st (left_by owner sl) = filed st sl" "filed st (sl\<lparr>sl_pending := []\<rparr>)" "filed st fresh_slot"
  by (simp_all add: filed_def fresh_slot_def)

lemma filed_inv_wake: "filed_inv st \<Longrightarrow> filed_inv (wake shut pl st)"
  by (cases "table st pl") (simp_all add: wake_def Let_def filed_inv_put_drop filed_inv_at)

lemma filed_put [simp]: "filed (put pl x st) sl = filed st sl"
  by (simp add: filed_def)

lemma filed_inv_take:
  assumes "take_turn shut pl owner exclusive lp queued seen now timeout deadline st = (turn, st')" "filed_inv st"
  shows "filed_inv st'"
proof (cases "table st pl")
  case None
  then show ?thesis using assms
    by (auto simp: take_turn_def Let_def filed_inv_put_Some split: if_splits option.splits)
next
  case (Some sl)
  note at_sl = filed_inv_at [OF assms(2) Some]
  show ?thesis using assms Some at_sl
    by (auto simp: take_turn_def Let_def filed_inv_put_Some split: if_splits option.splits)
qed

lemma filed_inv_release:
  assumes "release shut pl owner st = (claimed, st')" "filed_inv st"
  shows "filed_inv st'"
  using assms(1)
proof (cases rule: release_cases)
  case stranger
  then show ?thesis using assms(2) by simp
next
  case (claims sl)
  then show ?thesis using assms(2) filed_inv_at [OF assms(2) claims(1)] by (simp add: filed_inv_put_Some)
next
  case (reopens sl)
  then show ?thesis using assms(2) filed_inv_at [OF assms(2) reopens(1)]
    by (simp add: filed_inv_wake filed_inv_put_drop)
next
  case (others sl)
  then show ?thesis using assms(2) filed_inv_at [OF assms(2) others(1)]
    by (simp add: filed_inv_wake filed_inv_put_drop)
qed

lemma filed_inv_queue:
  assumes q: "queue_cleanup pl owner addr st = Inr (addr', st')" and inv: "filed_inv st"
  shows "filed_inv st'"
proof -
  from q obtain sl new where sl: "table st pl = Some sl" and new: "heap st addr = Some new"
    by (auto simp: queue_cleanup_def split: option.splits if_splits)
  note at_sl = filed_inv_at [OF inv sl]
  let ?k = "(pc_backend new, pc_instance new)"
  show ?thesis
  proof (cases "map_of (sl_pending sl) ?k")
    case None
    have "filed st (sl\<lparr>sl_state := DRAINING, sl_pending := sl_pending sl @ [(?k, addr)]\<rparr>)"
      using at_sl new by (simp add: filed_def)
    then show ?thesis
      using q sl new None inv by (auto simp: queue_cleanup_def filed_inv_put_Some split: if_splits)
  next
    case (Some a)
    then obtain old where st': "st' = (put pl (Some (sl\<lparr>sl_state := DRAINING\<rparr>)) st)
        \<lparr>heap := (heap st)(a \<mapsto> fold_cleanup old new)\<rparr>"
      and old: "heap st a = Some old"
      using q sl new by (auto simp: queue_cleanup_def split: option.splits if_splits)
    have "filed_inv (put pl (Some (sl\<lparr>sl_state := DRAINING\<rparr>)) st)"
      using at_sl inv by (simp add: filed_inv_put_Some)
    then show ?thesis
      unfolding st' using old
      by (elim filed_inv_heap [rotated 2]) (auto intro!: heap_grows_at simp: strengthens_fold)
  qed
qed

lemma filed_inv_step: "slot_step shut st st' \<Longrightarrow> filed_inv st \<Longrightarrow> filed_inv st'"
proof (induction rule: slot_step.induct)
  case (s_give_up st pl wid)
  then show ?case
    by (cases "table st pl")
      (simp_all add: forget_waiter_def filed_inv_wake filed_inv_put_drop filed_inv_at)
next
  case (s_drain st pl owner)
  then show ?case
    by (cases "table st pl") (simp_all add: drain_def filed_inv_put_Some filed_inv_at)
next
  case (s_renew st pl)
  then show ?case
    by (cases "table st pl") (simp_all add: renew_def filed_inv_wake filed_inv_put_Some filed_inv_at)
next
  case (s_cleaned pl st st')
  then show ?case
    by (auto elim!: cleaned_cases simp: filed_inv_wake filed_inv_put_drop)
next
  case (s_new st addr c)
  show ?case
    by (rule filed_inv_heap [OF heap_grows_step [OF slot_step.s_new [OF s_new(1-3)]] _ s_new(4)])
      (simp add: new_cleanup_def)
next
  case (s_complete st addr failure)
  show ?case
    by (rule filed_inv_heap [OF heap_grows_step [OF slot_step.s_complete] _ s_complete])
      (simp add: complete_cleanup_def split: option.splits)
next
  case (s_wait lp addr st turn st')
  show ?case
    using s_wait(1) by (intro filed_inv_heap [OF heap_grows_step [OF slot_step.s_wait [OF s_wait(1)]] _ s_wait(2)])
      (auto simp: wait_cleanup_def Let_def split: option.splits if_splits)
next
  case (s_wait_over addr wid st turn st')
  show ?case
    using s_wait_over(1)
    by (intro filed_inv_heap [OF heap_grows_step [OF slot_step.s_wait_over [OF s_wait_over(1)]] _ s_wait_over(2)])
      (auto simp: wait_over_def split: option.splits)
qed (auto intro: filed_inv_take filed_inv_release filed_inv_queue)

lemma filed_inv_empty: "filed_inv empty_slots"
  by (simp add: filed_inv_def empty_slots_def)

lemma filed_inv_reachable: "slot_reachable loops st \<Longrightarrow> filed_inv st"
  by (induction rule: slot_reachable.induct)
    (auto intro: filed_inv_step filed_inv_empty)

subsection \<open>Executions to apply the properties to\<close>

lemma reach_enter:
  "slot_reachable loops st \<Longrightarrow> loops shut \<Longrightarrow> lp \<notin> shut \<Longrightarrow>
   slot_reachable loops (snd (take_turn shut pl owner exclusive lp None None now timeout deadline st))"
  by (rule r_step, assumption+, rule s_enter [of _ pl owner exclusive lp now timeout deadline], rule prod.collapse [symmetric])

lemma reach_release:
  "slot_reachable loops st \<Longrightarrow> loops shut \<Longrightarrow> slot_reachable loops (snd (release shut pl owner st))"
  by (rule r_step, assumption+, rule s_release, rule prod.collapse [symmetric])

lemma reach_new:
  "slot_reachable loops st \<Longrightarrow> loops shut \<Longrightarrow> heap st addr = None \<Longrightarrow> \<not> pc_done c \<Longrightarrow> pc_waiters c = [] \<Longrightarrow>
   slot_reachable loops (new_cleanup addr c st)"
  using r_step s_new by blast

lemma reach_queue:
  "slot_reachable loops st \<Longrightarrow> loops shut \<Longrightarrow> queue_cleanup pl owner addr st = Inr (a, st') \<Longrightarrow> slot_reachable loops st'"
  using r_step s_queue by blast

definition demo_place :: place where
  "demo_place = (\<lparr>key_scope = ''s'', thread_id = ''t'', agent_id = ''a'', call_id = []\<rparr>, ''k'')"

definition demo_cleanup :: "cleanup \<Rightarrow> rat \<Rightarrow> pending_cleanup" where
  "demo_cleanup rung timeout = \<lparr>pc_backend = 0, pc_spec = sample_spec, pc_sandbox = 0, pc_instance = ''i'', pc_rung = rung,
     pc_timeout = timeout, pc_unclean = None, pc_done = False, pc_failure = None, pc_waiters = []\<rparr>"

text \<open>Two callers inside, one of which condemns the instance; then the first leaves.\<close>

definition demo_enter :: "string \<Rightarrow> bool \<Rightarrow> slots \<Rightarrow> slots" where
  "demo_enter owner exclusive st = snd (take_turn {} demo_place owner exclusive 0 None None 0 9 9 st)"

definition demo_shared :: slots where
  "demo_shared = new_cleanup 7 (demo_cleanup RESET 5) (demo_enter ''b'' False (demo_enter ''a'' False empty_slots))"

definition demo_draining :: slots where
  "demo_draining = (case queue_cleanup demo_place ''a'' 7 demo_shared of Inr (_, st) \<Rightarrow> st | Inl _ \<Rightarrow> demo_shared)"

definition demo_last :: slots where
  "demo_last = snd (release {} demo_place ''b'' demo_draining)"

lemma demo_shared_reachable: "slot_reachable (\<lambda>s. s = {}) demo_shared"
  unfolding demo_shared_def demo_enter_def
  by (intro reach_new reach_enter r_start refl) (simp_all, code_simp+)

lemma demo_draining_queued: "queue_cleanup demo_place ''a'' 7 demo_shared = Inr (7, demo_draining)"
proof -
  have "map_sum id fst (queue_cleanup demo_place ''a'' 7 demo_shared) = Inr 7" by code_simp
  then show ?thesis
    by (cases "queue_cleanup demo_place ''a'' 7 demo_shared") (auto simp: demo_draining_def)
qed

lemma demo_draining_reachable: "slot_reachable (\<lambda>s. s = {}) demo_draining"
  by (rule reach_queue [OF demo_shared_reachable refl demo_draining_queued])

lemma demo_last_reachable: "slot_reachable (\<lambda>s. s = {}) demo_last"
  unfolding demo_last_def by (rule reach_release [OF demo_draining_reachable refl])

subsection \<open>Exclusion\<close>

text \<open>
  C3: An exclusive holder is alone.  In every execution, whatever the order of the calls and
  whichever loops close, while one call holds a sandbox exclusively no other call holds it in
  either way.
\<close>

theorem exclusive_holder_is_alone:
  assumes "slot_reachable loops st" and "table st pl = Some sl" and "sl_exclusive sl = Some h"
    and "holds pl owner st"
  shows "owner = h"
  using slots_inv_core [OF slots_inv_reachable [OF assms(1)] assms(2)] assms(2-4)
  by (auto simp: slot_core_def holds_def held_by_def)

definition demo_alone :: slots where
  "demo_alone = demo_enter ''x'' True empty_slots"

lemma demo_alone_reachable: "slot_reachable (\<lambda>s. s = {}) demo_alone"
  unfolding demo_alone_def demo_enter_def by (intro reach_enter r_start refl) simp

theorem exclusive_holder_is_alone_witness: "\<exists>st sl. table st demo_place = Some sl \<and> sl_exclusive sl = Some ''x''
    \<and> holds demo_place ''x'' st \<and> \<not> holds demo_place ''y'' st"
proof -
  have eq: "map_option sl_exclusive (table demo_alone demo_place) = Some (Some ''x'')"
    and x: "holds demo_place ''x'' demo_alone" by code_simp+
  then obtain sl where sl: "table demo_alone demo_place = Some sl" "sl_exclusive sl = Some ''x''" by auto
  have "\<not> holds demo_place ''y'' demo_alone"
    using exclusive_holder_is_alone [OF demo_alone_reachable sl, of "''y''"] by auto
  with sl x show ?thesis by blast
qed

subsection \<open>Cleanup\<close>

lemma holds_put [simp]: "holds pl h (put pl (Some sl) st) = held_by sl h"
  by (simp add: holds_def)

lemma stranger_release: "\<not> holds pl owner st \<Longrightarrow> release shut pl owner st = ([], st)"
  by (simp add: release_def holds_def split: option.splits)

lemma vacant_held [simp]: "vacant sl \<Longrightarrow> \<not> held_by sl owner"
  by (simp add: vacant_def held_by_def)

lemma held_by_state [simp]: "held_by (sl\<lparr>sl_state := s\<rparr>) owner = held_by sl owner"
  by (simp add: held_by_def)

lemma cleaning_not_entered:
  assumes "table st pl = Some sl" "sl_state sl \<noteq> SERVING" "vacant sl"
  shows "\<exists>w g d st'. take_turn shut pl owner exclusive lp None seen now timeout deadline st = (Waits w g d, st')"
  using assms by (simp add: take_turn_def Let_def free_for_def vacant_def)

text \<open>
  Cleanup is claimed once and runs alone.  A release that is handed anything to clean is
  handed every condemned instance, each once, and leaves the sandbox cleaning with nobody
  inside: whoever releases it again claims nothing, and every call that asks to enter, shared
  or exclusive, is made to wait.
\<close>

theorem cleanup_is_claimed_once:
  assumes "slot_reachable loops st" and "release shut pl owner st = (claimed, st')" and "claimed \<noteq> []"
  shows "distinct claimed
    \<and> (\<exists>sl. table st' pl = Some sl \<and> sl_state sl = CLEANING \<and> claimed = map snd (sl_pending sl))
    \<and> (\<forall>h. \<not> holds pl h st') \<and> (\<forall>h. release shut pl h st' = ([], st'))
    \<and> (\<forall>h exclusive lp now timeout deadline. \<exists>w g d st''.
         take_turn shut pl h exclusive lp None None now timeout deadline st' = (Waits w g d, st''))"
  using assms(2)
proof (cases rule: release_cases)
  case (claims sl)
  let ?fin = "(left_by owner sl)\<lparr>sl_state := CLEANING\<rparr>"
  have tab: "table st' pl = Some ?fin" using claims(6) by simp
  have none: "vacant ?fin" using claims(3) by (simp add: vacant_def)
  then have nobody: "\<not> holds pl h st'" for h using tab vacant_held [OF none] by (simp add: holds_def)
  have "distinct claimed"
    using filed_distinct [OF filed_inv_at [OF filed_inv_reachable [OF assms(1)] claims(1)]
        slots_inv_core [OF slots_inv_reachable [OF assms(1)] claims(1)]] claims(5) by simp
  moreover have "claimed = map snd (sl_pending ?fin)" using claims(5) by simp
  moreover have "sl_state ?fin \<noteq> SERVING" by simp
  ultimately show ?thesis
    using nobody stranger_release [OF nobody] cleaning_not_entered [OF tab _ none] tab by fastforce
qed (use assms(3) in simp_all)

theorem cleanup_is_claimed_once_witness:
  "\<not> holds demo_place ''a'' (snd (release {} demo_place ''a'' demo_last))
   \<and> fst (release {} demo_place ''a'' demo_last) = [7]"
proof -
  have f: "fst (release {} demo_place ''a'' demo_last) = [7]" by code_simp
  then have "release {} demo_place ''a'' demo_last = ([7], snd (release {} demo_place ''a'' demo_last))"
    by (simp add: prod_eq_iff)
  from cleanup_is_claimed_once [OF demo_last_reachable this] f show ?thesis by simp
qed

text \<open>
  The last one out cleans, and nobody else.  When a holder leaves a sandbox with condemned
  instances, it is handed all of them exactly when nobody is left inside, and none otherwise.
\<close>

theorem last_one_out_cleans:
  assumes "slot_reachable loops st" and "table st pl = Some sl" and "holds pl owner st" and "sl_pending sl \<noteq> []"
    and "release shut pl owner st = (claimed, st')"
  shows "if \<exists>h. holds pl h st' then claimed = [] else claimed = map snd (sl_pending sl)"
  using assms(5)
proof (cases rule: release_cases)
  case stranger
  then show ?thesis using assms(3) by simp
next
  case (claims sl')
  then show ?thesis using assms(2) vacant_held by auto
next
  case (reopens sl')
  then show ?thesis using assms(2,4) by simp
next
  case (others sl')
  let ?left = "left_by owner sl'"
  obtain h where h: "held_by ?left h" using others(3) by (auto simp: vacant_def held_by_def)
  then have "\<not> idle (?left\<lparr>sl_waiters := ws\<rparr>)" "\<not> idle ?left" for ws
    by (auto simp: idle_def held_by_def)
  then have "table st' pl = Some (?left\<lparr>sl_waiters := open_waiters shut (sl_waiters ?left)\<rparr>)"
    using others(5) by (simp add: wake_def Let_def drop_if_idle_def)
  then have "holds pl h st'" using h by (simp add: holds_def held_by_def)
  then show ?thesis using others(4) by auto
qed

theorem last_one_out_cleans_witness:
  "fst (release {} demo_place ''a'' demo_last) = [7] \<and> (\<nexists>h. holds demo_place h (snd (release {} demo_place ''a'' demo_last)))"
proof -
  have p: "map_option (map snd \<circ> sl_pending) (table demo_last demo_place) = Some [7]"
    and a: "holds demo_place ''a'' demo_last"
    and f: "fst (release {} demo_place ''a'' demo_last) = [7]" by code_simp+
  then obtain sl where sl: "table demo_last demo_place = Some sl" "map snd (sl_pending sl) = [7]" by auto
  then have "sl_pending sl \<noteq> []" by auto
  from last_one_out_cleans [OF demo_last_reachable sl(1) a this prod.collapse [symmetric], of "{}"] f
  show ?thesis by (auto split: if_splits)
qed

text \<open>
  C4: A condemned instance stays condemned until its cleanup is done.  No step of any caller
  forgets a record that waits in a slot or reopens admission over it: after it the record is
  still in the slot and the slot is not serving, unless the record's cleanup was already
  complete.
\<close>

theorem condemned_until_done:
  assumes "slot_reachable loops st" and "slot_step shut st st'" and "table st pl = Some sl"
    and "(k, addr) \<in> set (sl_pending sl)"
  shows "(\<exists>sl'. table st' pl = Some sl' \<and> (k, addr) \<in> set (sl_pending sl') \<and> sl_state sl' \<noteq> SERVING)
    \<or> (\<exists>c. heap st addr = Some c \<and> pc_done c)"
proof -
  have "sl_pending sl \<noteq> []" using assms(4) by auto
  with keeps_pending_or_done [OF assms(2) slots_inv_reachable [OF assms(1)] assms(3)]
  consider sl' where "table st' pl = Some sl'" "carries sl sl'" | "all_done st sl" by blast
  then show ?thesis
  proof cases
    case 1
    moreover have "slot_core sl'"
      by (rule slots_inv_core [OF slots_inv_step [OF assms(2) slots_inv_reachable [OF assms(1)]] 1(1)])
    moreover from 1(2) have "(k, addr) \<in> set (sl_pending sl')"
      using assms(4) by (auto simp: carries_def)
    ultimately show ?thesis by (auto simp: slot_core_def)
  next
    case 2
    then have "\<exists>c. heap st addr = Some c \<and> pc_done c"
      using assms(4) unfolding all_done_def by (metis (no_types) image_eqI set_map snd_conv)
    then show ?thesis ..
  qed
qed

theorem condemned_until_done_witness:
  "\<exists>sl. table (snd (release {} demo_place ''a'' demo_last)) demo_place = Some sl \<and> sl_state sl \<noteq> SERVING
     \<and> ((0, ''i''), 7) \<in> set (sl_pending sl)"
proof -
  have p: "map_option sl_pending (table demo_last demo_place) = Some [((0, ''i''), 7)]"
    and d: "map_option pc_done (heap demo_last 7) = Some False" by code_simp+
  then obtain sl where sl: "table demo_last demo_place = Some sl" "((0, ''i''), 7) \<in> set (sl_pending sl)" by auto
  have "slot_step {} demo_last (snd (release {} demo_place ''a'' demo_last))"
    by (rule s_release [OF prod.collapse [symmetric]])
  from condemned_until_done [OF demo_last_reachable this sl] d show ?thesis by auto
qed

text \<open>
  A condemnation covers what was asked.  Whichever record answers a queued cleanup, it is
  filed for the same instance of the same backend and its slot drains; its rung is at or above
  the one asked and those it had, its bound at or below both, and no reason recorded for it is
  lost.
\<close>

theorem queued_cleanup_covers_the_request:
  assumes "slot_reachable loops st" and "heap st addr = Some new"
    and "queue_cleanup pl owner addr st = Inr (addr', st')"
  shows "\<exists>c sl. heap st' addr' = Some c \<and> table st' pl = Some sl \<and> sl_state sl = DRAINING
    \<and> map_of (sl_pending sl) (pc_backend new, pc_instance new) = Some addr'
    \<and> pc_backend c = pc_backend new \<and> pc_instance c = pc_instance new
    \<and> pc_rung new \<le> pc_rung c \<and> pc_timeout c \<le> pc_timeout new
    \<and> (pc_unclean new \<notin> {None, Some []} \<longrightarrow> pc_unclean c \<notin> {None, Some []})
    \<and> (\<forall>old. heap st addr' = Some old \<longrightarrow> pc_rung old \<le> pc_rung c \<and> pc_timeout c \<le> pc_timeout old
         \<and> (pc_unclean old \<notin> {None, Some []} \<longrightarrow> pc_unclean c = pc_unclean old))"
proof -
  from assms(3) obtain sl where sl: "table st pl = Some sl" "held_by sl owner"
    by (auto simp: queue_cleanup_def split: option.splits if_splits)
  let ?k = "(pc_backend new, pc_instance new)"
  show ?thesis
  proof (cases "map_of (sl_pending sl) ?k")
    case None
    then show ?thesis
      using assms(2,3) sl by (auto simp: queue_cleanup_def map_add_def)
  next
    case (Some a)
    obtain old where old: "heap st a = Some old" "pc_backend old = pc_backend new" "pc_instance old = pc_instance new"
      using filed_inv_at [OF filed_inv_reachable [OF assms(1)] sl(1)] map_of_SomeD [OF Some]
      by (auto simp: filed_def)
    then have "addr' = a" "st' = (put pl (Some (sl\<lparr>sl_state := DRAINING\<rparr>)) st)\<lparr>heap := (heap st)(a \<mapsto> fold_cleanup old new)\<rparr>"
      using assms(2,3) sl Some by (auto simp: queue_cleanup_def)
    then show ?thesis using old Some by (auto simp: fold_cleanup_def or_else_def)
  qed
qed

definition demo_second :: slots where
  "demo_second = new_cleanup 8 (demo_cleanup DISPOSE 9) demo_draining"

lemma demo_second_reachable: "slot_reachable (\<lambda>s. s = {}) demo_second"
  unfolding demo_second_def
  by (rule reach_new [OF demo_draining_reachable refl]) (simp_all add: demo_cleanup_def, code_simp)

theorem queued_cleanup_covers_the_request_witness:
  "map_sum id fst (queue_cleanup demo_place ''b'' 8 demo_second) = Inr 7
   \<and> (\<exists>st' c. queue_cleanup demo_place ''b'' 8 demo_second = Inr (7, st') \<and> heap st' 7 = Some c
        \<and> pc_rung c = DISPOSE \<and> pc_timeout c \<le> 5)"
proof -
  have q: "map_sum id fst (queue_cleanup demo_place ''b'' 8 demo_second) = Inr 7" by code_simp
  then obtain st' where st': "queue_cleanup demo_place ''b'' 8 demo_second = Inr (7, st')"
    by (cases "queue_cleanup demo_place ''b'' 8 demo_second") auto
  have new: "heap demo_second 8 = Some (demo_cleanup DISPOSE 9)" by (simp add: demo_second_def new_cleanup_def)
  have old: "map_option pc_timeout (heap demo_second 7) = Some 5" by code_simp
  from queued_cleanup_covers_the_request [OF demo_second_reachable new st'] old
  obtain c where "heap st' 7 = Some c" "DISPOSE \<le> pc_rung c" "pc_timeout c \<le> 5"
    by (auto simp: demo_cleanup_def)
  moreover from this(2) have "pc_rung c = DISPOSE" by (cases "pc_rung c") (simp_all add: less_eq_cleanup_def cleanup_rank_def cleanup_ladder_def)
  ultimately show ?thesis using q st' by blast
qed

subsection \<open>Re-entry\<close>

text \<open>
  A call may hold one sandbox both ways.  The slot's own comment says that its exclusive
  owner is never set while the shared set is non-empty; a call that holds it exclusively and
  takes it again as an ordinary caller makes both hold at once, and leaving once then gives up
  the exclusive hold only.  (It stays alone inside: the shared set is its own.)
\<close>

theorem exclusive_owner_may_share_too:
  "\<exists>st sl. slot_reachable (\<lambda>s. s = {}) st \<and> table st demo_place = Some sl
     \<and> sl_exclusive sl = Some ''x'' \<and> sl_shared sl = {''x''}
     \<and> holds demo_place ''x'' (snd (release {} demo_place ''x'' st))"
proof -
  let ?st = "demo_enter ''x'' False demo_alone"
  have "slot_reachable (\<lambda>s. s = {}) ?st"
    unfolding demo_enter_def by (intro reach_enter demo_alone_reachable refl) simp
  moreover have "map_option (\<lambda>sl. (sl_exclusive sl, sl_shared sl)) (table ?st demo_place) = Some (Some ''x'', {''x''})"
    and "holds demo_place ''x'' (snd (release {} demo_place ''x'' ?st))" by code_simp+
  ultimately show ?thesis by (intro exI [of _ ?st]) auto
qed

end
