(* ===== verification/Slot_Waiters.thy ===== *)
theory Slot_Waiters
  imports Slot_Properties
begin

text \<open>
  Who sleeps in front of a sandbox.  Every waiter has a number of its own; while no event loop
  closes, a waiter that could enter has always been woken, and so has every waiter of a cleanup
  that is complete.  A loop that closes breaks the first of the two.
\<close>

subsection \<open>Waiters are told apart\<close>

text \<open>The lists a waiter can stand in: in front of a place, or of a record.\<close>

definition waiting :: "slots \<Rightarrow> place + nat \<Rightarrow> waiter list" where
  "waiting st x = (case x of
     Inl pl \<Rightarrow> (case table st pl of None \<Rightarrow> [] | Some sl \<Rightarrow> sl_waiters sl)
   | Inr addr \<Rightarrow> (case heap st addr of None \<Rightarrow> [] | Some c \<Rightarrow> pc_waiters c))"

definition ids_ok :: "slots \<Rightarrow> bool" where
  "ids_ok st \<longleftrightarrow> (\<forall>x. distinct (map w_id (waiting st x)))
     \<and> (\<forall>x. \<forall>w \<in> set (waiting st x). w_id w < next_waiter st)
     \<and> (\<forall>x y. \<forall>w \<in> set (waiting st x). \<forall>v \<in> set (waiting st y). w_id w = w_id v \<longrightarrow> x = y)
     \<and> ready st \<subseteq> {..<next_waiter st}"

text \<open>A step lets waiters go, or lets them go and adds one with the next number.\<close>

definition thins :: "slots \<Rightarrow> slots \<Rightarrow> bool" where
  "thins st st' \<longleftrightarrow> next_waiter st' = next_waiter st
     \<and> (\<forall>i \<in> ready st'. i \<in> ready st \<or> (\<exists>x w. w \<in> set (waiting st x) \<and> w_id w = i))
     \<and> (\<forall>x. \<exists>P. waiting st' x = filter P (waiting st x))"

definition joins :: "slots \<Rightarrow> slots \<Rightarrow> bool" where
  "joins st st' \<longleftrightarrow> next_waiter st' = Suc (next_waiter st) \<and> ready st' \<subseteq> ready st
     \<and> (\<exists>x P w. w_id w = next_waiter st \<and> waiting st' x = filter P (waiting st x) @ [w]
          \<and> (\<forall>y. y \<noteq> x \<longrightarrow> waiting st' y = waiting st y))"

lemma ids_ok_thins:
  assumes "thins st st'" and "ids_ok st"
  shows "ids_ok st'"
proof -
  have part: "\<exists>P. waiting st' x = filter P (waiting st x)" for x using assms(1) by (simp add: thins_def)
  have sub: "w \<in> set (waiting st x)" if "w \<in> set (waiting st' x)" for w x
    using part [of x] that by auto
  have dist: "distinct (map w_id (waiting st' x))" for x
  proof -
    have "distinct (map w_id (waiting st x))" using assms(2) by (simp add: ids_ok_def)
    then show ?thesis using part [of x] by (auto simp: distinct_map_filter)
  qed
  have n: "next_waiter st' = next_waiter st" using assms(1) by (simp add: thins_def)
  have less: "w_id w < next_waiter st" if "w \<in> set (waiting st x)" for w x
    using assms(2) that unfolding ids_ok_def by blast
  have "ready st' \<subseteq> {..<next_waiter st}"
  proof
    fix i assume "i \<in> ready st'"
    with assms(1) consider "i \<in> ready st" | x w where "w \<in> set (waiting st x)" "w_id w = i"
      unfolding thins_def by blast
    then show "i \<in> {..<next_waiter st}"
      by cases (use assms(2) less in \<open>auto simp: ids_ok_def\<close>)
  qed
  moreover have "x = y" if "w \<in> set (waiting st' x)" "v \<in> set (waiting st' y)" "w_id w = w_id v" for x y w v
    using assms(2) sub that unfolding ids_ok_def by blast
  ultimately show ?thesis
    using dist less sub unfolding ids_ok_def n by blast
qed

lemma ids_ok_joins:
  assumes "joins st st'" and ok: "ids_ok st"
  shows "ids_ok st'"
proof -
  from assms(1) obtain x P w where w: "w_id w = next_waiter st" "waiting st' x = filter P (waiting st x) @ [w]"
    and same: "\<And>y. y \<noteq> x \<Longrightarrow> waiting st' y = waiting st y"
    and n: "next_waiter st' = Suc (next_waiter st)" "ready st' \<subseteq> ready st"
    unfolding joins_def by blast
  have old: "v \<in> set (waiting st y) \<or> (y = x \<and> v = w)" if "v \<in> set (waiting st' y)" for v y
    using that same w(2) by (cases "y = x") auto
  have less: "w_id v < next_waiter st" if "v \<in> set (waiting st y)" for v y
    using ok that unfolding ids_ok_def by blast
  have "distinct (map w_id (waiting st' y))" for y
  proof (cases "y = x")
    case True
    have "distinct (map w_id (waiting st x))" using ok unfolding ids_ok_def by blast
    then show ?thesis using True w less [of _ x] by (auto simp: distinct_map_filter) fastforce
  next
    case False
    then show ?thesis using ok same unfolding ids_ok_def by simp
  qed
  moreover have "w_id v < next_waiter st'" if "v \<in> set (waiting st' y)" for v y
    using old [OF that] less w(1) n(1) by (auto simp: less_Suc_eq)
  moreover have "y = z" if "v \<in> set (waiting st' y)" "u \<in> set (waiting st' z)" "w_id v = w_id u" for v u y z
    using old [OF that(1)] old [OF that(2)] that(3) less w(1) ok unfolding ids_ok_def by (metis less_irrefl)
  moreover have "ready st' \<subseteq> {..<next_waiter st'}"
    using n ok unfolding ids_ok_def by (auto simp: less_Suc_eq)
  ultimately show ?thesis unfolding ids_ok_def by blast
qed

lemma thins_refl [simp]: "thins st st"
  by (auto simp: thins_def intro: exI [of _ "\<lambda>_. True"])

lemma thins_by:
  assumes "next_waiter st' = next_waiter st" and "ready st' \<subseteq> ready st \<union> w_id ` set (waiting st x)"
    and "waiting st' = (waiting st)(x := filter P (waiting st x))"
  shows "thins st st'"
proof -
  have "\<exists>Q. waiting st' y = filter Q (waiting st y)" for y
    using assms(3) by (cases "y = x") (auto intro: exI [of _ "\<lambda>_. True"])
  then show ?thesis using assms(1,2) unfolding thins_def by blast
qed

lemma thins_trans: "thins a b \<Longrightarrow> thins b c \<Longrightarrow> thins a c"
proof -
  assume ab: "thins a b" and bc: "thins b c"
  have sub: "w \<in> set (waiting a x)" if "w \<in> set (waiting b x)" for w x
    using ab that unfolding thins_def by (metis filter_is_subset subsetD)
  have "\<exists>P. waiting c x = filter P (waiting a x)" for x
  proof -
    obtain P Q where "waiting b x = filter P (waiting a x)" "waiting c x = filter Q (waiting b x)"
      using ab bc unfolding thins_def by metis
    then have "waiting c x = filter (\<lambda>w. P w \<and> Q w) (waiting a x)" by (simp add: conj_commute)
    then show ?thesis by blast
  qed
  moreover have "i \<in> ready a \<or> (\<exists>x w. w \<in> set (waiting a x) \<and> w_id w = i)" if "i \<in> ready c" for i
    using ab bc sub that unfolding thins_def by blast
  ultimately show "thins a c" using ab bc unfolding thins_def by simp
qed

lemma waiting_put [simp]:
  "waiting (put pl (Some sl) st) = (waiting st)(Inl pl := sl_waiters sl)"
  "waiting (put pl (drop_if_idle sl) st) = (waiting st)(Inl pl := sl_waiters sl)"
  by (auto simp: waiting_def drop_if_idle_def idle_def split: sum.splits)

lemma waiting_other [simp]:
  "waiting (st\<lparr>ready := r\<rparr>) = waiting st" "waiting (st\<lparr>next_waiter := n\<rparr>) = waiting st"
  by (simp_all add: waiting_def fun_eq_iff split: sum.splits)

lemma waiting_slot: "table st pl = Some sl \<Longrightarrow> waiting st (Inl pl) = sl_waiters sl"
  by (simp add: waiting_def)

lemma thins_put:
  assumes "sl_waiters sl' = filter P (waiting st (Inl pl))"
  shows "thins st (put pl (Some sl') st)" "thins st (put pl (drop_if_idle sl') st)"
  by (rule thins_by [where x = "Inl pl" and P = P]; simp add: assms)+

lemma thins_same:
  "table st pl = Some sl \<Longrightarrow> sl_waiters sl' = sl_waiters sl \<Longrightarrow> thins st (put pl (Some sl') st)"
  "table st pl = Some sl \<Longrightarrow> sl_waiters sl' = sl_waiters sl \<Longrightarrow> thins st (put pl (drop_if_idle sl') st)"
  by (rule thins_put [where P = "\<lambda>_. True"]; simp add: waiting_slot)+

lemma thins_wake: "thins st (wake shut pl st)"
proof (cases "table st pl")
  case (Some sl)
  show ?thesis
    by (rule thins_by [where x = "Inl pl" and P = "\<lambda>w. w_loop w \<notin> shut"])
      (use Some in \<open>auto simp: wake_def Let_def open_waiters_def waiting_slot\<close>)
qed (simp add: wake_def)

lemma thins_put_wake:
  "table st pl = Some sl \<Longrightarrow> sl_waiters sl' = sl_waiters sl \<Longrightarrow> thins st (wake shut pl (put pl (Some sl') st))"
  "table st pl = Some sl \<Longrightarrow> sl_waiters sl' = sl_waiters sl \<Longrightarrow> thins st (wake shut pl (put pl (drop_if_idle sl') st))"
  using thins_trans [OF thins_same(1) thins_wake] thins_trans [OF thins_same(2) thins_wake] by blast+

lemma thins_heap:
  assumes "heap st a = None \<or> (\<exists>c. heap st a = Some c \<and> (\<exists>P. pc_waiters c' = filter P (pc_waiters c)))"
    and "heap st a = None \<Longrightarrow> pc_waiters c' = []"
  shows "thins st (st\<lparr>heap := (heap st)(a \<mapsto> c')\<rparr>)"
proof -
  let ?st = "st\<lparr>heap := (heap st)(a \<mapsto> c')\<rparr>"
  have eq: "waiting ?st = (waiting st)(Inr a := pc_waiters c')"
    by (auto simp: waiting_def fun_eq_iff split: sum.splits)
  obtain P where "pc_waiters c' = filter P (waiting st (Inr a))"
    using assms by (auto simp: waiting_def split: option.splits)
  with eq have "waiting ?st = (waiting st)(Inr a := filter P (waiting st (Inr a)))" by simp
  then show ?thesis by (intro thins_by) simp_all
qed

lemma step_waiters_take:
  assumes "take_turn shut pl owner exclusive lp queued seen now timeout deadline st = (turn, st')"
    and "\<And>q. queued = Some q \<Longrightarrow> \<exists>sl. table st pl = Some sl \<and> q \<in> set (sl_waiters sl)"
  shows "thins st st' \<or> joins st st'"
proof -
  define sl0 where "sl0 = (case table st pl of None \<Rightarrow> fresh_slot | Some s \<Rightarrow> s)"
  have w0: "waiting st (Inl pl) = sl_waiters sl0"
    by (simp add: waiting_def sl0_def fresh_slot_def split: option.split)
  define sl where "sl = sl0\<lparr>sl_waiters := open_waiters shut (sl_waiters sl0)\<rparr>"
  let ?in = "free_for sl exclusive (ahead_of queued (sl_waiters sl)) \<or> sl_exclusive sl = Some owner
    \<or> (\<not> exclusive \<and> owner \<in> sl_shared sl)"
  have part: "\<exists>P. sl_waiters sl = filter P (waiting st (Inl pl))"
    unfolding sl_def w0 open_waiters_def by auto
  show ?thesis
  proof (cases ?in)
    case True
    define gone where "gone = (case queued of None \<Rightarrow> sl_waiters sl
      | Some q \<Rightarrow> filter (\<lambda>w. w_id w \<noteq> w_id q) (sl_waiters sl))"
    define inside where "inside = (if exclusive then sl\<lparr>sl_waiters := gone, sl_exclusive := Some owner\<rparr>
      else sl\<lparr>sl_waiters := gone, sl_shared := insert owner (sl_shared sl)\<rparr>)"
    have "st' = put pl (Some inside) st"
      using assms(1) True unfolding take_turn_def sl0_def [symmetric] sl_def [symmetric] gone_def inside_def Let_def by auto
    moreover obtain P where "sl_waiters sl = filter P (waiting st (Inl pl))" using part by blast
    then have "\<exists>Q. gone = filter Q (waiting st (Inl pl))"
      by (cases queued) (auto simp: gone_def)
    then obtain Q where "sl_waiters inside = filter Q (waiting st (Inl pl))" by (auto simp: inside_def)
    ultimately show ?thesis using thins_put(1) by blast
  next
    case False
    show ?thesis
    proof (cases queued)
      case None
      let ?w = "\<lparr>w_id = next_waiter st, w_loop = lp, w_exclusive = exclusive\<rparr>"
      have st': "st' = (put pl (Some (sl\<lparr>sl_waiters := sl_waiters sl @ [?w]\<rparr>)) st)\<lparr>next_waiter := Suc (next_waiter st)\<rparr>"
        using assms(1) False None unfolding take_turn_def sl0_def [symmetric] sl_def [symmetric] Let_def by auto
      obtain P where "sl_waiters sl = filter P (waiting st (Inl pl))" using part by blast
      then have "joins st st'"
        unfolding joins_def st' by (intro conjI exI [of _ "Inl pl"] exI [of _ P] exI [of _ ?w]) simp_all
      then show ?thesis ..
    next
      case (Some q)
      then have st': "st' = (put pl (Some sl) st)\<lparr>ready := ready st - {w_id q}\<rparr>"
        using assms(1) False unfolding take_turn_def sl0_def [symmetric] sl_def [symmetric] Let_def by auto
      obtain P where P: "sl_waiters sl = filter P (waiting st (Inl pl))" using part by blast
      have "thins st st'"
        unfolding st' by (rule thins_by [where x = "Inl pl" and P = P]) (auto simp: P)
      then show ?thesis ..
    qed
  qed
qed

lemma thins_release:
  assumes "release shut pl owner st = (claimed, st')"
  shows "thins st st'"
  using assms
proof (cases rule: release_cases)
  case (claims sl)
  then show ?thesis by (simp add: thins_same)
next
  case (reopens sl)
  then show ?thesis by (simp add: thins_put_wake)
next
  case (others sl)
  then show ?thesis by (simp add: thins_put_wake)
qed simp

lemma thins_queue:
  assumes "queue_cleanup pl owner addr st = Inr (addr', st')"
  shows "thins st st'"
proof -
  from assms obtain sl new where sl: "table st pl = Some sl" and new: "heap st addr = Some new"
    by (auto simp: queue_cleanup_def split: option.splits if_splits)
  show ?thesis
  proof (cases "map_of (sl_pending sl) (pc_backend new, pc_instance new)")
    case None
    then show ?thesis using assms sl new by (auto simp: queue_cleanup_def thins_same split: if_splits)
  next
    case (Some a)
    then obtain old where old: "heap st a = Some old"
      and st': "st' = (put pl (Some (sl\<lparr>sl_state := DRAINING\<rparr>)) st)\<lparr>heap := (heap st)(a \<mapsto> fold_cleanup old new)\<rparr>"
      using assms sl new by (auto simp: queue_cleanup_def split: option.splits if_splits)
    let ?m = "put pl (Some (sl\<lparr>sl_state := DRAINING\<rparr>)) st"
    have "thins ?m (?m\<lparr>heap := (heap ?m)(a \<mapsto> fold_cleanup old new)\<rparr>)"
      by (rule thins_heap) (use old in \<open>auto simp: fold_cleanup_def intro: exI [of _ "\<lambda>_. True"]\<close>)
    then have "thins ?m st'" unfolding st' by simp
    moreover have "thins st ?m" by (rule thins_same(1) [OF sl]) simp
    ultimately show ?thesis using thins_trans by blast
  qed
qed

lemma step_waiters: "slot_step shut st st' \<Longrightarrow> thins st st' \<or> joins st st'"
proof (induction rule: slot_step.induct)
  case (s_enter pl owner exclusive lp now timeout deadline st turn st')
  then show ?case using step_waiters_take [of shut pl owner exclusive lp None] by blast
next
  case (s_retry st pl sl q owner seen now timeout deadline turn st')
  then show ?case using step_waiters_take [OF s_retry(4)] by blast
next
  case (s_give_up st pl wid)
  then show ?case
  proof (cases "table st pl")
    case (Some sl)
    then show ?thesis
      using thins_trans [OF thins_put(2) thins_wake]
      by (simp add: forget_waiter_def waiting_slot)
  qed (simp add: forget_waiter_def)
next
  case (s_new st addr c)
  then show ?case using thins_heap [of st addr c] by (simp add: new_cleanup_def)
next
  case (s_queue pl owner addr st addr' st')
  then show ?case using thins_queue by blast
next
  case (s_drain st pl owner)
  then show ?case by (auto simp: drain_def thins_same split: option.split)
next
  case (s_release pl owner st claimed st')
  then show ?case using thins_release by blast
next
  case (s_complete st addr failure)
  show ?case
  proof (cases "heap st addr")
    case (Some c)
    then have "waiting (complete_cleanup shut addr failure st) = waiting st"
      by (auto simp: complete_cleanup_def waiting_def fun_eq_iff split: sum.splits)
    then have "thins st (complete_cleanup shut addr failure st)"
      by (intro thins_by [where x = "Inr addr" and P = "\<lambda>_. True"])
        (use Some in \<open>auto simp: complete_cleanup_def open_waiters_def waiting_def\<close>)
    then show ?thesis ..
  qed (simp add: complete_cleanup_def)
next
  case (s_wait lp addr st turn st')
  then obtain c where c: "heap st addr = Some c" by (auto simp: wait_cleanup_def split: option.splits)
  show ?case
  proof (cases "pc_done c")
    case True
    then show ?thesis using s_wait c by (simp add: wait_cleanup_def)
  next
    case False
    let ?w = "\<lparr>w_id = next_waiter st, w_loop = lp, w_exclusive = False\<rparr>"
    have st': "st' = st\<lparr>heap := (heap st)(addr \<mapsto> c\<lparr>pc_waiters := pc_waiters c @ [?w]\<rparr>), next_waiter := Suc (next_waiter st)\<rparr>"
      using s_wait c False by (simp add: wait_cleanup_def Let_def)
    have "joins st st'"
      unfolding joins_def
      by (intro conjI exI [of _ "Inr addr"] exI [of _ "\<lambda>_. True"] exI [of _ ?w])
        (use c in \<open>auto simp: st' waiting_def split: sum.splits\<close>)
    then show ?thesis ..
  qed
next
  case (s_wait_over addr wid st turn st')
  then obtain c where "heap st addr = Some c"
    "st' = st\<lparr>heap := (heap st)(addr \<mapsto> c\<lparr>pc_waiters := filter (\<lambda>w. w_id w \<noteq> wid) (pc_waiters c)\<rparr>)\<rparr>"
    by (auto simp: wait_over_def split: option.splits)
  then show ?case using thins_heap [of st addr "c\<lparr>pc_waiters := filter (\<lambda>w. w_id w \<noteq> wid) (pc_waiters c)\<rparr>"] by auto
next
  case (s_renew st pl)
  then show ?case
    by (auto simp: renew_def thins_put_wake split: option.split)
next
  case (s_cleaned pl st st')
  then show ?case
    by (auto elim!: cleaned_cases simp: thins_put_wake)
qed

lemma ids_ok_reachable: "slot_reachable loops st \<Longrightarrow> ids_ok st"
proof (induction rule: slot_reachable.induct)
  case r_start
  show ?case by (auto simp: ids_ok_def waiting_def empty_slots_def split: sum.splits)
next
  case (r_step st shut st')
  then show ?case using step_waiters ids_ok_thins ids_ok_joins by blast
qed

subsection \<open>No call sleeps that could enter\<close>

definition awake_at :: "slots \<Rightarrow> place \<Rightarrow> bool" where
  "awake_at st pl \<longleftrightarrow> (\<forall>sl w. table st pl = Some sl \<longrightarrow> w \<in> set (sl_waiters sl) \<longrightarrow> w_id w \<notin> ready st
     \<longrightarrow> \<not> free_for sl (w_exclusive w) (ahead_of (Some w) (sl_waiters sl)))"

definition answered_at :: "slots \<Rightarrow> nat \<Rightarrow> bool" where
  "answered_at st a \<longleftrightarrow> (\<forall>c w. heap st a = Some c \<longrightarrow> pc_done c \<longrightarrow> w \<in> set (pc_waiters c) \<longrightarrow> w_id w \<in> ready st)"

lemma open_all [simp]: "open_waiters {} ws = ws"
  by (simp add: open_waiters_def)

lemma free_for_waiters [simp]: "free_for (sl\<lparr>sl_waiters := ws\<rparr>) e a = free_for sl e a"
  by (simp add: free_for_def)

lemma awake_not_free:
  "(\<And>sl. table st pl = Some sl \<Longrightarrow> sl_state sl \<noteq> SERVING \<or> sl_exclusive sl \<noteq> None) \<Longrightarrow> awake_at st pl"
  by (auto simp: awake_at_def free_for_def)

lemma awake_same: "table st' pl = table st pl \<Longrightarrow> ready st \<subseteq> ready st' \<Longrightarrow> awake_at st pl \<Longrightarrow> awake_at st' pl"
  by (auto simp: awake_at_def)

lemma awake_wake: "(\<And>p. p \<noteq> pl \<Longrightarrow> awake_at st p) \<Longrightarrow> awake_at (wake {} pl st) p"
proof (cases "table st pl")
  case None
  assume others: "\<And>p. p \<noteq> pl \<Longrightarrow> awake_at st p"
  from None have "awake_at st pl" by (simp add: awake_at_def)
  then have "awake_at st p" using others by (cases "p = pl") simp_all
  then show ?thesis using None by (simp add: wake_def)
next
  case (Some sl)
  assume others: "\<And>p. p \<noteq> pl \<Longrightarrow> awake_at st p"
  have same: "sl\<lparr>sl_waiters := sl_waiters sl\<rparr> = sl" by simp
  have w: "wake {} pl st = (put pl (drop_if_idle sl) st)\<lparr>ready := ready st \<union> w_id ` set (sl_waiters sl)\<rparr>"
    using Some same by (simp add: wake_def Let_def)
  show ?thesis
  proof (cases "p = pl")
    case True
    then show ?thesis unfolding w by (auto simp: awake_at_def drop_if_idle_Some)
  next
    case False
    then show ?thesis unfolding w by (intro awake_same [OF _ _ others]) auto
  qed
qed

lemma awake_put_wake:
  "(\<And>p. awake_at st p) \<Longrightarrow> awake_at (wake {} pl (put pl x st)) p"
  by (rule awake_wake, rule awake_same [of _ _ st]) simp_all

lemma ahead_of_append:
  "w \<in> set ws \<Longrightarrow> ahead_of (Some w) (ws @ vs) = ahead_of (Some w) ws"
  by (auto simp: ahead_of_def takeWhile_append1)

lemma ahead_of_new: "w_id w \<notin> w_id ` set ws \<Longrightarrow> ahead_of (Some w) (ws @ [w]) = ws"
  by (induction ws) (auto simp: ahead_of_def)

lemma ahead_of_without:
  assumes "w \<in> set ws" "w_id w \<noteq> i" "distinct (map w_id ws)"
  shows "set (ahead_of (Some w) ws) \<subseteq> set (ahead_of (Some w) (filter (\<lambda>x. w_id x \<noteq> i) ws)) \<union> {x \<in> set ws. w_id x = i}"
  using assms by (induction ws) (auto simp: ahead_of_def)

text \<open>Shared calls never hold up shared calls: only an exclusive waiter ahead matters to them.\<close>

lemma free_shared:
  "free_for sl False ahead \<longleftrightarrow> sl_exclusive sl = None \<and> (\<forall>w \<in> set ahead. \<not> w_exclusive w) \<and> sl_state sl = SERVING"
  by (auto simp: free_for_def)

lemma awake_admitted:
  assumes awake: "awake_at st pl"
    and sl: "sl = (case table st pl of None \<Rightarrow> fresh_slot | Some s \<Rightarrow> s)"
    and dist: "distinct (map w_id (sl_waiters sl))"
    and queued: "\<And>q. queued = Some q \<Longrightarrow> q \<in> set (sl_waiters sl) \<and> w_exclusive q = exclusive"
    and gone: "gone = (case queued of None \<Rightarrow> sl_waiters sl | Some q \<Rightarrow> filter (\<lambda>w. w_id w \<noteq> w_id q) (sl_waiters sl))"
    and st': "st' = put pl (Some (if exclusive then sl\<lparr>sl_waiters := gone, sl_exclusive := Some owner\<rparr>
      else sl\<lparr>sl_waiters := gone, sl_shared := insert owner (sl_shared sl)\<rparr>)) st"
  shows "awake_at st' pl"
proof (cases exclusive)
  case True
  then show ?thesis by (intro awake_not_free) (auto simp: st')
next
  case False
  have "\<not> free_for (sl\<lparr>sl_waiters := gone, sl_shared := insert owner (sl_shared sl)\<rparr>) (w_exclusive w) (ahead_of (Some w) gone)"
    if w: "w \<in> set gone" and asleep: "w_id w \<notin> ready st" for w
  proof (cases "w_exclusive w")
    case True
    then show ?thesis by (simp add: free_for_def)
  next
    case shared: False
    have ws: "w \<in> set (sl_waiters sl)" using w by (auto simp: gone split: option.splits)
    then have "table st pl = Some sl" by (auto simp: sl fresh_slot_def split: option.splits)
    then have nf: "\<not> free_for sl False (ahead_of (Some w) (sl_waiters sl))"
      using awake ws asleep shared by (auto simp: awake_at_def)
    have "set (ahead_of (Some w) (sl_waiters sl)) \<subseteq> set (ahead_of (Some w) gone) \<union> {x. \<not> w_exclusive x}"
    proof (cases queued)
      case None
      then show ?thesis by (simp add: gone)
    next
      case (Some q)
      then have "w_id w \<noteq> w_id q" using w by (simp add: gone)
      note ahead_of_without [OF ws this dist]
      moreover have "{x \<in> set (sl_waiters sl). w_id x = w_id q} \<subseteq> {x. \<not> w_exclusive x}"
        using queued [OF Some] False dist by (auto simp: distinct_map inj_on_def)
      ultimately show ?thesis using Some by (auto simp: gone)
    qed
    then show ?thesis using nf shared by (auto simp: free_shared)
  qed
  then show ?thesis using False by (auto simp: awake_at_def st')
qed

lemma awake_take:
  assumes turn: "take_turn {} pl owner exclusive lp queued seen now timeout deadline st = (turn, st')"
    and awake: "\<And>p. awake_at st p" and ids: "ids_ok st"
    and queued: "\<And>q. queued = Some q \<Longrightarrow> \<exists>sl. table st pl = Some sl \<and> q \<in> set (sl_waiters sl) \<and> w_exclusive q = exclusive"
  shows "awake_at st' p"
proof -
  define sl where "sl = (case table st pl of None \<Rightarrow> fresh_slot | Some s \<Rightarrow> s)"
  have wait: "waiting st (Inl pl) = sl_waiters sl"
    by (simp add: waiting_def sl_def fresh_slot_def split: option.split)
  have dist: "distinct (map w_id (sl_waiters sl))" and less: "\<forall>w \<in> set (sl_waiters sl). w_id w < next_waiter st"
    using ids unfolding ids_ok_def wait [symmetric] by blast+
  have q: "queued = Some q \<Longrightarrow> q \<in> set (sl_waiters sl) \<and> w_exclusive q = exclusive" for q
    using queued by (auto simp: sl_def)
  have same: "sl\<lparr>sl_waiters := sl_waiters sl\<rparr> = sl" by simp
  let ?in = "free_for sl exclusive (ahead_of queued (sl_waiters sl)) \<or> sl_exclusive sl = Some owner
    \<or> (\<not> exclusive \<and> owner \<in> sl_shared sl)"
  have others: "awake_at st' p" if "p \<noteq> pl" "table st' p = table st p" "ready st \<subseteq> ready st' \<union> {i}"
    "\<And>w. w \<in> set (waiting st (Inl p)) \<Longrightarrow> w_id w \<noteq> i" for i
  proof -
    have "w_id w \<notin> ready st" if "w \<in> set (waiting st (Inl p))" "w_id w \<notin> ready st'" for w
      using that \<open>ready st \<subseteq> ready st' \<union> {i}\<close> \<open>\<And>w. w \<in> set (waiting st (Inl p)) \<Longrightarrow> w_id w \<noteq> i\<close> by blast
    then show ?thesis using awake [of p] that(2) by (simp add: awake_at_def waiting_def)
  qed
  show ?thesis
  proof (cases ?in)
    case True
    define gone where "gone = (case queued of None \<Rightarrow> sl_waiters sl
      | Some q \<Rightarrow> filter (\<lambda>w. w_id w \<noteq> w_id q) (sl_waiters sl))"
    have st': "st' = put pl (Some (if exclusive then sl\<lparr>sl_waiters := gone, sl_exclusive := Some owner\<rparr>
      else sl\<lparr>sl_waiters := gone, sl_shared := insert owner (sl_shared sl)\<rparr>)) st"
      using turn True unfolding take_turn_def sl_def [symmetric] gone_def Let_def open_all same by auto
    show ?thesis
    proof (cases "p = pl")
      case True
      show ?thesis
        unfolding True by (rule awake_admitted [OF awake sl_def dist q gone_def st'])
    next
      case False
      then show ?thesis by (intro awake_same [OF _ _ awake]) (simp_all add: st')
    qed
  next
    case no: False
    show ?thesis
    proof (cases queued)
      case None
      let ?w = "\<lparr>w_id = next_waiter st, w_loop = lp, w_exclusive = exclusive\<rparr>"
      have st': "st' = (put pl (Some (sl\<lparr>sl_waiters := sl_waiters sl @ [?w]\<rparr>)) st)\<lparr>next_waiter := Suc (next_waiter st)\<rparr>"
        using turn no None unfolding take_turn_def sl_def [symmetric] Let_def open_all same by auto
      show ?thesis
      proof (cases "p = pl")
        case True
        have "\<not> free_for sl (w_exclusive w) (ahead_of (Some w) (sl_waiters sl @ [?w]))"
          if "w \<in> set (sl_waiters sl @ [?w])" "w_id w \<notin> ready st" for w
        proof (cases "w \<in> set (sl_waiters sl)")
          case True
          then have "table st pl = Some sl" by (auto simp: sl_def fresh_slot_def split: option.splits)
          then show ?thesis using awake [of pl] True that by (auto simp: awake_at_def ahead_of_append)
        next
          case False
          then have w: "w = ?w" using that by simp
          have "w_id ?w \<notin> w_id ` set (sl_waiters sl)" using less by auto
          then show ?thesis unfolding w using no None by (simp add: ahead_of_new) (simp add: ahead_of_def)
        qed
        then show ?thesis using True by (simp add: awake_at_def st')
      next
        case False
        then show ?thesis by (intro awake_same [OF _ _ awake]) (simp_all add: st')
      qed
    next
      case (Some x)
      then have st': "st' = (put pl (Some sl) st)\<lparr>ready := ready st - {w_id x}\<rparr>"
        using turn no unfolding take_turn_def sl_def [symmetric] Let_def open_all same by auto
      note x = q [OF Some]
      show ?thesis
      proof (cases "p = pl")
        case True
        obtain tsl where tsl: "table st pl = Some tsl" using queued [OF Some] by blast
        then have "table st pl = Some sl" by (simp add: sl_def)
        moreover have "\<not> free_for sl (w_exclusive w) (ahead_of (Some w) (sl_waiters sl))"
          if "w \<in> set (sl_waiters sl)" "w_id w = w_id x" for w
        proof -
          have "w = x" using that x dist by (auto simp: distinct_map inj_on_def)
          then show ?thesis using no Some x by auto
        qed
        ultimately show ?thesis using awake [of pl] True by (auto simp: awake_at_def st')
      next
        case False
        show ?thesis
        proof (rule others [OF False, where i = "w_id x"])
          show "w_id w \<noteq> w_id x" if "w \<in> set (waiting st (Inl p))" for w
          proof
            assume "w_id w = w_id x"
            moreover have "x \<in> set (waiting st (Inl pl))" using x wait by simp
            ultimately have "(Inl p :: place + nat) = Inl pl" using ids that unfolding ids_ok_def by blast
            then show False using False by simp
          qed
        qed (use False st' in auto)
      qed
    qed
  qed
qed

lemma awake_queue:
  assumes "queue_cleanup pl owner addr st = Inr (addr', st')" and awake: "\<And>p. awake_at st p"
  shows "awake_at st' p"
proof (cases "p = pl")
  case True
  from assms(1) obtain sl where "table st' pl = Some sl" "sl_state sl = DRAINING"
    by (auto simp: queue_cleanup_def split: option.splits if_splits)
  then show ?thesis using True by (intro awake_not_free) auto
next
  case False
  then show ?thesis using assms(1)
    by (intro awake_same [OF _ _ awake]) (auto simp: queue_cleanup_def split: option.splits if_splits)
qed

definition wakes_ok :: "slots \<Rightarrow> bool" where
  "wakes_ok st \<longleftrightarrow> ids_ok st \<and> (\<forall>p. awake_at st p) \<and> (\<forall>a. answered_at st a)"

lemma awake_step:
  assumes "slot_step {} st st'" and "ids_ok st" and "\<And>p. awake_at st p"
  shows "awake_at st' p"
  using assms
proof (induction rule: slot_step.induct)
  case (s_enter pl owner exclusive lp now timeout deadline st turn st')
  then show ?case using awake_take [OF s_enter(1)] by blast
next
  case (s_retry st pl sl q owner seen now timeout deadline turn st')
  show ?case by (rule awake_take [OF s_retry(4) s_retry(6) s_retry(5)]) (use s_retry(1,2) in auto)
next
  case (s_give_up st pl wid)
  then show ?case
    by (cases "table st pl") (simp_all add: forget_waiter_def awake_put_wake)
next
  case (s_new st addr c)
  then show ?case by (intro awake_same [OF _ _ s_new(5)]) (auto simp: new_cleanup_def)
next
  case (s_queue pl owner addr st addr' st')
  then show ?case using awake_queue by blast
next
  case (s_drain st pl owner)
  show ?case
  proof (cases "p = pl")
    case True
    then show ?thesis using s_drain(2) [of p]
      by (auto simp: drain_def split: option.split intro!: awake_not_free)
  next
    case False
    then show ?thesis by (intro awake_same [OF _ _ s_drain(2)]) (auto simp: drain_def split: option.split)
  qed
next
  case (s_release pl owner st claimed st')
  from s_release(1) show ?case
  proof (cases rule: release_cases)
    case stranger
    then show ?thesis using s_release(3) by simp
  next
    case (claims sl)
    show ?thesis
    proof (cases "p = pl")
      case True
      then show ?thesis by (intro awake_not_free) (auto simp: claims(6))
    next
      case False
      then show ?thesis by (intro awake_same [OF _ _ s_release(3)]) (simp_all add: claims(6))
    qed
  next
    case (reopens sl)
    then show ?thesis using s_release(3) by (simp add: awake_put_wake)
  next
    case (others sl)
    then show ?thesis using s_release(3) by (simp add: awake_put_wake)
  qed
next
  case (s_complete st addr failure)
  then show ?case by (intro awake_same [OF _ _ s_complete(2)]) (auto simp: complete_cleanup_def split: option.split)
next
  case (s_wait lp addr st turn st')
  then show ?case
    by (intro awake_same [OF _ _ s_wait(3)]) (auto simp: wait_cleanup_def Let_def split: option.splits if_splits)
next
  case (s_wait_over addr wid st turn st')
  then show ?case
    by (intro awake_same [OF _ _ s_wait_over(3)]) (auto simp: wait_over_def split: option.splits)
next
  case (s_renew st pl)
  then show ?case by (auto simp: renew_def awake_put_wake split: option.split)
next
  case (s_cleaned pl st st')
  from s_cleaned(1) show ?case
    by (rule cleaned_cases) (simp add: awake_put_wake [OF s_cleaned(3)])
qed

lemma slot_no_loop_awake: "slot_reachable (\<lambda>s. s = {}) st \<Longrightarrow> awake_at st p"
proof (induction arbitrary: p rule: slot_reachable.induct)
  case r_start
  show ?case by (simp add: awake_at_def empty_slots_def)
next
  case (r_step st shut st')
  then show ?case using awake_step [OF _ ids_ok_reachable [OF r_step(1)]] by blast
qed

subsection \<open>Every waiter of a complete cleanup is told\<close>

lemma answered_same:
  assumes "answered_at st a"
    and "\<And>c'. heap st' a = Some c' \<Longrightarrow> pc_done c' \<Longrightarrow>
      \<exists>c. heap st a = Some c \<and> pc_done c \<and> set (pc_waiters c') \<subseteq> set (pc_waiters c)"
    and "\<And>w. w \<in> set (waiting st (Inr a)) \<Longrightarrow> w_id w \<in> ready st \<Longrightarrow> w_id w \<in> ready st'"
  shows "answered_at st' a"
  unfolding answered_at_def
proof (intro allI impI)
  fix c' w assume c': "heap st' a = Some c'" "pc_done c'" "w \<in> set (pc_waiters c')"
  then obtain c where c: "heap st a = Some c" "pc_done c" "w \<in> set (pc_waiters c)" using assms(2) by blast
  then show "w_id w \<in> ready st'"
    using assms(1,3) by (simp add: answered_at_def waiting_def)
qed

lemma answered_grown: "heap st' = heap st \<Longrightarrow> ready st \<subseteq> ready st' \<Longrightarrow> answered_at st a \<Longrightarrow> answered_at st' a"
  by (auto simp: answered_at_def)

lemma ready_wake: "ready st \<subseteq> ready (wake shut pl st)"
  by (auto simp: wake_def Let_def split: option.split)

lemma ready_put_wake [simp]: "ready st \<subseteq> ready (wake shut pl (put pl x st))"
  using ready_wake [of "put pl x st"] by simp

lemma ready_take:
  "take_turn shut pl owner exclusive lp queued seen now timeout deadline st = (turn, st') \<Longrightarrow>
   ready st - (case queued of None \<Rightarrow> {} | Some q \<Rightarrow> {w_id q}) \<subseteq> ready st'"
  by (auto simp: take_turn_def Let_def split: if_splits option.splits)

lemma ready_release: "release shut pl owner st = (claimed, st') \<Longrightarrow> ready st \<subseteq> ready st'"
  by (erule release_cases) simp_all

lemma answered_step:
  assumes "slot_step {} st st'" and "ids_ok st" and "\<And>a. answered_at st a"
  shows "answered_at st' a"
  using assms
proof (induction rule: slot_step.induct)
  case (s_enter pl owner exclusive lp now timeout deadline st turn st')
  then show ?case using ready_take [OF s_enter(1)] by (intro answered_grown [OF heap_take _ s_enter(4)]) auto
next
  case (s_retry st pl sl q owner seen now timeout deadline turn st')
  have "w_id w \<noteq> w_id q" if "w \<in> set (waiting st (Inr a))" for w
  proof
    assume "w_id w = w_id q"
    moreover have "q \<in> set (waiting st (Inl pl))" using s_retry(1,2) by (simp add: waiting_def)
    ultimately have "(Inr a :: place + nat) = Inl pl" using s_retry(5) that unfolding ids_ok_def by blast
    then show False by simp
  qed
  then show ?case
    using ready_take [OF s_retry(4)] heap_take [OF s_retry(4)] by (intro answered_same [OF s_retry(6)]) auto
next
  case (s_give_up st pl wid)
  then show ?case
  proof (cases "table st pl")
    case (Some sl)
    then show ?thesis
      by (intro answered_grown [OF _ _ s_give_up(2)]) (simp_all add: forget_waiter_def)
  qed (simp add: forget_waiter_def)
next
  case (s_new st addr c)
  then show ?case by (intro answered_same [OF s_new(5)]) (auto simp: new_cleanup_def split: if_splits)
next
  case (s_queue pl owner addr st addr' st')
  then show ?case
    by (intro answered_same [OF s_queue(3)])
      (auto simp: queue_cleanup_def fold_cleanup_def split: option.splits if_splits)
next
  case (s_drain st pl owner)
  then show ?case by (intro answered_grown [OF _ _ s_drain(2)]) (auto simp: drain_def split: option.split)
next
  case (s_release pl owner st claimed st')
  show ?case by (rule answered_grown [OF heap_release [OF s_release(1)] ready_release [OF s_release(1)] s_release(3)])
next
  case (s_complete st addr failure)
  show ?case
  proof (cases "a = addr")
    case True
    then show ?thesis
      by (auto simp: answered_at_def complete_cleanup_def split: option.splits)
  next
    case False
    then show ?thesis by (intro answered_same [OF s_complete(2)]) (auto simp: complete_cleanup_def split: option.splits)
  qed
next
  case (s_wait lp addr st turn st')
  then show ?case
    by (intro answered_same [OF s_wait(3)])
      (auto simp: wait_cleanup_def Let_def split: option.splits if_splits)
next
  case (s_wait_over addr wid st turn st')
  then show ?case
    by (intro answered_same [OF s_wait_over(3)]) (auto simp: wait_over_def split: option.splits if_splits)
next
  case (s_renew st pl)
  then show ?case
  proof (cases "table st pl")
    case (Some sl)
    then show ?thesis
      by (intro answered_grown [OF _ _ s_renew(2)]) (simp_all add: renew_def)
  qed (simp add: renew_def)
next
  case (s_cleaned pl st st')
  from s_cleaned(1) show ?case
  proof (rule cleaned_cases)
    fix sl
    assume "st' = wake {} pl (put pl (drop_if_idle
      (sl\<lparr>sl_pending := [], sl_state := SERVING, sl_generation := Suc (sl_generation sl)\<rparr>)) st)"
    then show "answered_at st' a"
      by (intro answered_grown [OF _ _ s_cleaned(3)]) simp_all
  qed
qed

lemma slot_no_loop_answered: "slot_reachable (\<lambda>s. s = {}) st \<Longrightarrow> answered_at st a"
proof (induction arbitrary: a rule: slot_reachable.induct)
  case r_start
  show ?case by (simp add: answered_at_def empty_slots_def)
next
  case (r_step st shut st')
  then show ?case using answered_step [OF _ ids_ok_reachable [OF r_step(1)]] by blast
qed

subsection \<open>The properties\<close>


definition demo_queued :: slots where
  "demo_queued = snd (release {} demo_place ''a'' (demo_enter ''x'' True (demo_enter ''a'' False empty_slots)))"


text \<open>
  Nobody waits on a cleanup that is over.  While no event loop closes, every call registered
  with a record whose cleanup is complete has been woken, and asking again answers at once with
  the outcome; a call that is not answered at once is registered and has not been forgotten.
\<close>

theorem completed_cleanup_answers:
  assumes "slot_reachable (\<lambda>s. s = {}) st" and "heap st addr = Some c"
  shows "if pc_done c
    then (\<forall>w \<in> set (pc_waiters c). w_id w \<in> ready st)
      \<and> (\<forall>lp. wait_cleanup lp addr st = Some (Answered (pc_failure c), st))
    else (\<forall>lp. \<exists>w st' c'. wait_cleanup lp addr st = Some (Registered w, st') \<and> w_id w \<notin> ready st'
      \<and> heap st' addr = Some c' \<and> pc_waiters c' = pc_waiters c @ [w] \<and> w \<notin> set (pc_waiters c))"
proof (cases "pc_done c")
  case True
  then show ?thesis
    using slot_no_loop_answered [OF assms(1), of addr] assms(2) by (auto simp: answered_at_def wait_cleanup_def)
next
  case False
  have ids: "next_waiter st \<notin> ready st" "\<forall>w \<in> set (pc_waiters c). w_id w < next_waiter st"
  proof -
    note ok = ids_ok_reachable [OF assms(1)]
    show "next_waiter st \<notin> ready st" using ok by (auto simp: ids_ok_def)
    have "waiting st (Inr addr) = pc_waiters c" using assms(2) by (simp add: waiting_def)
    then show "\<forall>w \<in> set (pc_waiters c). w_id w < next_waiter st" using ok unfolding ids_ok_def by metis
  qed
  then show ?thesis using False assms(2) by (auto simp: wait_cleanup_def Let_def)
qed

definition demo_done :: slots where
  "demo_done = complete_cleanup {} 7 (Some ''f'') (case wait_cleanup 0 7 demo_last of Some (_, st) \<Rightarrow> st | None \<Rightarrow> demo_last)"

lemma demo_done_reachable: "slot_reachable (\<lambda>s. s = {}) demo_done"
proof -
  have "map_option fst (wait_cleanup 0 7 demo_last) \<noteq> None" by code_simp
  then obtain t st where w: "wait_cleanup 0 7 demo_last = Some (t, st)" by auto
  have "slot_reachable (\<lambda>s. s = {}) st" by (rule r_step [OF demo_last_reachable refl s_wait [OF w]])
  then show ?thesis unfolding demo_done_def w by (auto intro: r_step s_complete)
qed

theorem completed_cleanup_answers_witness:
  "\<exists>c. heap demo_done 7 = Some c \<and> pc_done c \<and> map w_id (pc_waiters c) = [0] \<and> 0 \<in> ready demo_done
     \<and> wait_cleanup 5 7 demo_done = Some (Answered (Some ''f''), demo_done)"
proof -
  have "map_option (\<lambda>c. (pc_done c, map w_id (pc_waiters c), pc_failure c)) (heap demo_done 7) = Some (True, [0], Some ''f'')"
    by code_simp
  then obtain c where c: "heap demo_done 7 = Some c" "pc_done c" "map w_id (pc_waiters c) = [0]" "pc_failure c = Some ''f''"
    by auto
  with completed_cleanup_answers [OF demo_done_reachable c(1)] show ?thesis by auto
qed

definition stranded_entry :: "nat set \<Rightarrow> string \<Rightarrow> bool \<Rightarrow> nat \<Rightarrow> slots \<Rightarrow> slots" where
  "stranded_entry shut owner exclusive lp st =
     snd (take_turn shut demo_place owner exclusive lp None None 0 9 9 st)"

definition stranded :: slots where
  "stranded = stranded_entry {1} ''d'' True 2 (stranded_entry {} ''c'' False 2
     (snd (release {} demo_place ''a'' (stranded_entry {} ''b'' True 1 (stranded_entry {} ''a'' False 0 empty_slots)))))"


end
