(* ===== verification/Ledger.thy ===== *)
theory Ledger
  imports Routing "HOL-Library.AList"
begin

text \<open>
  What a \<open>SandboxRouter\<close> (\<open>_router.py\<close>) remembers between calls: the keys it refuses and the
  disposals still owed for them, the instances it has seen and served, their execution contracts,
  the program pins and the admissions backends gave to calls (by the backend that gave it).  Every operation here runs under one of the router's guards with no await
  inside, so it is a function of the whole state.

  Backends are told apart by identity, a number.  A \<open>_PendingDisposal\<close> has object identity too,
  which \<open>_forget_pending\<close> tests with \<open>is\<close>: each one created has a serial of its own.  An absent
  entry of the outer dict of pending disposals and an empty one are the same here; nothing reads
  the difference.
\<close>

subsection \<open>State\<close>

type_synonym target_at = "nat \<times> string option \<times> string option"

record pending_disposal =
  pd_serial :: nat
  pd_backend :: nat
  pd_kind :: "string option"
  pd_instance :: "string option"

definition target_of :: "pending_disposal \<Rightarrow> target_at" where
  "target_of t = (pd_backend t, pd_kind t, pd_instance t)"

record program_pin =
  pin_spec :: sandbox_spec
  pin_backend :: backend
  pin_channel :: program_channel
  pin_instance :: string

type_synonym tenant = "sandbox_key \<times> string \<times> nat"

record ledger =
  l_unclean :: "sandbox_key \<Rightarrow> disposal_failure option option"
  l_pending :: "sandbox_key \<Rightarrow> (target_at \<times> pending_disposal) list"
  l_serial :: nat
  l_contracts :: "tenant \<Rightarrow> (string \<times> string option) list option"
  l_seen :: "tenant \<Rightarrow> string set option"
  l_served :: "(tenant \<times> string set) list"
  l_pins :: "sandbox_key \<times> string \<Rightarrow> program_pin list option"
  l_holds :: "sandbox_key \<times> string \<times> string \<Rightarrow> nat option"
  l_awaits :: nat

definition empty_ledger :: ledger where
  "empty_ledger = \<lparr>l_unclean = (\<lambda>_. None), l_pending = (\<lambda>_. []), l_serial = 0,
     l_contracts = (\<lambda>_. None), l_seen = (\<lambda>_. None), l_served = [], l_pins = (\<lambda>_. None),
     l_holds = (\<lambda>_. None), l_awaits = 0\<rparr>"

subsection \<open>Refused keys and the disposals they wait for\<close>

text \<open>\<open>_may_be_refused\<close>: a key of one call has no next acquire.\<close>

definition may_be_refused :: "sandbox_key \<Rightarrow> bool" where
  "may_be_refused key \<longleftrightarrow> call_id key = []"

definition unclean_state :: "sandbox_key \<Rightarrow> ledger \<Rightarrow> bool \<times> disposal_failure option" where
  "unclean_state key led =
     (l_unclean led key \<noteq> None, case l_unclean led key of None \<Rightarrow> None | Some reported \<Rightarrow> reported)"

definition refused :: "sandbox_key \<Rightarrow> ledger \<Rightarrow> bool" where
  "refused key led = fst (unclean_state key led)"

text \<open>The loop of \<open>_mark_unclean\<close>: a new object per backend, in the place of an older one.\<close>

fun mark_targets ::
  "nat list \<Rightarrow> string option \<Rightarrow> string option \<Rightarrow> nat \<Rightarrow> (target_at \<times> pending_disposal) list \<Rightarrow>
   (target_at \<times> pending_disposal) list \<times> nat" where
  "mark_targets [] kind inst n d = (d, n)"
| "mark_targets (b # bs) kind inst n d =
     mark_targets bs kind inst (Suc n)
       (AList.update (b, kind, inst) \<lparr>pd_serial = n, pd_backend = b, pd_kind = kind, pd_instance = inst\<rparr> d)"

definition mark_guarded ::
  "nat list \<Rightarrow> sandbox_key \<Rightarrow> disposal_failure option \<Rightarrow> nat option \<Rightarrow> string option \<Rightarrow> string option \<Rightarrow>
   ledger \<Rightarrow> ledger" where
  "mark_guarded registered key reason b kind inst led =
     (let (targets, n) = mark_targets (case b of None \<Rightarrow> registered | Some x \<Rightarrow> [x]) kind inst
            (l_serial led) (l_pending led key);
          recorded = (case l_unclean led key of
              Some (Some f) \<Rightarrow> Some f
            | _ \<Rightarrow> (case reason of None \<Rightarrow> None | Some r \<Rightarrow> fold_disposal_failures [r]))
      in led\<lparr>l_pending := (l_pending led)(key := targets), l_serial := n,
             l_unclean := (l_unclean led)(key \<mapsto> recorded)\<rparr>)"

definition mark_unclean ::
  "nat list \<Rightarrow> sandbox_key \<Rightarrow> disposal_failure option \<Rightarrow> nat option \<Rightarrow> string option \<Rightarrow> string option \<Rightarrow>
   ledger \<Rightarrow> ledger" where
  "mark_unclean registered key reason b kind inst led =
     (if may_be_refused key then mark_guarded registered key reason b kind inst led else led)"

definition pending_of :: "sandbox_key \<Rightarrow> ledger \<Rightarrow> pending_disposal list" where
  "pending_of key led = map snd (l_pending led key)"

definition pending_for ::
  "sandbox_key \<Rightarrow> nat list option \<Rightarrow> string option \<Rightarrow> string option \<Rightarrow> ledger \<Rightarrow> pending_disposal list" where
  "pending_for key among kind inst led =
     filter (\<lambda>t. (case among of None \<Rightarrow> True | Some bs \<Rightarrow> pd_backend t \<in> set bs)
               \<and> (kind = None \<or> pd_kind t = kind) \<and> (inst = None \<or> pd_instance t = inst))
       (pending_of key led)"

text \<open>The loop of \<open>_forget_pending\<close>: an entry goes only when it is still that very object.\<close>

fun drop_targets ::
  "pending_disposal list \<Rightarrow> (target_at \<times> pending_disposal) list \<Rightarrow> (target_at \<times> pending_disposal) list" where
  "drop_targets [] d = d"
| "drop_targets (t # ts) d =
     drop_targets ts
       (if map_option pd_serial (map_of d (target_of t)) = Some (pd_serial t)
        then AList.delete (target_of t) d else d)"

definition forget_pending :: "sandbox_key \<Rightarrow> pending_disposal list \<Rightarrow> ledger \<Rightarrow> ledger" where
  "forget_pending key ts led =
     (let targets = drop_targets ts (l_pending led key)
      in led\<lparr>l_pending := (l_pending led)(key := targets),
             l_unclean := (if targets = [] then (l_unclean led)(key := None) else l_unclean led)\<rparr>)"

text \<open>What \<open>_dispose_each\<close> writes for a backend that failed, when the key is to stay refused.\<close>

definition note_failure ::
  "sandbox_key \<Rightarrow> nat \<Rightarrow> string option \<Rightarrow> string option \<Rightarrow> disposal_failure \<Rightarrow> ledger \<Rightarrow> ledger" where
  "note_failure key b kind inst f led =
     (let there = map_of (l_pending led key) (b, kind, inst) \<noteq> None;
          t = \<lparr>pd_serial = l_serial led, pd_backend = b, pd_kind = kind, pd_instance = inst\<rparr>;
          recorded = (case l_unclean led key of Some (Some old) \<Rightarrow> [old, f] | _ \<Rightarrow> [f])
      in led\<lparr>l_pending := (if there then l_pending led
                            else (l_pending led)(key := l_pending led key @ [((b, kind, inst), t)])),
             l_serial := Suc (l_serial led),
             l_unclean := (l_unclean led)(key \<mapsto> fold_disposal_failures recorded)\<rparr>)"

subsection \<open>Instances\<close>

definition insert_at :: "tenant \<Rightarrow> string \<Rightarrow> string option \<Rightarrow> (tenant \<times> string set) list \<Rightarrow> (tenant \<times> string set) list" where
  "insert_at pl inst previous served =
     AList.update pl
       (insert inst ((case map_of served pl of None \<Rightarrow> {} | Some known \<Rightarrow> known) - set_option previous)) served"

definition repin :: "nat \<Rightarrow> string \<Rightarrow> string \<Rightarrow> program_pin \<Rightarrow> program_pin" where
  "repin b previous inst p =
     (if b_id (pin_backend p) = b \<and> pin_instance p = previous then p\<lparr>pin_instance := inst\<rparr> else p)"

text \<open>\<open>_remember_instance\<close>; \<open>previous\<close> is the instance a reset retired.\<close>

definition remember_instance ::
  "sandbox_key \<Rightarrow> string \<Rightarrow> nat \<Rightarrow> string \<Rightarrow> string option \<Rightarrow> string option \<Rightarrow> ledger \<Rightarrow> ledger" where
  "remember_instance key kind b inst previous contract led =
     (let pl = (key, kind, b);
          contracts = (case l_contracts led pl of None \<Rightarrow> [] | Some c \<Rightarrow> c);
          kept = (case previous of None \<Rightarrow> contracts | Some p \<Rightarrow> AList.delete p contracts);
          known = (case l_seen led pl of None \<Rightarrow> {} | Some s \<Rightarrow> s)
      in led\<lparr>l_contracts := (l_contracts led)(pl \<mapsto> AList.update inst contract kept),
             l_seen := (l_seen led)(pl \<mapsto> insert inst (known - set_option previous)),
             l_served := insert_at pl inst previous (l_served led),
             l_pins := (case previous of None \<Rightarrow> l_pins led
               | Some p \<Rightarrow> (l_pins led)((key, kind) := map_option (map (repin b p inst)) (l_pins led (key, kind))))\<rparr>)"

text \<open>Which entries \<open>_forget_instances\<close> reaches, and what it leaves of one.\<close>

definition reaches ::
  "nat \<Rightarrow> sandbox_key option \<Rightarrow> string option \<Rightarrow> string option \<Rightarrow> string option \<Rightarrow> tenant \<Rightarrow> bool" where
  "reaches b key kind scope thread pl \<longleftrightarrow>
     (case pl of (held, workload, provider) \<Rightarrow>
        provider = b \<and> (key = None \<or> key = Some held) \<and> (kind = None \<or> kind = Some workload)
        \<and> (scope = None \<or> scope = Some (key_scope held)) \<and> (thread = None \<or> thread = Some (thread_id held)))"

definition without :: "string option \<Rightarrow> string set \<Rightarrow> string set option" where
  "without inst known =
     (case inst of None \<Rightarrow> None | Some i \<Rightarrow> if known - {i} = {} then None else Some (known - {i}))"

definition contracts_without :: "string option \<Rightarrow> (string \<times> string option) list \<Rightarrow> (string \<times> string option) list option" where
  "contracts_without inst contracts =
     (case inst of None \<Rightarrow> None
      | Some i \<Rightarrow> if AList.delete i contracts = [] then None else Some (AList.delete i contracts))"

definition served_without ::
  "(tenant \<Rightarrow> bool) \<Rightarrow> string option \<Rightarrow> (tenant \<times> string set) list \<Rightarrow> (tenant \<times> string set) list" where
  "served_without reach inst served =
     concat (map (\<lambda>(pl, known). if reach pl then (case without inst known of None \<Rightarrow> [] | Some k \<Rightarrow> [(pl, k)])
                                else [(pl, known)]) served)"

definition keeps_pin :: "(tenant \<times> string set) list \<Rightarrow> nat \<Rightarrow> sandbox_key \<times> string \<Rightarrow> program_pin \<Rightarrow> bool" where
  "keeps_pin served b entry p \<longleftrightarrow>
     b_id (pin_backend p) \<noteq> b
     \<or> (case map_of served (fst entry, snd entry, b) of None \<Rightarrow> False | Some known \<Rightarrow> pin_instance p \<in> known)"

definition forget_instances ::
  "nat \<Rightarrow> sandbox_key option \<Rightarrow> string option \<Rightarrow> string option \<Rightarrow> string option \<Rightarrow> string option \<Rightarrow>
   ledger \<Rightarrow> ledger" where
  "forget_instances b key kind inst scope thread led =
     (let reach = (\<lambda>pl. reaches b key kind scope thread pl
                     \<and> (l_seen led pl \<noteq> None \<or> map_of (l_served led) pl \<noteq> None));
          served = served_without reach inst (l_served led)
      in led\<lparr>l_contracts := (\<lambda>pl. if reach pl then Option.bind (l_contracts led pl) (contracts_without inst)
                               else l_contracts led pl),
             l_seen := (\<lambda>pl. if reach pl then Option.bind (l_seen led pl) (without inst) else l_seen led pl),
             l_served := served,
             l_pins := (\<lambda>entry. case l_pins led entry of
                 None \<Rightarrow> None
               | Some pins \<Rightarrow> (case filter (keeps_pin served b entry) pins of [] \<Rightarrow> None | ps \<Rightarrow> Some ps))\<rparr>)"

text \<open>\<open>_backends_for_instance\<close>: the backends that served it, then those a target names, in order.\<close>

definition backends_for_instance ::
  "nat list \<Rightarrow> sandbox_key \<Rightarrow> string option \<Rightarrow> string option \<Rightarrow> ledger \<Rightarrow> nat list" where
  "backends_for_instance registered key kind inst led =
     (case inst of
        None \<Rightarrow> registered
      | Some i \<Rightarrow>
          (let served = map (\<lambda>(pl, _). snd (snd pl)) (filter (\<lambda>(pl, known).
                 fst pl = key \<and> (kind = None \<or> kind = Some (fst (snd pl))) \<and> i \<in> known) (l_served led));
               known = rev (remdups (rev (served @ map pd_backend (pending_for key None kind inst led))))
           in if known = [] then registered else known))"

text \<open>\<open>_program_pin\<close>: by the spec, or by the instance where a backend is given.\<close>

definition find_pin ::
  "sandbox_key \<Rightarrow> sandbox_spec \<Rightarrow> (backend \<times> string) option \<Rightarrow> ledger \<Rightarrow> program_pin option" where
  "find_pin key s by_instance led =
     (if program s = None then None
      else find (\<lambda>p. case by_instance of
                   None \<Rightarrow> pin_spec p = s
                 | Some (b, i) \<Rightarrow> b_id (pin_backend p) = b_id b \<and> pin_instance p = i)
             (case l_pins led (key, spec_kind s) of None \<Rightarrow> [] | Some pins \<Rightarrow> pins))"

text \<open>\<open>_check_execution_contract\<close>.\<close>

definition check_execution_contract ::
  "sandbox_key \<Rightarrow> sandbox_spec \<Rightarrow> nat \<Rightarrow> string \<Rightarrow> ledger \<Rightarrow> unit result" where
  "check_execution_contract key s b inst led =
     (case map_of (case l_contracts led (key, spec_kind s, b) of None \<Rightarrow> [] | Some c \<Rightarrow> c) inst of
        None \<Rightarrow> Inr ()
      | Some contract \<Rightarrow> raiseIf (contract \<noteq> execution_contract s) ValueError)"

end
