(* ===== verification/Disposal.thy ===== *)
theory Disposal
  imports Ledger
begin

text \<open>
  Disposal in \<open>SandboxRouter\<close> (\<open>_router.py\<close>): deleting sandboxes on the backends and settling the
  ledger by what they answer.  An await gives the ledger to whoever runs meanwhile: what is
  awaited is a function that is given the number of awaits so far and the ledger as it stands,
  and answers with the ledger as it finds it when the await ends.  A \<open>site\<close> is a router with
  those functions, which stand for the backends and the other tasks of the event loop.

  What is told to observers and logs is left out.
\<close>

subsection \<open>Awaiting\<close>

datatype reclaim_policy = DISPOSE_POLICY | KEEP

text \<open>
  What awaiting a delete gives: \<open>None\<close>, a \<open>DisposalFailure\<close>, another value (as its string), an
  exception with its text, the end of a bound of its own, or a cancellation.
\<close>

datatype disposal_answer =
  Gone | Reports disposal_failure | Odd_answer string | Raises string | Overdue | Interrupted exc

datatype purge_answer = Purged scope_purge | Purge_raises string | Purge_interrupted exc

record site =
  s_router :: router
  s_policy :: reclaim_policy
  s_name :: "nat \<Rightarrow> string"
  s_dispose :: "nat \<Rightarrow> sandbox_key \<Rightarrow> string option \<Rightarrow> string option \<Rightarrow> nat \<Rightarrow> ledger \<Rightarrow> disposal_answer \<times> ledger"
  s_lock :: "sandbox_key \<Rightarrow> nat \<Rightarrow> ledger \<Rightarrow> exc option \<times> ledger"
  s_purge :: "nat \<Rightarrow> string \<Rightarrow> string \<Rightarrow> nat \<Rightarrow> ledger \<Rightarrow> purge_answer \<times> ledger"

definition registered :: "site \<Rightarrow> nat list" where
  "registered s = map b_id (r_backends (s_router s))"

definition refuses :: "site \<Rightarrow> bool" where
  "refuses s \<longleftrightarrow> s_policy s \<noteq> KEEP"

definition await :: "(nat \<Rightarrow> ledger \<Rightarrow> 'a \<times> ledger) \<Rightarrow> ledger \<Rightarrow> 'a \<times> ledger" where
  "await f led = f (l_awaits led) (led\<lparr>l_awaits := Suc (l_awaits led)\<rparr>)"

type_synonym 'a act = "ledger \<Rightarrow> 'a result \<times> ledger"

text \<open>\<open>async with self._disposal_lock(key)\<close>: the body runs once the lock is held.\<close>

definition locked :: "site \<Rightarrow> sandbox_key \<Rightarrow> 'a act \<Rightarrow> 'a act" where
  "locked s key body led =
     (case await (s_lock s key) led of
        (Some e, led') \<Rightarrow> (Inl e, led')
      | (None, led') \<Rightarrow> body led')"

definition positive_finite :: "timeout_arg \<Rightarrow> bool" where
  "positive_finite t = (case t of Timeout x \<Rightarrow> x > 0 | Not_finite \<Rightarrow> False)"

subsection \<open>What a backend's answer says\<close>

fun code_value :: "disposal_code \<Rightarrow> string" where
  "code_value Unreachable = ''unreachable''"
| "code_value Timed_out = ''timeout''"
| "code_value Refused = ''refused''"
| "code_value Unlisted = ''unlisted''"
| "code_value Unknown = ''unknown''"
| "code_value (Odd_code s) = s"

definition failure_text :: "disposal_failure \<Rightarrow> string" where
  "failure_text f = code_value (code f) @ '': '' @ detail f"

definition coded :: "string \<Rightarrow> disposal_failure + string \<Rightarrow> disposal_failure" where
  "coded name reported =
     (case reported of
        Inl f \<Rightarrow> \<lparr>code = code f, detail = name @ '': '' @ detail f\<rparr>
      | Inr other \<Rightarrow> \<lparr>code = Unknown, detail = name @ '': '' @ other\<rparr>)"

text \<open>The two readings: of one instance's delete, and of one in a sweep.\<close>

definition failure_of_instance :: "string \<Rightarrow> disposal_answer \<Rightarrow> disposal_failure option" where
  "failure_of_instance name a =
     (case a of
        Gone \<Rightarrow> None
      | Reports f \<Rightarrow> Some (coded name (Inl f))
      | Odd_answer x \<Rightarrow> Some (coded name (Inr x))
      | Raises x \<Rightarrow> Some (coded name (Inr x))
      | Overdue \<Rightarrow> Some (coded name (Inl \<lparr>code = Timed_out, detail = ''the delete did not finish''\<rparr>))
      | Interrupted _ \<Rightarrow> None)"

definition failure_of_sweep :: "string \<Rightarrow> disposal_answer \<Rightarrow> disposal_failure option" where
  "failure_of_sweep name a =
     (case a of
        Gone \<Rightarrow> None
      | Reports f \<Rightarrow> Some (coded name (Inl f))
      | Odd_answer x \<Rightarrow> Some (coded name (Inr x))
      | Raises x \<Rightarrow> Some \<lparr>code = Unknown, detail = name @ '' raised: '' @ x\<rparr>
      | Overdue \<Rightarrow> Some \<lparr>code = Unknown, detail = name @ '' raised: ''\<rparr>
      | Interrupted _ \<Rightarrow> None)"

subsection \<open>One instance\<close>

text \<open>\<open>_dispose_the_kind\<close>: \<open>None\<close> when the delete landed, otherwise why it did not.\<close>

definition dispose_the_kind ::
  "site \<Rightarrow> sandbox_key \<Rightarrow> string \<Rightarrow> nat \<Rightarrow> string option \<Rightarrow> string option \<Rightarrow> string option act" where
  "dispose_the_kind s key kind b unclean inst led =
     (let mark = (\<lambda>reason. if refuses s then mark_unclean (registered s) key reason (Some b) (Some kind) inst
                           else (\<lambda>l. l));
          led1 = (if unclean = None then led else mark None led);
          pending = pending_for key (Some [b]) (Some kind) inst led1;
          (answer, led2) = await (s_dispose s b key (Some kind) inst) led1
      in case answer of
           Interrupted e \<Rightarrow> (Inl e, mark None led2)
         | _ \<Rightarrow> (case failure_of_instance (s_name s b) answer of
               None \<Rightarrow> (Inr None,
                 forget_pending key pending (forget_instances b (Some key) (Some kind) inst None None led2))
             | Some f \<Rightarrow> (Inr (Some (case unclean of None \<Rightarrow> failure_text f
                                      | Some u \<Rightarrow> u @ ''; '' @ failure_text f)),
                 mark (Some f) led2)))"

subsection \<open>A sweep\<close>

text \<open>What one backend's answer in a sweep does to the ledger.\<close>

definition settle ::
  "sandbox_key \<Rightarrow> bool \<Rightarrow> string option \<Rightarrow> string option \<Rightarrow> pending_disposal list \<Rightarrow> nat \<Rightarrow>
   disposal_failure option \<Rightarrow> ledger \<Rightarrow> ledger" where
  "settle key refuse kind inst pending b answered led =
     (case answered of
        None \<Rightarrow> forget_pending key (filter (\<lambda>t. pd_backend t = b) pending)
                 (forget_instances b (Some key) kind inst None None led)
      | Some f \<Rightarrow> if refuse then note_failure key b kind inst f led else led)"

fun dispose_loop ::
  "site \<Rightarrow> sandbox_key \<Rightarrow> bool \<Rightarrow> string option \<Rightarrow> string option \<Rightarrow> pending_disposal list \<Rightarrow> bool \<Rightarrow>
   nat list \<Rightarrow> bool act" where
  "dispose_loop s key refuse kind inst pending fine [] led = (Inr fine, led)"
| "dispose_loop s key refuse kind inst pending fine (b # bs) led =
     (let (answer, led') = await (s_dispose s b key kind inst) led
      in case answer of
           Interrupted e \<Rightarrow> (Inl e, led')
         | _ \<Rightarrow> (let answered = failure_of_sweep (s_name s b) answer
                  in dispose_loop s key refuse kind inst pending (fine \<and> answered = None) bs
                       (settle key refuse kind inst pending b answered led')))"

definition dispose_each ::
  "site \<Rightarrow> sandbox_key \<Rightarrow> bool \<Rightarrow> nat list option \<Rightarrow> string option \<Rightarrow> string option \<Rightarrow>
   pending_disposal list option \<Rightarrow> bool act" where
  "dispose_each s key refuse among kind inst pending led =
     (let selected = (case among of None \<Rightarrow> registered s | Some bs \<Rightarrow> bs);
          covered = (case pending of None \<Rightarrow> pending_for key (Some selected) kind inst led | Some ts \<Rightarrow> ts)
      in dispose_loop s key refuse kind inst covered True selected led)"

definition dispose :: "site \<Rightarrow> sandbox_key \<Rightarrow> bool act" where
  "dispose s key = locked s key (dispose_each s key False None None None None)"

subsection \<open>The entry points\<close>

text \<open>The edge of an \<open>asyncio.timeout\<close> block.\<close>

definition bounded :: "'a act \<Rightarrow> 'a act" where
  "bounded body led =
     (case body led of (Inl e, led') \<Rightarrow> (Inl (if e = Expiring then TimeoutError else e), led') | r \<Rightarrow> r)"

text \<open>A loop of marks over backends.\<close>

definition mark_each ::
  "site \<Rightarrow> sandbox_key \<Rightarrow> disposal_failure option \<Rightarrow> string option \<Rightarrow> string option \<Rightarrow> nat list \<Rightarrow>
   ledger \<Rightarrow> ledger" where
  "mark_each s key reason kind inst bs led =
     foldl (\<lambda>l b. mark_unclean (registered s) key reason (Some b) kind inst l) led bs"

fun each_instance ::
  "site \<Rightarrow> sandbox_key \<Rightarrow> string \<Rightarrow> string option \<Rightarrow> bool \<Rightarrow> nat list \<Rightarrow> bool act" where
  "each_instance s key kind inst landed [] led = (Inr landed, led)"
| "each_instance s key kind inst landed (b # bs) led =
     (case dispose_the_kind s key kind b None inst led of
        (Inl e, led') \<Rightarrow> (Inl e, led')
      | (Inr failure, led') \<Rightarrow> each_instance s key kind inst (failure = None \<and> landed) bs led')"

definition dispose_kind ::
  "site \<Rightarrow> sandbox_key \<Rightarrow> string \<Rightarrow> string option \<Rightarrow> timeout_arg \<Rightarrow> bool act" where
  "dispose_kind s key kind inst timeout led =
     (if \<not> positive_finite timeout then (Inl ValueError, led)
      else (let (r, led') = bounded (locked s key (\<lambda>l.
                  if inst \<noteq> None
                  then each_instance s key kind inst True
                         (backends_for_instance (registered s) key (Some kind) inst l) l
                  else dispose_each s key False None (Some kind) None None l)) led;
                again = (\<lambda>reason. if inst \<noteq> None \<and> refuses s
                  then mark_each s key reason (Some kind) inst
                         (backends_for_instance (registered s) key (Some kind) inst led') led'
                  else led')
            in if r = Inl TimeoutError
               then (Inr False, again (Some \<lparr>code = Timed_out, detail = ''instance disposal timed out''\<rparr>))
               else if r = Inl Cancelled then (Inl Cancelled, again None)
               else (r, led')))"

text \<open>The loop of \<open>dispose_unclean\<close> over the targets it found.\<close>

fun retry_targets :: "site \<Rightarrow> sandbox_key \<Rightarrow> bool \<Rightarrow> pending_disposal list \<Rightarrow> bool act" where
  "retry_targets s key landed [] led = (Inr landed, led)"
| "retry_targets s key landed (t # ts) led =
     (case dispose_each s key (refuses s) (Some [pd_backend t]) (pd_kind t) (pd_instance t) (Some [t]) led of
        (Inl e, led') \<Rightarrow> (Inl e, led')
      | (Inr fine, led') \<Rightarrow> retry_targets s key (fine \<and> landed) ts led')"

definition close_before ::
  "site \<Rightarrow> sandbox_key \<Rightarrow> string option \<Rightarrow> string option \<Rightarrow> ledger \<Rightarrow> ledger" where
  "close_before s key kind inst led =
     (if refuses s \<and> (kind \<noteq> None \<or> inst \<noteq> None)
      then mark_each s key None kind inst (backends_for_instance (registered s) key kind inst led) led
      else if refuses s \<and> l_unclean led key = None
      then mark_guarded (registered s) key None None None None led
      else led)"

definition retry_pending ::
  "site \<Rightarrow> sandbox_key \<Rightarrow> string option \<Rightarrow> string option \<Rightarrow> bool act" where
  "retry_pending s key kind inst led =
     (let pending = pending_for key None kind inst led
      in if pending = []
         then dispose_each s key (refuses s)
                (Some (backends_for_instance (registered s) key kind inst led)) kind inst None led
         else (case retry_targets s key True pending led of
             (Inl e, led') \<Rightarrow> (Inl e, led')
           | (Inr landed, led') \<Rightarrow> (Inr (landed \<and> \<not> refused key led'), led')))"

text \<open>What an expired bound leaves in the ledger: its code, folded into a recorded reason.\<close>

definition note_expiry :: "site \<Rightarrow> sandbox_key \<Rightarrow> ledger \<Rightarrow> ledger" where
  "note_expiry s key led =
     (if \<not> refuses s \<or> l_unclean led key = None then led
      else (let expired = \<lparr>code = Timed_out, detail = ''the disposal did not finish''\<rparr>;
                recorded = (case l_unclean led key of Some (Some old) \<Rightarrow> [old, expired] | _ \<Rightarrow> [expired])
            in led\<lparr>l_unclean := (l_unclean led)(key \<mapsto> fold_disposal_failures recorded)\<rparr>))"

definition dispose_unclean ::
  "site \<Rightarrow> sandbox_key \<Rightarrow> string option \<Rightarrow> string option \<Rightarrow> timeout_arg \<Rightarrow> bool act" where
  "dispose_unclean s key kind inst timeout led =
     (if \<not> may_be_refused key then (Inl ValueError, led)
      else if \<not> positive_finite timeout then (Inl ValueError, led)
      else (let r = bounded (locked s key (retry_pending s key kind inst)) (close_before s key kind inst led)
            in if fst r = Inl TimeoutError then (Inr False, note_expiry s key (snd r)) else r))"

text \<open>What a call keeps of its admission until it is over.\<close>

record call_admission =
  ad_backend :: backend
  ad_rung :: cleanup
  ad_served :: bool
  ad_channel :: "program_channel option"
  ad_owner :: string
  ad_timeout :: rat

definition serving_for_call ::
  "site \<Rightarrow> sandbox_key \<Rightarrow> sandbox_spec option \<Rightarrow> ledger \<Rightarrow> (backend option \<times> backend list) result" where
  "serving_for_call s key spec led =
     (case Option.bind spec (\<lambda>sp. find_pin key sp None led) of
        Some pin \<Rightarrow> Inr (Some (pin_backend pin), [pin_backend pin])
      | None \<Rightarrow>
          if r_selection (s_router s) \<noteq> PER_SPEC
          then Inr (r_backend (s_router s),
                    case r_backend (s_router s) of None \<Rightarrow> [] | Some b \<Rightarrow> [b])
          else (case spec of
              None \<Rightarrow>
                bindE (mapE (\<lambda>b. bindE (declarations_of b) (\<lambda>d.
                         bindE (declared_isolation_scopes d) (\<lambda>scopes.
                           Inr (if ''call'' \<in> scopes then [b] else []))))
                       (r_backends (s_router s))) (\<lambda>found. Inr (None, concat found))
            | Some sp \<Rightarrow>
                bindE (backend_for (s_router s) sp) (\<lambda>served.
                  Inr (served, case served of None \<Rightarrow> [] | Some b \<Rightarrow> [b]))))"

definition false_on_timeout :: "bool result \<times> ledger \<Rightarrow> bool result \<times> ledger" where
  "false_on_timeout r = (if fst r = Inl TimeoutError then (Inr False, snd r) else r)"

definition dispose_call ::
  "site \<Rightarrow> sandbox_key \<Rightarrow> timeout_arg \<Rightarrow> sandbox_spec option \<Rightarrow> call_admission option \<Rightarrow> bool act" where
  "dispose_call s key timeout spec admission led =
     (if call_id key = [] then (Inl ValueError, led)
      else case (case admission of
                   None \<Rightarrow> serving_for_call s key spec led
                 | Some ad \<Rightarrow> Inr (Some (ad_backend ad), if ad_served ad then [ad_backend ad] else [])) of
        Inl e \<Rightarrow> (Inl e, led)
      | Inr (serving, sweep) \<Rightarrow>
          (case (case (admission, serving) of
                   (None, Some b) \<Rightarrow> bindE (declarations_of b) (\<lambda>d.
                      bindE (declared_isolation_scopes d) (\<lambda>scopes. raiseIf (''call'' \<notin> scopes) ValueError))
                 | _ \<Rightarrow> Inr ()) of
             Inl e \<Rightarrow> (Inl e, led)
           | Inr _ \<Rightarrow>
               if \<not> positive_finite timeout then (Inl ValueError, led)
               else false_on_timeout (bounded (locked s key
                      (dispose_each s key False (Some (map b_id sweep)) None None None)) led)))"

subsection \<open>The purge of a conversation\<close>

definition of_conversation :: "string \<Rightarrow> string \<Rightarrow> sandbox_key \<Rightarrow> bool" where
  "of_conversation scope thread key \<longleftrightarrow> key_scope key = scope \<and> thread_id key = thread"

text \<open>The loop over the keys that had something pending when the purge began.\<close>

definition forget_for ::
  "(sandbox_key \<Rightarrow> pending_disposal list) \<Rightarrow> nat \<Rightarrow> ledger \<Rightarrow> ledger" where
  "forget_for snapshot b led =
     (let rest = (\<lambda>k. if snapshot k = [] then l_pending led k
                     else drop_targets (filter (\<lambda>t. pd_backend t = b) (snapshot k)) (l_pending led k))
      in led\<lparr>l_pending := rest,
             l_unclean := (\<lambda>k. if snapshot k \<noteq> [] \<and> rest k = [] then None else l_unclean led k)\<rparr>)"

fun purge_loop ::
  "site \<Rightarrow> string \<Rightarrow> string \<Rightarrow> (sandbox_key \<Rightarrow> pending_disposal list) \<Rightarrow> int \<Rightarrow> disposal_failure list \<Rightarrow>
   nat list \<Rightarrow> scope_purge act" where
  "purge_loop s scope thread snapshot gone failures [] led =
     (Inr \<lparr>disposed = gone, undisposed = fold_disposal_failures failures\<rparr>, led)"
| "purge_loop s scope thread snapshot gone failures (b # bs) led =
     (let (answer, led') = await (s_purge s b scope thread) led
      in case answer of
           Purge_interrupted e \<Rightarrow> (Inl e, led')
         | Purge_raises x \<Rightarrow>
             purge_loop s scope thread snapshot gone
               (failures @ [\<lparr>code = Unknown, detail = s_name s b @ '' raised: '' @ x\<rparr>]) bs led'
         | Purged p \<Rightarrow>
             (case undisposed p of
                Some f \<Rightarrow> purge_loop s scope thread snapshot (gone + disposed p)
                  (failures @ [\<lparr>code = code f, detail = s_name s b @ '': '' @ detail f\<rparr>]) bs led'
              | None \<Rightarrow> purge_loop s scope thread snapshot (gone + disposed p) failures bs
                  (forget_for snapshot b (forget_instances b None None None (Some scope) (Some thread) led'))))"

definition dispose_scope :: "site \<Rightarrow> string \<Rightarrow> string \<Rightarrow> scope_purge act" where
  "dispose_scope s scope thread led =
     purge_loop s scope thread (\<lambda>k. if of_conversation scope thread k then pending_of k led else [])
       0 [] (registered s) led"

subsection \<open>Closing a key that was closed during a create\<close>

text \<open>\<open>_refuse_a_key_closed_during_the_create\<close>: it always raises.\<close>

definition refuse_closed_key ::
  "site \<Rightarrow> sandbox_key \<Rightarrow> nat \<Rightarrow> string \<Rightarrow> string option \<Rightarrow> unit act" where
  "refuse_closed_key s key b kind inst led =
     (let led1 = (if refuses s then mark_unclean (registered s) key None (Some b) (Some kind) inst led else led)
      in case bounded (locked s key (dispose_the_kind s key kind b None inst)) led1 of
           (Inl e, led2) \<Rightarrow>
             (Inl (if e = TimeoutError
                   then SandboxUnclean (map_option code (snd (unclean_state key led2))) else e), led2)
         | (Inr _, led2) \<Rightarrow> (Inl (SandboxUnclean (map_option code (snd (unclean_state key led2)))), led2))"

end
