(* ===== verification/Ledger_Lemmas.thy ===== *)
theory Ledger_Lemmas
  imports Disposal
begin

text \<open>
  The invariant of the router's ledger, and what every section of code that runs without an await
  does to it.  \<open>lawful\<close> is what one task may rely on another to do while it awaits, and what each
  operation guarantees in turn.
\<close>

subsection \<open>The invariant\<close>

definition targets_ok :: "nat \<Rightarrow> (target_at \<times> pending_disposal) list \<Rightarrow> bool" where
  "targets_ok n d \<longleftrightarrow> distinct (map fst d)
     \<and> (\<forall>pl t. map_of d pl = Some t \<longrightarrow> pl = target_of t \<and> pd_serial t < n)"

text \<open>A key is refused exactly while a disposal is owed for it, and never a key of one call.\<close>

definition keys_ok :: "ledger \<Rightarrow> bool" where
  "keys_ok led \<longleftrightarrow> (\<forall>key. targets_ok (l_serial led) (l_pending led key)
     \<and> (l_unclean led key \<noteq> None \<longleftrightarrow> l_pending led key \<noteq> [])
     \<and> (l_pending led key \<noteq> [] \<longrightarrow> may_be_refused key))"

text \<open>What is seen, served and bound to a contract are the same instances; pins are among them.\<close>

definition tenant_ok :: "ledger \<Rightarrow> tenant \<Rightarrow> bool" where
  "tenant_ok led pl \<longleftrightarrow>
     (case map_of (l_served led) pl of
        None \<Rightarrow> l_seen led pl = None \<and> l_contracts led pl = None
      | Some known \<Rightarrow> known \<noteq> {} \<and> l_seen led pl = Some known
          \<and> (\<exists>c. l_contracts led pl = Some c \<and> fst ` set c = known))"

definition pins_ok :: "ledger \<Rightarrow> bool" where
  "pins_ok led \<longleftrightarrow> (\<forall>key kind pins p. l_pins led (key, kind) = Some pins \<longrightarrow> p \<in> set pins \<longrightarrow>
     (\<exists>known. map_of (l_served led) (key, kind, b_id (pin_backend p)) = Some known \<and> pin_instance p \<in> known))"

definition instances_ok :: "ledger \<Rightarrow> bool" where
  "instances_ok led \<longleftrightarrow> distinct (map fst (l_served led)) \<and> (\<forall>pl. tenant_ok led pl) \<and> pins_ok led"

definition ledger_ok :: "ledger \<Rightarrow> bool" where
  "ledger_ok led \<longleftrightarrow> keys_ok led \<and> instances_ok led"

definition lawful :: "ledger \<Rightarrow> ledger \<Rightarrow> bool" where
  "lawful led led' \<longleftrightarrow> (ledger_ok led \<longrightarrow> ledger_ok led') \<and> l_serial led \<le> l_serial led'
     \<and> (\<forall>key pl t. map_of (l_pending led' key) pl = Some t \<longrightarrow> pd_serial t < l_serial led
          \<longrightarrow> map_of (l_pending led key) pl = Some t)"

lemma lawful_refl [simp]: "lawful led led"
  by (simp add: lawful_def)

lemma lawful_trans:
  assumes "lawful a b" and "lawful b c"
  shows "lawful a c"
proof -
  have "map_of (l_pending a key) pl = Some t"
    if "map_of (l_pending c key) pl = Some t" "pd_serial t < l_serial a" for key pl t
  proof -
    have "pd_serial t < l_serial b" using that(2) assms(1) by (simp add: lawful_def)
    then have "map_of (l_pending b key) pl = Some t"
      using assms(2) that(1) unfolding lawful_def by blast
    then show ?thesis using assms(1) that(2) unfolding lawful_def by blast
  qed
  then show ?thesis using assms unfolding lawful_def by auto
qed

lemma lawful_ok: "lawful led led' \<Longrightarrow> ledger_ok led \<Longrightarrow> ledger_ok led'"
  by (simp add: lawful_def)

lemma tenant_ok_other [simp]:
  "tenant_ok (led\<lparr>l_awaits := n\<rparr>) pl = tenant_ok led pl"
  "tenant_ok (led\<lparr>l_pending := d\<rparr>) pl = tenant_ok led pl"
  "tenant_ok (led\<lparr>l_serial := n\<rparr>) pl = tenant_ok led pl"
  "tenant_ok (led\<lparr>l_unclean := u\<rparr>) pl = tenant_ok led pl"
  "tenant_ok (led\<lparr>l_holds := h\<rparr>) pl = tenant_ok led pl"
  "tenant_ok (led\<lparr>l_pins := p\<rparr>) pl = tenant_ok led pl"
  by (simp_all add: tenant_ok_def split: option.split)

lemma instances_ok_other [simp]:
  "instances_ok (led\<lparr>l_awaits := n\<rparr>) = instances_ok led"
  "instances_ok (led\<lparr>l_pending := d\<rparr>) = instances_ok led"
  "instances_ok (led\<lparr>l_serial := n\<rparr>) = instances_ok led"
  "instances_ok (led\<lparr>l_unclean := u\<rparr>) = instances_ok led"
  "instances_ok (led\<lparr>l_holds := h\<rparr>) = instances_ok led"
  by (simp_all add: instances_ok_def pins_ok_def)

lemma ledger_ok_other [simp]:
  "ledger_ok (led\<lparr>l_awaits := n\<rparr>) = ledger_ok led"
  "ledger_ok (led\<lparr>l_holds := h\<rparr>) = ledger_ok led"
  by (simp_all add: ledger_ok_def keys_ok_def)

lemma lawful_other [simp]: "lawful led (led\<lparr>l_awaits := n\<rparr>)" "lawful led (led\<lparr>l_holds := h\<rparr>)"
  by (simp_all add: lawful_def)

subsection \<open>Marks\<close>

lemma targets_ok_update:
  assumes "targets_ok n d"
  shows "targets_ok (Suc n) (AList.update (b, kind, inst)
    \<lparr>pd_serial = n, pd_backend = b, pd_kind = kind, pd_instance = inst\<rparr> d)"
  using assms by (auto simp: targets_ok_def update_conv' distinct_update target_of_def less_Suc_eq)

lemma mark_targets_dom:
  "fst ` set (fst (mark_targets bs kind inst n d)) = fst ` set d \<union> (\<lambda>b. (b, kind, inst)) ` set bs"
  by (induction bs arbitrary: n d) (auto simp: dom_update)

lemma mark_targets_inv:
  assumes "targets_ok n d" and "mark_targets bs kind inst n d = (d', n')"
  shows "targets_ok n' d' \<and> n \<le> n'
    \<and> (\<forall>pl t. map_of d' pl = Some t \<longrightarrow> pd_serial t < n \<longrightarrow> map_of d pl = Some t)
    \<and> (\<forall>pl t. map_of d pl = Some t \<longrightarrow> map_of d' pl = Some t
         \<or> (\<exists>u. map_of d' pl = Some u \<and> n \<le> pd_serial u))"
  using assms
proof (induction bs arbitrary: n d)
  case (Cons b bs)
  let ?t = "\<lparr>pd_serial = n, pd_backend = b, pd_kind = kind, pd_instance = inst\<rparr>"
  let ?d = "AList.update (b, kind, inst) ?t d"
  have rest: "mark_targets bs kind inst (Suc n) ?d = (d', n')" using Cons.prems(2) by simp
  note ih = Cons.IH [OF targets_ok_update [OF Cons.prems(1)] rest]
  have old: "map_of ?d pl = (if pl = (b, kind, inst) then Some ?t else map_of d pl)" for pl
    by (simp add: update_conv')
  have "map_of d pl = Some t" if "map_of d' pl = Some t" "pd_serial t < n" for pl t
  proof -
    have "map_of ?d pl = Some t" using ih that by (meson less_SucI)
    then show ?thesis using that(2) by (simp add: old split: if_splits) auto
  qed
  moreover have "map_of d' pl = Some t \<or> (\<exists>u. map_of d' pl = Some u \<and> n \<le> pd_serial u)"
    if "map_of d pl = Some t" for pl t
  proof (cases "pl = (b, kind, inst)")
    case True
    then have "map_of ?d pl = Some ?t" by (simp add: old)
    with ih consider "map_of d' pl = Some ?t" | u where "map_of d' pl = Some u" "Suc n \<le> pd_serial u" by blast
    then show ?thesis by cases auto
  next
    case False
    then have "map_of ?d pl = Some t" using that by (simp add: old)
    with ih consider "map_of d' pl = Some t" | u where "map_of d' pl = Some u" "Suc n \<le> pd_serial u" by blast
    then show ?thesis by cases auto
  qed
  ultimately show ?case using ih by auto
qed simp

lemma mark_targets_fresh:
  assumes "targets_ok n d" and "mark_targets bs kind inst n d = (d', n')" and "b \<in> set bs"
  shows "\<exists>t. map_of d' (b, kind, inst) = Some t \<and> n \<le> pd_serial t"
  using assms
proof (induction bs arbitrary: n d)
  case (Cons x bs)
  let ?t = "\<lparr>pd_serial = n, pd_backend = x, pd_kind = kind, pd_instance = inst\<rparr>"
  let ?d = "AList.update (x, kind, inst) ?t d"
  have rest: "mark_targets bs kind inst (Suc n) ?d = (d', n')" using Cons.prems(2) by simp
  note ok = targets_ok_update [OF Cons.prems(1)]
  show ?case
  proof (cases "b \<in> set bs")
    case True
    with Cons.IH [OF ok rest] show ?thesis by (meson Suc_leD)
  next
    case False
    then have "map_of ?d (b, kind, inst) = Some ?t" using Cons.prems(3) by (simp add: update_conv')
    with mark_targets_inv [OF ok rest]
    consider "map_of d' (b, kind, inst) = Some ?t" | u where "map_of d' (b, kind, inst) = Some u" "Suc n \<le> pd_serial u"
      by blast
    then show ?thesis by cases auto
  qed
qed simp

text \<open>A change of the pending disposals of one key, and of nothing but keys.\<close>

lemma lawful_key:
  assumes "led' = led\<lparr>l_pending := (l_pending led)(key := d'), l_serial := n', l_unclean := u'\<rparr>"
    and "\<And>k. k \<noteq> key \<Longrightarrow> u' k = l_unclean led k" and "l_serial led \<le> n'"
    and "targets_ok (l_serial led) (l_pending led key) \<Longrightarrow> targets_ok n' d'"
    and "targets_ok (l_serial led) (l_pending led key) \<Longrightarrow> (\<forall>pl t. map_of d' pl = Some t \<longrightarrow> pd_serial t < l_serial led
      \<longrightarrow> map_of (l_pending led key) pl = Some t)"
    and "ledger_ok led \<Longrightarrow> (u' key \<noteq> None \<longleftrightarrow> d' \<noteq> []) \<and> (d' \<noteq> [] \<longrightarrow> may_be_refused key)"
  shows "ledger_ok led \<Longrightarrow> lawful led led'"
proof -
  assume ok: "ledger_ok led"
  have more: "targets_ok n' d" if "targets_ok (l_serial led) d" for d
    using that assms(3) unfolding targets_ok_def by (meson less_le_trans)
  have t: "targets_ok (l_serial led) (l_pending led k)" for k using ok by (simp add: ledger_ok_def keys_ok_def)
  have "keys_ok led'"
    using ok assms(1,2) more t assms(4) [OF t] assms(6) [OF ok]
    by (simp add: ledger_ok_def keys_ok_def)
  moreover have "instances_ok led'"
    using ok assms(1) by (simp add: ledger_ok_def)
  ultimately show "lawful led led'"
    using assms(1,3) assms(5) [OF t] by (auto simp: lawful_def ledger_ok_def)
qed

lemma ledger_ok_targets: "ledger_ok led \<Longrightarrow> targets_ok (l_serial led) (l_pending led key)"
  by (simp add: ledger_ok_def keys_ok_def)

lemma pending_mem:
  assumes "ledger_ok led" and "t \<in> set (pending_of key led)"
  shows "map_of (l_pending led key) (target_of t) = Some t" and "pd_serial t < l_serial led"
proof -
  note ok = ledger_ok_targets [OF assms(1), of key]
  from assms(2) obtain q where "(q, t) \<in> set (l_pending led key)" by (auto simp: pending_of_def)
  then have "map_of (l_pending led key) q = Some t" using ok by (simp add: targets_ok_def)
  moreover from this have "q = target_of t \<and> pd_serial t < l_serial led" using ok unfolding targets_ok_def by blast
  ultimately show "map_of (l_pending led key) (target_of t) = Some t" "pd_serial t < l_serial led" by simp_all
qed

lemma ledger_ok_refused: "ledger_ok led \<Longrightarrow> l_unclean led key \<noteq> None \<longleftrightarrow> l_pending led key \<noteq> []"
  by (simp add: ledger_ok_def keys_ok_def)

lemma ledger_ok_call: "ledger_ok led \<Longrightarrow> l_pending led key \<noteq> [] \<Longrightarrow> may_be_refused key"
  by (simp add: ledger_ok_def keys_ok_def)

lemma lawful_mark_guarded:
  assumes "ledger_ok led" and "reg \<noteq> []" and "may_be_refused key"
  shows "lawful led (mark_guarded reg key reason b kind inst led)"
proof -
  let ?bs = "case b of None \<Rightarrow> reg | Some x \<Rightarrow> [x]"
  obtain d' n' where m: "mark_targets ?bs kind inst (l_serial led) (l_pending led key) = (d', n')"
    by (cases "mark_targets ?bs kind inst (l_serial led) (l_pending led key)")
  note inv = mark_targets_inv [OF _ m]
  obtain x where x: "x \<in> set ?bs" using assms(2) by (cases b; cases reg) auto
  have "\<exists>t. map_of d' (x, kind, inst) = Some t"
    using mark_targets_fresh [OF ledger_ok_targets [OF assms(1)] m x] by blast
  then have ne: "d' \<noteq> []" by auto
  show ?thesis
    unfolding mark_guarded_def m Let_def prod.case
    by (rule lawful_key [OF refl _ _ _ _ _ assms(1)])
      (use inv ne assms(3) ledger_ok_targets [OF assms(1)] in \<open>auto\<close>)
qed

lemma lawful_mark: "ledger_ok led \<Longrightarrow> reg \<noteq> [] \<Longrightarrow> lawful led (mark_unclean reg key reason b kind inst led)"
  by (simp add: mark_unclean_def lawful_mark_guarded)

subsection \<open>Forgetting and noting\<close>

lemma drop_targets_ok:
  assumes "targets_ok n d"
  shows "targets_ok n (drop_targets ts d)
    \<and> (\<forall>pl t. map_of (drop_targets ts d) pl = Some t \<longrightarrow> map_of d pl = Some t)"
  using assms
proof (induction ts arbitrary: d)
  case (Cons t ts)
  let ?d = "if map_option pd_serial (map_of d (target_of t)) = Some (pd_serial t) then AList.delete (target_of t) d else d"
  have sub: "map_of d pl = Some u" if "map_of ?d pl = Some u" for pl u
    using that by (cases "pl = target_of t") (simp_all add: delete_conv' split: if_splits)
  have "distinct (map fst ?d)" using Cons.prems by (simp add: targets_ok_def distinct_delete)
  then have "targets_ok n ?d" using Cons.prems sub unfolding targets_ok_def by blast
  from Cons.IH [OF this] sub show ?case by (metis drop_targets.simps(2))
qed simp

lemma drop_targets_sub:
  "targets_ok n d \<Longrightarrow> map_of (drop_targets ts d) pl = Some t \<Longrightarrow> map_of d pl = Some t"
  using drop_targets_ok by blast

text \<open>An entry that is not one of the objects given stays.\<close>

lemma drop_targets_keeps:
  "map_of d pl = Some t \<Longrightarrow> pd_serial t \<notin> pd_serial ` set ts \<Longrightarrow> map_of (drop_targets ts d) pl = Some t"
proof (induction ts arbitrary: d)
  case (Cons x ts)
  let ?d = "if map_option pd_serial (map_of d (target_of x)) = Some (pd_serial x) then AList.delete (target_of x) d else d"
  have "map_of ?d pl = Some t"
    using Cons.prems by (cases "pl = target_of x") (auto simp: delete_conv')
  then show ?case using Cons by simp
qed simp

lemma drop_targets_drops:
  assumes "targets_ok n d" and "t \<in> set ts" and "map_of d (target_of t) = Some t"
  shows "map_of (drop_targets ts d) (target_of t) = None"
  using assms
proof (induction ts arbitrary: d)
  case (Cons x ts)
  let ?d = "if map_option pd_serial (map_of d (target_of x)) = Some (pd_serial x) then AList.delete (target_of x) d else d"
  have ok: "targets_ok n ?d"
    using drop_targets_ok [OF Cons.prems(1), of "[x]"] by simp
  have gone: "map_of (drop_targets ts e) pl = None" if "targets_ok n e" "map_of e pl = None" for e pl
    using drop_targets_ok [OF that(1)] that(2) by (metis not_None_eq)
  show ?case
  proof (cases "map_of ?d (target_of t)")
    case None
    then show ?thesis using gone [OF ok] by simp
  next
    case (Some u)
    then have "u = t" using Cons.prems(3) by (auto simp: delete_conv' split: if_splits)
    moreover have "t \<noteq> x" using Some Cons.prems(3) by (auto simp: delete_conv')
    ultimately show ?thesis using Cons.IH [OF ok] Cons.prems(2) Some by simp
  qed
qed simp

lemma drop_targets_Nil [simp]: "drop_targets ts [] = []"
  by (induction ts) simp_all

lemma lawful_forget:
  assumes ok: "ledger_ok led"
  shows "lawful led (forget_pending key ts led)"
proof -
  let ?d = "drop_targets ts (l_pending led key)"
  let ?u = "if ?d = [] then (l_unclean led)(key := None) else l_unclean led"
  note d = drop_targets_ok [OF ledger_ok_targets [OF ok], of ts key]
  have ne: "l_pending led key \<noteq> []" if "?d \<noteq> []" using that by auto
  have eq: "forget_pending key ts led =
      led\<lparr>l_pending := (l_pending led)(key := ?d), l_serial := l_serial led, l_unclean := ?u\<rparr>"
    by (simp add: forget_pending_def Let_def)
  have "(?u key \<noteq> None \<longleftrightarrow> ?d \<noteq> []) \<and> (?d \<noteq> [] \<longrightarrow> may_be_refused key)"
    using ne ledger_ok_refused [OF ok, of key] ledger_ok_call [OF ok, of key] by auto
  then show ?thesis
    by (intro lawful_key [OF eq _ _ _ _ _ ok]) (use d in auto)
qed

lemma lawful_note:
  assumes ok: "ledger_ok led" and may: "may_be_refused key"
  shows "lawful led (note_failure key b kind inst f led)"
proof -
  define t where "t = \<lparr>pd_serial = l_serial led, pd_backend = b, pd_kind = kind, pd_instance = inst\<rparr>"
  define there where "there \<longleftrightarrow> map_of (l_pending led key) (b, kind, inst) \<noteq> None"
  define d where "d = (if there then l_pending led key else l_pending led key @ [((b, kind, inst), t)])"
  define u where "u = (l_unclean led)(key \<mapsto> fold_disposal_failures
    (case l_unclean led key of Some (Some old) \<Rightarrow> [old, f] | _ \<Rightarrow> [f]))"
  note old = ledger_ok_targets [OF ok, of key]
  have "(if there then l_pending led else (l_pending led)(key := l_pending led key @ [((b, kind, inst), t)]))
      = (l_pending led)(key := d)"
    by (simp add: d_def)
  then have eq: "note_failure key b kind inst f led =
      led\<lparr>l_pending := (l_pending led)(key := d), l_serial := Suc (l_serial led), l_unclean := u\<rparr>"
    unfolding note_failure_def Let_def t_def [symmetric] there_def [symmetric] u_def [symmetric] by simp
  have look: "map_of d pl = (if \<not> there \<and> pl = (b, kind, inst) then Some t else map_of (l_pending led key) pl)" for pl
    by (auto simp: d_def there_def map_add_def split: option.splits)
  have "distinct (map fst d)" using old by (auto simp: targets_ok_def map_of_eq_None_iff d_def there_def)
  moreover have "pl = target_of x \<and> pd_serial x < Suc (l_serial led)" if "map_of d pl = Some x" for pl x
  proof (cases "\<not> there \<and> pl = (b, kind, inst)")
    case True
    then have "x = t" using that by (simp add: look)
    then show ?thesis using True by (simp add: t_def target_of_def)
  next
    case False
    then have "map_of (l_pending led key) pl = Some x" using that unfolding look by (simp split: if_splits)
    then show ?thesis using old unfolding targets_ok_def by (metis less_SucI)
  qed
  ultimately have ok': "targets_ok (Suc (l_serial led)) d"
    unfolding targets_ok_def by blast
  have sub: "map_of (l_pending led key) pl = Some x" if "map_of d pl = Some x" "pd_serial x < l_serial led" for pl x
    using that unfolding look by (simp split: if_splits) (auto simp: t_def)
  have ne: "d \<noteq> []" by (auto simp: d_def there_def)
  show ?thesis
    by (rule lawful_key [OF eq _ _ _ _ _ ok]) (use ok' sub ne may in \<open>simp_all add: u_def\<close>)
qed

text \<open>Only the recorded reason of a refused key changes.\<close>

lemma lawful_reason:
  "ledger_ok led \<Longrightarrow> l_unclean led key \<noteq> None \<Longrightarrow> lawful led (led\<lparr>l_unclean := (l_unclean led)(key \<mapsto> r)\<rparr>)"
  by (auto simp: lawful_def ledger_ok_def keys_ok_def)

lemma lawful_forget_for:
  assumes ok: "ledger_ok led"
  shows "lawful led (forget_for snapshot b led)"
proof -
  define rest where "rest = (\<lambda>k. if snapshot k = [] then l_pending led k
    else drop_targets (filter (\<lambda>t. pd_backend t = b) (snapshot k)) (l_pending led k))"
  have d: "targets_ok (l_serial led) (rest k)" "map_of (rest k) pl = Some t \<Longrightarrow> map_of (l_pending led k) pl = Some t"
    "rest k \<noteq> [] \<Longrightarrow> l_pending led k \<noteq> []" "snapshot k = [] \<Longrightarrow> rest k = l_pending led k" for k pl t
  proof -
    note d = drop_targets_ok [OF ledger_ok_targets [OF ok], of "filter (\<lambda>t. pd_backend t = b) (snapshot k)" k]
    show "targets_ok (l_serial led) (rest k)"
      using d ledger_ok_targets [OF ok, of k] by (simp add: rest_def)
    show "map_of (rest k) pl = Some t \<Longrightarrow> map_of (l_pending led k) pl = Some t"
      by (cases "snapshot k = []") (simp_all add: rest_def drop_targets_sub [OF ledger_ok_targets [OF ok]])
    show "rest k \<noteq> [] \<Longrightarrow> l_pending led k \<noteq> []" "snapshot k = [] \<Longrightarrow> rest k = l_pending led k"
      by (auto simp: rest_def)
  qed
  have eq: "forget_for snapshot b led = led\<lparr>l_pending := rest,
      l_unclean := (\<lambda>k. if snapshot k \<noteq> [] \<and> rest k = [] then None else l_unclean led k)\<rparr>"
    by (simp add: forget_for_def Let_def rest_def)
  have "(if snapshot k \<noteq> [] \<and> rest k = [] then None else l_unclean led k) \<noteq> None \<longleftrightarrow> rest k \<noteq> []" for k
    using d(3,4) [of k] ledger_ok_refused [OF ok, of k] by auto
  moreover have "rest k \<noteq> [] \<Longrightarrow> may_be_refused k" for k
    using d(3) ledger_ok_call [OF ok] by blast
  ultimately have "ledger_ok (forget_for snapshot b led)"
    using ok d(1) unfolding eq by (simp add: ledger_ok_def keys_ok_def)
  then show ?thesis using d(2) by (simp add: lawful_def eq)
qed

subsection \<open>Instances\<close>

text \<open>A change of what is known of instances, and of nothing but that.\<close>

lemma lawful_instances:
  assumes "l_pending led' = l_pending led" "l_unclean led' = l_unclean led" "l_serial led' = l_serial led"
    and "ledger_ok led \<Longrightarrow> instances_ok led'"
  shows "lawful led led'"
  using assms by (auto simp: lawful_def ledger_ok_def keys_ok_def)

lemma insert_at_look:
  "map_of (insert_at pl inst previous served) x =
     (if x = pl then Some (insert inst ((case map_of served pl of None \<Rightarrow> {} | Some k \<Rightarrow> k) - set_option previous))
      else map_of served x)"
  by (simp add: insert_at_def update_conv')

lemma tenant_ok_remember:
  assumes "tenant_ok led (key, kind, b)"
  shows "tenant_ok (remember_instance key kind b inst previous contract led) (key, kind, b)"
proof -
  define known where "known = (case map_of (l_served led) (key, kind, b) of None \<Rightarrow> {} | Some k \<Rightarrow> k)"
  define c where "c = (case l_contracts led (key, kind, b) of None \<Rightarrow> [] | Some c \<Rightarrow> c)"
  have "(case l_seen led (key, kind, b) of None \<Rightarrow> {} | Some s \<Rightarrow> s) = known" "fst ` set c = known"
    using assms by (auto simp: tenant_ok_def known_def c_def split: option.splits)
  moreover have "fst ` set (AList.delete x c) = fst ` set c - {x}" for x
    using delete_keys [of x c] by (metis image_set set_removeAll)
  ultimately show ?thesis
    by (simp add: tenant_ok_def remember_instance_def Let_def insert_at_look dom_update
        flip: known_def c_def split: option.split)
qed

lemma lawful_remember: "lawful led (remember_instance key kind b inst previous contract led)"
proof (rule lawful_instances)
  let ?led' = "remember_instance key kind b inst previous contract led"
  assume "ledger_ok led"
  then have ok: "distinct (map fst (l_served led))" "tenant_ok led pl" "pins_ok led" for pl
    unfolding ledger_ok_def instances_ok_def by blast+
  have "distinct (map fst (l_served ?led'))"
    using ok(1) by (simp add: remember_instance_def Let_def insert_at_def distinct_update)
  moreover have "tenant_ok ?led' pl" for pl
  proof (cases "pl = (key, kind, b)")
    case True
    then show ?thesis using tenant_ok_remember [OF ok(2)] by simp
  next
    case False
    then show ?thesis using ok(2) [of pl]
      by (simp add: tenant_ok_def remember_instance_def Let_def insert_at_look split: option.splits)
  qed
  moreover have "pins_ok ?led'"
    unfolding pins_ok_def
  proof (intro allI impI)
    fix k w pins p
    assume pins: "l_pins ?led' (k, w) = Some pins" and p: "p \<in> set pins"
    define old where "old = l_pins led (k, w)"
    have served: "l_served ?led' = insert_at (key, kind, b) inst previous (l_served led)"
      by (simp add: remember_instance_def Let_def)
    show "\<exists>known. map_of (l_served ?led') (k, w, b_id (pin_backend p)) = Some known \<and> pin_instance p \<in> known"
    proof (cases "\<exists>prev. previous = Some prev \<and> (k, w) = (key, kind)")
      case True
      then obtain prev qs where prev: "previous = Some prev" "k = key" "w = kind" "l_pins led (key, kind) = Some qs"
        "pins = map (repin b prev inst) qs"
        using pins by (auto simp: remember_instance_def Let_def)
      then obtain q where q: "q \<in> set qs" "p = repin b prev inst q" using p by auto
      obtain known where known: "map_of (l_served led) (key, kind, b_id (pin_backend q)) = Some known"
        "pin_instance q \<in> known"
        using ok(3) prev(4) q(1) unfolding pins_ok_def by blast
      show ?thesis
        unfolding served insert_at_look using known q(2) prev(1-3) by (auto simp: repin_def)
    next
      case False
      then have "l_pins led (k, w) = Some pins"
        using pins by (auto simp: remember_instance_def Let_def split: option.splits if_splits)
      then obtain known where known: "map_of (l_served led) (k, w, b_id (pin_backend p)) = Some known"
        "pin_instance p \<in> known"
        using ok(3) p unfolding pins_ok_def by blast
      then show ?thesis unfolding served insert_at_look using False by (cases previous) auto
    qed
  qed
  ultimately show "instances_ok ?led'" by (simp add: instances_ok_def)
qed (simp_all add: remember_instance_def Let_def)

lemma served_without_keys: "fst ` set (served_without reach inst served) \<subseteq> fst ` set served"
  by (auto simp: served_without_def split: if_splits option.splits) force+

lemma served_without_look:
  assumes "distinct (map fst served)"
  shows "distinct (map fst (served_without reach inst served))
    \<and> map_of (served_without reach inst served) pl =
        (if reach pl then Option.bind (map_of served pl) (without inst) else map_of served pl)"
  using assms
proof (induction served)
  case (Cons x xs)
  obtain tn known where x: "x = (tn, known)" by (cases x)
  have step: "served_without reach inst (x # xs) =
      (if reach tn then (case without inst known of None \<Rightarrow> [] | Some k \<Rightarrow> [(tn, k)]) else [(tn, known)])
        @ served_without reach inst xs"
    by (simp add: served_without_def x)
  have "tn \<notin> fst ` set (served_without reach inst xs)"
    using Cons.prems served_without_keys [of reach inst xs] by (auto simp: x)
  moreover have "map_of xs tn = None" using Cons.prems by (simp add: x map_of_eq_None_iff)
  ultimately show ?case
    using Cons unfolding step
    by (auto simp: x map_of_eq_None_iff split: option.split)
qed (simp add: served_without_def)

lemma tenant_ok_forgotten:
  assumes ok: "tenant_ok led pl" and dist: "distinct (map fst (l_served led))"
  shows "tenant_ok (forget_instances b key kind inst scope thread led) pl"
proof -
  have del: "fst ` set (AList.delete x c) = fst ` set c - {x}" for x and c :: "(string \<times> string option) list"
    using delete_keys [of x c] by (metis image_set set_removeAll)
  have nil: "AList.delete x c = [] \<longleftrightarrow> fst ` set c - {x} = {}" for x and c :: "(string \<times> string option) list"
    using del [of x c] by (metis image_is_empty set_empty)
  show ?thesis
  proof (cases "map_of (l_served led) pl")
    case None
    then show ?thesis
      using ok by (simp add: tenant_ok_def forget_instances_def Let_def served_without_look [OF dist])
  next
    case (Some known)
    then obtain c where c: "known \<noteq> {}" "l_seen led pl = Some known" "l_contracts led pl = Some c" "fst ` set c = known"
      using ok by (auto simp: tenant_ok_def)
    then show ?thesis
      using Some nil [of _ c] del [of _ c]
      by (cases inst)
        (auto simp: tenant_ok_def forget_instances_def Let_def served_without_look [OF dist] without_def
          contracts_without_def)
  qed
qed

lemma pins_ok_forgotten:
  assumes ok: "pins_ok led" and dist: "distinct (map fst (l_served led))"
  shows "pins_ok (forget_instances b key kind inst scope thread led)"
  unfolding pins_ok_def
proof (intro allI impI)
  let ?led' = "forget_instances b key kind inst scope thread led"
  fix k w pins p
  assume pins: "l_pins ?led' (k, w) = Some pins" and p: "p \<in> set pins"
  then obtain old where old: "l_pins led (k, w) = Some old" "p \<in> set old"
    and keeps: "keeps_pin (l_served ?led') b (k, w) p"
    by (auto simp: forget_instances_def Let_def filter_eq_Cons_iff split: option.splits list.splits
        dest!: arg_cong [where f = set])
  show "\<exists>known. map_of (l_served ?led') (k, w, b_id (pin_backend p)) = Some known \<and> pin_instance p \<in> known"
  proof (cases "b_id (pin_backend p) = b")
    case True
    then show ?thesis using keeps by (auto simp: keeps_pin_def split: option.splits)
  next
    case False
    then have "map_of (l_served ?led') (k, w, b_id (pin_backend p)) = map_of (l_served led) (k, w, b_id (pin_backend p))"
      by (simp add: forget_instances_def Let_def served_without_look [OF dist] reaches_def)
    then show ?thesis using ok old unfolding pins_ok_def by simp
  qed
qed

lemma lawful_forgotten: "lawful led (forget_instances b key kind inst scope thread led)"
proof (rule lawful_instances)
  assume "ledger_ok led"
  then have ok: "distinct (map fst (l_served led))" "tenant_ok led pl" "pins_ok led" for pl
    unfolding ledger_ok_def instances_ok_def by blast+
  let ?led' = "forget_instances b key kind inst scope thread led"
  have "distinct (map fst (l_served ?led'))"
    using served_without_look [OF ok(1)] by (simp add: forget_instances_def Let_def)
  moreover have "tenant_ok ?led' pl" for pl by (rule tenant_ok_forgotten [OF ok(2,1)])
  moreover have "pins_ok ?led'" by (rule pins_ok_forgotten [OF ok(3,1)])
  ultimately show "instances_ok ?led'" unfolding instances_ok_def by blast
qed (simp_all add: forget_instances_def Let_def)

end
