(* ===== verification/Disposal_Properties.thy ===== *)
theory Disposal_Properties
  imports Ledger_Lemmas
begin

text \<open>
  The properties of disposal: whoever else runs while a delete is awaited, the ledger stays
  consistent, a mark made meanwhile is not lost, and a refused key is opened again only by deletes
  that landed.
\<close>

subsection \<open>Every operation is lawful where the others are\<close>

definition site_lawful :: "site \<Rightarrow> bool" where
  "site_lawful s \<longleftrightarrow> registered s \<noteq> []
     \<and> (\<forall>b key kind inst n led. lawful led (snd (s_dispose s b key kind inst n led)))
     \<and> (\<forall>key n led. lawful led (snd (s_lock s key n led)))
     \<and> (\<forall>b scope thread n led. lawful led (snd (s_purge s b scope thread n led)))"

text \<open>An action that keeps a consistent ledger lawful, and how such actions compose.\<close>

definition keeps_law :: "'a act \<Rightarrow> bool" where
  "keeps_law m \<longleftrightarrow> (\<forall>led. ledger_ok led \<longrightarrow> lawful led (snd (m led)))"

lemma keeps_lawD: "keeps_law m \<Longrightarrow> ledger_ok led \<Longrightarrow> lawful led (snd (m led))"
  by (simp add: keeps_law_def)

lemma lawful_then: "lawful a b \<Longrightarrow> (ledger_ok b \<Longrightarrow> lawful b c) \<Longrightarrow> ledger_ok a \<Longrightarrow> lawful a c"
  using lawful_trans lawful_ok by blast

lemma lawful_await:
  assumes "\<And>n led. lawful led (snd (f n led))" and "await f led = (a, led')"
  shows "lawful led led'"
proof -
  have "lawful (led\<lparr>l_awaits := Suc (l_awaits led)\<rparr>) led'"
    using assms(1) [of "led\<lparr>l_awaits := Suc (l_awaits led)\<rparr>" "l_awaits led"] assms(2) by (simp add: await_def)
  then show ?thesis using lawful_trans [OF lawful_other(1)] by blast
qed

lemma lawful_await_dispose:
  "site_lawful s \<Longrightarrow> await (s_dispose s b key kind inst) led = (a, led') \<Longrightarrow> lawful led led'"
  by (rule lawful_await) (auto simp: site_lawful_def)

lemma lawful_await_lock: "site_lawful s \<Longrightarrow> await (s_lock s key) led = (a, led') \<Longrightarrow> lawful led led'"
  by (rule lawful_await) (auto simp: site_lawful_def)

lemma lawful_await_purge: "site_lawful s \<Longrightarrow> await (s_purge s b scope thread) led = (a, led') \<Longrightarrow> lawful led led'"
  by (rule lawful_await) (auto simp: site_lawful_def)

lemma lawful_site_mark: "site_lawful s \<Longrightarrow> ledger_ok led \<Longrightarrow> lawful led (mark_unclean (registered s) key reason b kind inst led)"
  by (simp add: lawful_mark site_lawful_def)

lemma keeps_law_kind:
  assumes "site_lawful s"
  shows "keeps_law (dispose_the_kind s key kind b unclean inst)"
  unfolding keeps_law_def
proof (intro allI impI)
  fix led assume ok: "ledger_ok led"
  define mark where "mark = (\<lambda>reason. if refuses s then mark_unclean (registered s) key reason (Some b) (Some kind) inst
                           else (\<lambda>l. l))"
  have mark: "lawful l (mark reason l)" if "ledger_ok l" for reason l
    using that assms by (simp add: mark_def lawful_site_mark)
  define led1 where "led1 = (if unclean = None then led else mark None led)"
  have one: "lawful led led1" using mark [OF ok] by (simp add: led1_def)
  obtain answer led2 where aw: "await (s_dispose s b key (Some kind) inst) led1 = (answer, led2)"
    by (cases "await (s_dispose s b key (Some kind) inst) led1")
  have two: "lawful led led2" using lawful_trans [OF one lawful_await_dispose [OF assms aw]] .
  then have ok2: "ledger_ok led2" using ok lawful_ok by blast
  have "lawful led2 (snd (dispose_the_kind s key kind b unclean inst led))"
  proof (cases "failure_of_instance (s_name s b) answer")
    case None
    have gone: "lawful led2 (forget_pending key ts (forget_instances b (Some key) (Some kind) inst None None led2))" for ts
      using lawful_then [OF lawful_forgotten lawful_forget ok2] .
    show ?thesis
      using None gone mark [OF ok2] aw
      unfolding dispose_the_kind_def mark_def [symmetric] Let_def led1_def [symmetric]
      by (cases answer) (simp_all add: failure_of_instance_def)
  next
    case (Some f)
    show ?thesis
      using Some mark [OF ok2] aw
      unfolding dispose_the_kind_def mark_def [symmetric] Let_def led1_def [symmetric]
      by (cases answer) (simp_all add: failure_of_instance_def)
  qed
  with two show "lawful led (snd (dispose_the_kind s key kind b unclean inst led))"
    by (rule lawful_trans)
qed

lemma lawful_settle:
  assumes "ledger_ok led" and "refuse \<longrightarrow> may_be_refused key"
  shows "lawful led (settle key refuse kind inst pending b answered led)"
  using assms lawful_then [OF lawful_forgotten lawful_forget assms(1)]
  by (cases answered) (simp_all add: settle_def lawful_note)

lemma lawful_loop:
  assumes "site_lawful s" and "refuse \<longrightarrow> may_be_refused key"
  shows "ledger_ok led \<Longrightarrow> lawful led (snd (dispose_loop s key refuse kind inst pending fine bs led))"
proof (induction bs arbitrary: fine led)
  case (Cons b bs)
  obtain answer led' where aw: "await (s_dispose s b key kind inst) led = (answer, led')"
    by (cases "await (s_dispose s b key kind inst) led")
  note one = lawful_await_dispose [OF assms(1) aw]
  then have ok: "ledger_ok led'" using Cons.prems lawful_ok by blast
  have two: "lawful led (settle key refuse kind inst pending b answered led')" for answered
    using lawful_trans [OF one lawful_settle [OF ok assms(2)]] .
  have "lawful led (snd (dispose_loop s key refuse kind inst pending fine' bs
      (settle key refuse kind inst pending b answered led')))" for fine' answered
    using lawful_then [OF two Cons.IH Cons.prems] .
  then show ?case using aw one by (cases answer) (simp_all add: Let_def)
qed simp

lemma keeps_law_each:
  "site_lawful s \<Longrightarrow> (refuse \<longrightarrow> may_be_refused key) \<Longrightarrow> keeps_law (dispose_each s key refuse among kind inst pending)"
  by (simp add: keeps_law_def dispose_each_def Let_def lawful_loop)

lemma keeps_law_locked:
  assumes "site_lawful s" and "keeps_law body"
  shows "keeps_law (locked s key body)"
  unfolding keeps_law_def
proof (intro allI impI)
  fix led assume ok: "ledger_ok led"
  obtain e led' where aw: "await (s_lock s key) led = (e, led')" by (cases "await (s_lock s key) led")
  note one = lawful_await_lock [OF assms(1) aw]
  have "lawful led (snd (body led'))"
    using lawful_then [OF one keeps_lawD [OF assms(2)] ok] .
  then show "lawful led (snd (locked s key body led))"
    using aw one by (cases e) (simp_all add: locked_def)
qed

lemma keeps_law_bounded: "keeps_law body \<Longrightarrow> keeps_law (bounded body)"
  by (auto simp: keeps_law_def bounded_def split: prod.splits sum.splits)

lemma lawful_mark_each:
  "site_lawful s \<Longrightarrow> ledger_ok led \<Longrightarrow> lawful led (mark_each s key reason kind inst bs led)"
proof (induction bs arbitrary: led)
  case (Cons b bs)
  have "lawful led (mark_each s key reason kind inst bs (mark_unclean (registered s) key reason (Some b) kind inst led))"
    by (rule lawful_then [OF lawful_site_mark [OF Cons.prems] Cons.IH [OF Cons.prems(1)] Cons.prems(2)])
  then show ?case by (simp add: mark_each_def)
qed (simp add: mark_each_def)

lemma keeps_law_instances:
  assumes "site_lawful s"
  shows "ledger_ok led \<Longrightarrow> lawful led (snd (each_instance s key kind inst landed bs led))"
proof (induction bs arbitrary: landed led)
  case (Cons b bs)
  obtain r led' where step: "dispose_the_kind s key kind b None inst led = (r, led')"
    by (cases "dispose_the_kind s key kind b None inst led")
  have one: "lawful led led'" using keeps_lawD [OF keeps_law_kind [OF assms] Cons.prems] step by (metis snd_conv)
  have "lawful led (snd (each_instance s key kind inst l bs led'))" for l
    using lawful_then [OF one Cons.IH Cons.prems] .
  then show ?case using step one by (cases r) simp_all
qed simp

lemma keeps_law_dispose_kind:
  assumes "site_lawful s"
  shows "keeps_law (dispose_kind s key kind inst timeout)"
  unfolding keeps_law_def
proof (intro allI impI)
  fix led assume ok: "ledger_ok led"
  define body where "body = (\<lambda>l. if inst \<noteq> None
    then each_instance s key kind inst True (backends_for_instance (registered s) key (Some kind) inst l) l
    else dispose_each s key False None (Some kind) None None l)"
  have "keeps_law body"
    using keeps_law_instances [OF assms] keeps_lawD [OF keeps_law_each [OF assms]]
    by (simp add: keeps_law_def body_def)
  note kb = keeps_law_bounded [OF keeps_law_locked [OF assms this, of key]]
  obtain r led' where run: "bounded (locked s key body) led = (r, led')"
    by (cases "bounded (locked s key body) led")
  have one: "lawful led led'" using keeps_lawD [OF kb ok] run by (metis snd_conv)
  have two: "lawful led (mark_each s key reason (Some kind) inst bs led')" for reason bs
    using lawful_then [OF one lawful_mark_each [OF assms] ok] .
  show "lawful led (snd (dispose_kind s key kind inst timeout led))"
    unfolding dispose_kind_def body_def [symmetric] run Let_def prod.case
    using one two by simp
qed

lemma keeps_law_retry:
  assumes "site_lawful s" and "refuses s \<longrightarrow> may_be_refused key"
  shows "ledger_ok led \<Longrightarrow> lawful led (snd (retry_targets s key landed ts led))"
proof (induction ts arbitrary: landed led)
  case (Cons t ts)
  let ?e = "dispose_each s key (refuses s) (Some [pd_backend t]) (pd_kind t) (pd_instance t) (Some [t]) led"
  obtain r led' where step: "?e = (r, led')" by (cases ?e)
  have one: "lawful led led'"
    using keeps_lawD [OF keeps_law_each [OF assms] Cons.prems] step by (metis snd_conv)
  have "lawful led (snd (retry_targets s key l ts led'))" for l
    using lawful_then [OF one Cons.IH Cons.prems] .
  then show ?case using step one by (cases r) simp_all
qed simp

lemma keeps_law_retry_pending:
  assumes "site_lawful s" and "refuses s \<longrightarrow> may_be_refused key"
  shows "keeps_law (retry_pending s key kind inst)"
  unfolding keeps_law_def
proof (intro allI impI)
  fix led assume ok: "ledger_ok led"
  obtain r led' where run: "retry_targets s key True (pending_for key None kind inst led) led = (r, led')"
    by (cases "retry_targets s key True (pending_for key None kind inst led) led")
  then have "lawful led led'" using keeps_law_retry [OF assms ok] by (metis snd_conv)
  then show "lawful led (snd (retry_pending s key kind inst led))"
    using keeps_lawD [OF keeps_law_each [OF assms] ok] run
    by (cases r) (simp_all add: retry_pending_def Let_def)
qed

lemma lawful_close_before:
  assumes "site_lawful s" and "ledger_ok led" and "may_be_refused key"
  shows "lawful led (close_before s key kind inst led)"
  using assms lawful_mark_each [OF assms(1,2)] lawful_mark_guarded [OF assms(2) _ assms(3)]
  by (simp add: close_before_def site_lawful_def)

lemma keeps_law_unclean:
  assumes "site_lawful s"
  shows "keeps_law (dispose_unclean s key kind inst timeout)"
  unfolding keeps_law_def
proof (intro allI impI)
  fix led assume ok: "ledger_ok led"
  show "lawful led (snd (dispose_unclean s key kind inst timeout led))"
  proof (cases "may_be_refused key")
    case True
    let ?run = "bounded (locked s key (retry_pending s key kind inst)) (close_before s key kind inst led)"
    obtain r led' where run: "?run = (r, led')" by (cases ?run)
    note first = lawful_close_before [OF assms ok True, of kind inst]
    have kb: "keeps_law (bounded (locked s key (retry_pending s key kind inst)))"
      by (intro keeps_law_bounded keeps_law_locked keeps_law_retry_pending assms) (simp add: True)
    have two: "lawful led led'"
      using lawful_then [OF first keeps_lawD [OF kb] ok] run by (metis snd_conv)
    then have ok': "ledger_ok led'" using ok lawful_ok by blast
    have "lawful led (note_expiry s key led')"
      using two lawful_trans [OF two lawful_reason [OF ok']] by (simp add: note_expiry_def Let_def)
    then show ?thesis unfolding dispose_unclean_def run using two by (simp add: Let_def)
  qed (simp add: dispose_unclean_def)
qed

lemma keeps_law_call:
  assumes "site_lawful s"
  shows "keeps_law (dispose_call s key timeout spec admission)"
  unfolding keeps_law_def
proof (intro allI impI)
  fix led assume ok: "ledger_ok led"
  have "lawful led (snd (bounded (locked s key (dispose_each s key False (Some bs) None None None)) led))" for bs
    using keeps_lawD [OF keeps_law_bounded [OF keeps_law_locked [OF assms keeps_law_each [OF assms]]] ok] by simp
  then have b: "lawful led (snd (false_on_timeout (bounded (locked s key
      (dispose_each s key False (Some bs) None None None)) led)))" for bs
    by (simp add: false_on_timeout_def)
  show "lawful led (snd (dispose_call s key timeout spec admission led))"
    unfolding dispose_call_def by (simp add: b split: option.split sum.split prod.split)
qed

lemma lawful_purge_loop:
  assumes "site_lawful s"
  shows "ledger_ok led \<Longrightarrow> lawful led (snd (purge_loop s scope thread snapshot n fs bs led))"
proof (induction bs arbitrary: n fs led)
  case (Cons b bs)
  obtain answer led' where aw: "await (s_purge s b scope thread) led = (answer, led')"
    by (cases "await (s_purge s b scope thread) led")
  note one = lawful_await_purge [OF assms aw]
  then have ok: "ledger_ok led'" using Cons.prems lawful_ok by blast
  let ?f = "forget_for snapshot b (forget_instances b None None None (Some scope) (Some thread) led')"
  have two: "lawful led ?f"
    by (rule lawful_trans [OF one lawful_then [OF lawful_forgotten lawful_forget_for ok]])
  have "lawful led (snd (purge_loop s scope thread snapshot m gs bs l))" if "lawful led l" for m gs l
    using lawful_then [OF that Cons.IH Cons.prems] .
  then show ?case using aw one two by (cases answer) (auto split: option.split)
qed simp

lemma keeps_law_scope: "site_lawful s \<Longrightarrow> keeps_law (dispose_scope s scope thread)"
  by (simp add: keeps_law_def dispose_scope_def lawful_purge_loop)

lemma keeps_law_refuse:
  assumes "site_lawful s"
  shows "keeps_law (refuse_closed_key s key b kind inst)"
  unfolding keeps_law_def
proof (intro allI impI)
  fix led assume ok: "ledger_ok led"
  define led1 where "led1 = (if refuses s then mark_unclean (registered s) key None (Some b) (Some kind) inst led else led)"
  have one: "lawful led led1" using lawful_site_mark [OF assms ok] by (simp add: led1_def)
  let ?run = "bounded (locked s key (dispose_the_kind s key kind b None inst)) led1"
  obtain r led2 where run: "?run = (r, led2)" by (cases ?run)
  have "lawful led led2"
    using lawful_then [OF one keeps_lawD [OF keeps_law_bounded [OF keeps_law_locked [OF assms keeps_law_kind [OF assms]]]] ok]
      run by (metis snd_conv)
  then show "lawful led (snd (refuse_closed_key s key b kind inst led))"
    unfolding refuse_closed_key_def led1_def [symmetric] Let_def run by (cases r) simp_all
qed

text \<open>
  C22: The ledger stays consistent under every disposal.  Let the other tasks do to it, while a
  delete or a lock is awaited, only what keeps it consistent.  Then after any of the router's
  disposals, whatever the backends answered and whether it returned or raised, a key is refused
  exactly while a delete is owed for it, every owed target is filed under its own backend, kind
  and instance, no key of one call is refused, and every pin names an instance still served.
\<close>

theorem ledger_stays_consistent:
  assumes "site_lawful s" and "ledger_ok led"
  shows "ledger_ok (snd (dispose s key led)) \<and> ledger_ok (snd (dispose_kind s key kind inst timeout led))
    \<and> ledger_ok (snd (dispose_unclean s key kind' inst timeout led))
    \<and> ledger_ok (snd (dispose_call s key timeout spec admission led))
    \<and> ledger_ok (snd (dispose_scope s scope thread led))
    \<and> ledger_ok (snd (refuse_closed_key s key b kind inst led))"
proof -
  have "keeps_law (dispose s key)"
    unfolding dispose_def by (intro keeps_law_locked keeps_law_each assms) simp
  then show ?thesis
    using lawful_ok keeps_lawD assms keeps_law_dispose_kind keeps_law_unclean keeps_law_call keeps_law_scope
      keeps_law_refuse by meson
qed

text \<open>A site whose backends and lock answer at once, on a host with one backend.\<close>

definition sample_key :: sandbox_key where
  "sample_key = \<lparr>key_scope = ''s'', thread_id = ''t'', agent_id = ''a'', call_id = []\<rparr>"

definition sample_backend :: backend where
  "sample_backend = \<lparr>b_id = 1, b_name = ''b'', b_isolation = ''container'', b_superseded = [],
     b_declarations = Undeclared\<rparr>"

definition sample_host :: router where
  "sample_host = \<lparr>r_backends = [sample_backend], r_candidates = [sample_backend], r_backend = Some sample_backend,
     r_min_isolation = CONTAINER, r_min_scope = CONVERSATION, r_min_cleanup = DISPOSE,
     r_max_identity_scope = NO_IDENTITY, r_selection = FIXED, r_denied_capabilities = {},
     r_denied_identities = {}, r_channel_preference = []\<rparr>"

definition sample_site :: "(string option \<Rightarrow> disposal_answer) \<Rightarrow> site" where
  "sample_site answer = \<lparr>s_router = sample_host, s_policy = DISPOSE_POLICY, s_name = (\<lambda>_. ''b''),
     s_dispose = (\<lambda>b key kind inst n led. (answer inst, led)), s_lock = (\<lambda>key n led. (None, led)),
     s_purge = (\<lambda>b scope thread n led. (Purged \<lparr>disposed = 1, undisposed = None\<rparr>, led))\<rparr>"

lemma sample_site_lawful: "site_lawful (sample_site answer)"
  by (simp add: site_lawful_def sample_site_def registered_def sample_host_def)

lemma empty_ledger_ok: "ledger_ok empty_ledger"
  by (simp add: ledger_ok_def keys_ok_def instances_ok_def tenant_ok_def pins_ok_def empty_ledger_def targets_ok_def)

text \<open>One instance owed, and a second one marked while it is deleted.\<close>

definition sample_marked :: ledger where
  "sample_marked = mark_unclean [1] sample_key None (Some 1) (Some ''k'') (Some ''i'') empty_ledger"

lemma sample_marked_ok: "ledger_ok sample_marked"
  unfolding sample_marked_def by (rule lawful_ok [OF lawful_mark empty_ledger_ok]) (simp_all add: empty_ledger_ok)

theorem ledger_stays_consistent_witness:
  "ledger_ok (snd (dispose_kind (sample_site (\<lambda>_. Overdue)) sample_key ''k'' (Some ''i'') (Timeout 1) sample_marked))
   \<and> fst (dispose_kind (sample_site (\<lambda>_. Overdue)) sample_key ''k'' (Some ''i'') (Timeout 1) sample_marked) = Inr False"
proof -
  have "fst (dispose_kind (sample_site (\<lambda>_. Overdue)) sample_key ''k'' (Some ''i'') (Timeout 1) sample_marked) = Inr False"
    by code_simp
  with ledger_stays_consistent [OF sample_site_lawful sample_marked_ok] show ?thesis by blast
qed

text \<open>
  C23: A mark made while a delete is in flight survives it.  Whatever the backend answers, a target
  that another task marked during the await is still owed when the delete has been settled, at the
  place it was filed under or as a newer mark there, and its key is still refused.  (Without the
  test of object identity a landing delete would clear a mark it never covered.)
\<close>

theorem mark_survives_the_delete:
  assumes "site_lawful s" and "ledger_ok led"
    and "await (s_dispose s b key (Some kind) inst) led = (answer, mid)"
    and "map_of (l_pending mid key) pl = Some t" and "l_serial led \<le> pd_serial t"
  shows "refused key (snd (dispose_the_kind s key kind b None inst led))
    \<and> (\<exists>u. map_of (l_pending (snd (dispose_the_kind s key kind b None inst led)) key) pl = Some u
         \<and> l_serial led \<le> pd_serial u)"
proof -
  define out where "out = snd (dispose_the_kind s key kind b None inst led)"
  have mid: "lawful led mid" by (rule lawful_await_dispose [OF assms(1,3)])
  then have okm: "ledger_ok mid" using assms(2) lawful_ok by blast
  have out_ok: "ledger_ok out"
    unfolding out_def using lawful_ok [OF keeps_lawD [OF keeps_law_kind [OF assms(1)] assms(2)] assms(2)] .
  define mark where "mark = (\<lambda>reason. if refuses s then mark_unclean (registered s) key reason (Some b) (Some kind) inst
                           else (\<lambda>l. l))"
  have marked: "\<exists>u. map_of (l_pending (mark reason mid) key) pl = Some u \<and> l_serial led \<le> pd_serial u" for reason
  proof -
    have "\<exists>u. map_of (l_pending (mark_guarded reg key reason (Some b) (Some kind) inst mid) key) pl = Some u
        \<and> l_serial led \<le> pd_serial u" for reg
    proof -
      obtain d' n' where m: "mark_targets [b] (Some kind) inst (l_serial mid) (l_pending mid key) = (d', n')"
        by (cases "mark_targets [b] (Some kind) inst (l_serial mid) (l_pending mid key)")
      have le: "l_serial led \<le> l_serial mid" using mid by (simp add: lawful_def)
      from mark_targets_inv [OF ledger_ok_targets [OF okm] m] assms(4)
      consider "map_of d' pl = Some t" | u where "map_of d' pl = Some u" "l_serial mid \<le> pd_serial u" by blast
      then have "\<exists>u. map_of d' pl = Some u \<and> l_serial led \<le> pd_serial u"
        by cases (use assms(5) le in auto)
      then show ?thesis using m by (simp add: mark_guarded_def Let_def)
    qed
    then show ?thesis using assms(4,5) by (auto simp: mark_def mark_unclean_def)
  qed
  define pending where "pending = pending_for key (Some [b]) (Some kind) inst led"
  have "pd_serial x < l_serial led" if "x \<in> set pending" for x
    using pending_mem(2) [OF assms(2)] that by (auto simp: pending_def pending_for_def)
  then have "pd_serial t \<notin> pd_serial ` set pending" using assms(5) by force
  then have kept: "map_of (drop_targets pending (l_pending mid key)) pl = Some t"
    using drop_targets_keeps assms(4) by blast
  have "\<exists>u. map_of (l_pending out key) pl = Some u \<and> l_serial led \<le> pd_serial u"
  proof (cases "failure_of_instance (s_name s b) answer")
    case None
    show ?thesis
      using None kept marked assms(3,5)
      unfolding out_def dispose_the_kind_def mark_def [symmetric] Let_def pending_def [symmetric]
      by (cases answer)
        (simp_all add: failure_of_instance_def forget_pending_def Let_def forget_instances_def pending_def)
  next
    case (Some f)
    show ?thesis
      using Some marked assms(3)
      unfolding out_def dispose_the_kind_def mark_def [symmetric] Let_def
      by (cases answer) (simp_all add: failure_of_instance_def)
  qed
  moreover from this have "l_pending out key \<noteq> []" by auto
  then have "refused key out"
    using ledger_ok_refused [OF out_ok] by (simp add: refused_def unclean_state_def)
  ultimately show ?thesis unfolding out_def by blast
qed

text \<open>A backend that fails to delete while another task marks a second instance.\<close>

definition sample_other :: disposal_failure where
  "sample_other = \<lparr>code = Refused, detail = ''busy''\<rparr>"

definition marking_site :: site where
  "marking_site = (sample_site (\<lambda>_. Gone))\<lparr>s_dispose := (\<lambda>b key kind inst n led.
     (Gone, if ledger_ok led then mark_unclean [1] sample_key None (Some 1) (Some ''k'') (Some ''i'') led else led))\<rparr>"

lemma marking_site_lawful: "site_lawful marking_site"
  using sample_site_lawful [of "\<lambda>_. Gone"]
  by (simp add: site_lawful_def marking_site_def registered_def lawful_mark)

theorem mark_survives_the_delete_witness:
  "refused sample_key (snd (dispose_the_kind marking_site sample_key ''k'' 1 None (Some ''i'') sample_marked))"
proof -
  let ?led = "sample_marked\<lparr>l_awaits := 1\<rparr>"
  let ?mid = "mark_unclean [1] sample_key None (Some 1) (Some ''k'') (Some ''i'') ?led"
  have "l_awaits sample_marked = 0" by code_simp
  then have aw: "await (s_dispose marking_site 1 sample_key (Some ''k'') (Some ''i'')) sample_marked = (Gone, ?mid)"
    by (simp add: await_def marking_site_def sample_marked_ok)
  have there: "map_of (l_pending ?mid sample_key) (1, Some ''k'', Some ''i'') =
      Some \<lparr>pd_serial = 1, pd_backend = 1, pd_kind = Some ''k'', pd_instance = Some ''i''\<rparr>"
    and serial: "l_serial sample_marked = 1" by code_simp+
  show ?thesis
    using mark_survives_the_delete [OF marking_site_lawful sample_marked_ok aw there] serial by simp
qed

subsection \<open>Settling a refused key\<close>

text \<open>Nobody else touches the ledger: what an await gives back is the ledger it was given.\<close>

definition site_quiet :: "site \<Rightarrow> bool" where
  "site_quiet s \<longleftrightarrow> (\<forall>b key kind inst n led. snd (s_dispose s b key kind inst n led) = led)
     \<and> (\<forall>key n led. snd (s_lock s key n led) = led)
     \<and> (\<forall>b scope thread n led. snd (s_purge s b scope thread n led) = led)"

definition answers :: "site \<Rightarrow> sandbox_key \<Rightarrow> pending_disposal \<Rightarrow> disposal_answer \<Rightarrow> bool" where
  "answers s key t a \<longleftrightarrow> (\<exists>n led. fst (s_dispose s (pd_backend t) key (pd_kind t) (pd_instance t) n led) = a)"

lemma quiet_lawful: "site_quiet s \<Longrightarrow> registered s \<noteq> [] \<Longrightarrow> site_lawful s"
  by (simp add: site_quiet_def site_lawful_def)

lemma await_quiet_dispose:
  assumes "site_quiet s" and "await (s_dispose s (pd_backend t) key (pd_kind t) (pd_instance t)) led = (a, led')"
  shows "led' = led\<lparr>l_awaits := Suc (l_awaits led)\<rparr> \<and> answers s key t a"
proof -
  have "snd (s_dispose s b key kind inst n l) = l" for b kind inst n l
    using assms(1) by (simp add: site_quiet_def)
  with assms(2) show ?thesis
    unfolding await_def answers_def by (metis fst_conv snd_conv)
qed

text \<open>One target tried: it goes exactly when its delete landed, and no other entry moves.\<close>

lemma try_target:
  assumes q: "site_quiet s" and ok: "ledger_ok led"
    and there: "map_of (l_pending led key) (target_of t) = Some t"
    and run: "dispose_each s key refuse (Some [pd_backend t]) (pd_kind t) (pd_instance t) (Some [t]) led = (r, led')"
  shows "(\<forall>pl. pl \<noteq> target_of t \<longrightarrow> map_of (l_pending led' key) pl = map_of (l_pending led key) pl)
    \<and> (if r = Inr True then answers s key t Gone \<and> map_of (l_pending led' key) (target_of t) = None
       else map_of (l_pending led' key) (target_of t) = Some t)"
proof -
  obtain a mid where aw: "await (s_dispose s (pd_backend t) key (pd_kind t) (pd_instance t)) led = (a, mid)"
    by (cases "await (s_dispose s (pd_backend t) key (pd_kind t) (pd_instance t)) led")
  note mid = await_quiet_dispose [OF q aw]
  have same: "l_pending mid = l_pending led" using mid by simp
  have gone: "map_of (drop_targets [t] (l_pending led key)) pl =
      (if pl = target_of t then None else map_of (l_pending led key) pl)" for pl
    using there by (simp add: delete_conv')
  have ft: "pl = (pd_backend t, pd_kind t, pd_instance t) \<longleftrightarrow> pl = target_of t" for pl
    by (simp add: target_of_def)
  show ?thesis
  proof (cases "failure_of_sweep (s_name s (pd_backend t)) a")
    case None
    then have "a = Gone \<or> (\<exists>e. a = Interrupted e)" by (cases a) (simp_all add: failure_of_sweep_def)
    then show ?thesis
    proof
      assume g: "a = Gone"
      then have "r = Inr True" "led' = forget_pending key [t]
          (forget_instances (pd_backend t) (Some key) (pd_kind t) (pd_instance t) None None mid)"
        using run aw by (simp_all add: dispose_each_def Let_def failure_of_sweep_def settle_def)
      then show ?thesis
        using mid g gone by (simp add: forget_pending_def Let_def forget_instances_def same del: drop_targets.simps)
    next
      assume "\<exists>e. a = Interrupted e"
      then show ?thesis using run aw same there by (auto simp: dispose_each_def Let_def)
    qed
  next
    case (Some f)
    then have "r = Inr False" "led' = (if refuse then note_failure key (pd_backend t) (pd_kind t) (pd_instance t) f mid else mid)"
      using run aw by (cases a; simp add: dispose_each_def Let_def settle_def failure_of_sweep_def)+
    then show ?thesis
      using there same by (simp add: note_failure_def Let_def target_of_def)
  qed
qed

lemma try_target_ok:
  assumes "site_quiet s" "registered s \<noteq> []" "ledger_ok led" "may_be_refused key"
    and "dispose_each s key refuse among kind inst pending led = (r, led')"
  shows "ledger_ok led'"
  using lawful_ok [OF keeps_lawD [OF keeps_law_each [OF quiet_lawful [OF assms(1,2)]] assms(3)] assms(3)] assms(4,5)
  by (metis snd_conv)

lemma retry_quiet:
  assumes q: "site_quiet s" "registered s \<noteq> []" "may_be_refused key"
    and "ledger_ok led" and "distinct (map target_of ts)"
    and "\<And>t. t \<in> set ts \<Longrightarrow> map_of (l_pending led key) (target_of t) = Some t"
    and "retry_targets s key landed ts led = (r, led')"
  shows "ledger_ok led'
    \<and> (\<forall>pl. pl \<notin> target_of ` set ts \<longrightarrow> map_of (l_pending led' key) pl = map_of (l_pending led key) pl)
    \<and> (\<forall>t \<in> set ts. map_of (l_pending led' key) (target_of t) = Some t
         \<or> (answers s key t Gone \<and> map_of (l_pending led' key) (target_of t) = None))
    \<and> (r = Inr True \<or> \<not> landed \<or> (\<exists>t \<in> set ts. map_of (l_pending led' key) (target_of t) = Some t))
    \<and> (\<forall>x. r = Inr x \<longrightarrow> x \<longrightarrow> landed)"
  using assms(4-)
proof (induction ts arbitrary: landed led)
  case (Cons t ts)
  let ?e = "dispose_each s key (refuses s) (Some [pd_backend t]) (pd_kind t) (pd_instance t) (Some [t]) led"
  obtain x mid where step: "?e = (x, mid)" by (cases ?e)
  have there: "map_of (l_pending led key) (target_of t) = Some t" using Cons.prems(3) by simp
  note one = try_target [OF q(1) Cons.prems(1) there step]
  then have one_other: "pl \<noteq> target_of t \<Longrightarrow> map_of (l_pending mid key) pl = map_of (l_pending led key) pl"
    and one_own: "x \<noteq> Inr True \<Longrightarrow> map_of (l_pending mid key) (target_of t) = Some t" for pl
    by (blast, simp)
  have okm: "ledger_ok mid" by (rule try_target_ok [OF q(1,2) Cons.prems(1) q(3) step])
  show ?case
  proof (cases x)
    case (Inl e)
    then have "r = Inl e" "led' = mid" using step Cons.prems(4) by simp_all
    moreover have "target_of u \<noteq> target_of t" if "u \<in> set ts" for u
      using that Cons.prems(2) by (metis distinct.simps(2) image_eqI list.simps(9) set_map)
    ultimately have keep: "map_of (l_pending led' key) (target_of u) = Some u" if "u \<in> set (t # ts)" for u
      using one_own one_other Inl Cons.prems(3) [OF that] that by (cases "u = t") simp_all
    have "map_of (l_pending led' key) pl = map_of (l_pending led key) pl" if "pl \<notin> target_of ` set (t # ts)" for pl
      using one_other that \<open>led' = mid\<close> by simp
    then show ?thesis using keep okm \<open>r = Inl e\<close> \<open>led' = mid\<close> by auto
  next
    case (Inr fine)
    then have rest: "retry_targets s key (fine \<and> landed) ts mid = (r, led')" using step Cons.prems(4) by simp
    have "map_of (l_pending mid key) (target_of u) = Some u" if "u \<in> set ts" for u
    proof -
      have "target_of u \<noteq> target_of t" using that Cons.prems(2) by (metis distinct.simps(2) image_eqI list.simps(9) set_map)
      then show ?thesis using one_other Cons.prems(3) [of u] that by simp
    qed
    then have ih_ok: "ledger_ok led'"
      and ih_other: "\<And>pl. pl \<notin> target_of ` set ts \<Longrightarrow> map_of (l_pending led' key) pl = map_of (l_pending mid key) pl"
      and ih_each: "\<And>u. u \<in> set ts \<Longrightarrow> map_of (l_pending led' key) (target_of u) = Some u
         \<or> (answers s key u Gone \<and> map_of (l_pending led' key) (target_of u) = None)"
      and ih_left: "r = Inr True \<or> \<not> (fine \<and> landed) \<or> (\<exists>t \<in> set ts. map_of (l_pending led' key) (target_of t) = Some t)"
      and ih_true: "\<And>y. r = Inr y \<Longrightarrow> y \<Longrightarrow> fine \<and> landed"
      using Cons.IH [OF okm _ _ rest] Cons.prems(2) by (simp_all, blast+)
    have own: "map_of (l_pending led' key) (target_of t) = map_of (l_pending mid key) (target_of t)"
      using ih_other Cons.prems(2) by simp
    have done_own: "if fine then answers s key t Gone \<and> map_of (l_pending led' key) (target_of t) = None
      else map_of (l_pending led' key) (target_of t) = Some t"
      using one own Inr by (cases fine) auto
    have "map_of (l_pending led' key) pl = map_of (l_pending led key) pl" if "pl \<notin> target_of ` set (t # ts)" for pl
      using that ih_other one_other by simp
    moreover have "map_of (l_pending led' key) (target_of u) = Some u
         \<or> (answers s key u Gone \<and> map_of (l_pending led' key) (target_of u) = None)" if "u \<in> set (t # ts)" for u
      using that ih_each done_own by (cases "u = t") (auto split: if_splits)
    moreover have "r = Inr True \<or> \<not> landed \<or> (\<exists>t \<in> set (t # ts). map_of (l_pending led' key) (target_of t) = Some t)"
      using ih_left done_own by (cases fine) auto
    ultimately show ?thesis using ih_ok ih_true by blast
  qed
qed auto

lemma refused_iff: "ledger_ok led \<Longrightarrow> refused key led \<longleftrightarrow> l_pending led key \<noteq> []"
  using ledger_ok_refused by (simp add: refused_def unclean_state_def)

lemma entry_refused: "ledger_ok led \<Longrightarrow> map_of (l_pending led key) pl = Some t \<Longrightarrow> refused key led"
  by (cases "l_pending led key") (simp_all add: refused_iff)

text \<open>Marking keeps every place filled, and fills its own.\<close>

lemma mark_guarded_place:
  assumes "ledger_ok led"
  shows "map_of (l_pending led key) pl = Some t \<Longrightarrow> \<exists>u. map_of (l_pending (mark_guarded reg key reason b kind inst led) key) pl = Some u"
    and "x \<in> set (case b of None \<Rightarrow> reg | Some y \<Rightarrow> [y]) \<Longrightarrow>
      \<exists>u. map_of (l_pending (mark_guarded reg key reason b kind inst led) key) (x, kind, inst) = Some u"
proof -
  let ?bs = "case b of None \<Rightarrow> reg | Some y \<Rightarrow> [y]"
  obtain d' n' where m: "mark_targets ?bs kind inst (l_serial led) (l_pending led key) = (d', n')"
    by (cases "mark_targets ?bs kind inst (l_serial led) (l_pending led key)")
  have d: "l_pending (mark_guarded reg key reason b kind inst led) key = d'"
    by (simp add: mark_guarded_def m)
  note ok = ledger_ok_targets [OF assms, of key]
  show "map_of (l_pending led key) pl = Some t \<Longrightarrow> \<exists>u. map_of (l_pending (mark_guarded reg key reason b kind inst led) key) pl = Some u"
    unfolding d using mark_targets_inv [OF ok m] by blast
  show "x \<in> set ?bs \<Longrightarrow> \<exists>u. map_of (l_pending (mark_guarded reg key reason b kind inst led) key) (x, kind, inst) = Some u"
    unfolding d using mark_targets_fresh [OF ok m] by blast
qed

lemma mark_each_place:
  assumes "registered s \<noteq> []" "may_be_refused key" "site_lawful s"
  shows "ledger_ok led \<Longrightarrow>
    (\<forall>pl t. map_of (l_pending led key) pl = Some t \<longrightarrow>
      (\<exists>u. map_of (l_pending (mark_each s key reason kind inst bs led) key) pl = Some u))
    \<and> (\<forall>b \<in> set bs. \<exists>u. map_of (l_pending (mark_each s key reason kind inst bs led) key) (b, kind, inst) = Some u)"
proof (induction bs arbitrary: led)
  case (Cons b bs)
  let ?m = "mark_guarded (registered s) key reason (Some b) kind inst led"
  have step: "mark_each s key reason kind inst (b # bs) led = mark_each s key reason kind inst bs ?m"
    using assms(2) by (simp add: mark_each_def mark_unclean_def)
  have "ledger_ok ?m" by (rule lawful_ok [OF lawful_mark_guarded [OF Cons.prems assms(1,2)] Cons.prems])
  note ih = Cons.IH [OF this]
  have "\<exists>u. map_of (l_pending ?m key) (b, kind, inst) = Some u"
    by (rule mark_guarded_place(2) [OF Cons.prems]) simp
  then show ?case
    unfolding step using ih mark_guarded_place(1) [OF Cons.prems, of key] by fastforce
qed (simp add: mark_each_def)

lemma backends_for_instance_some: "reg \<noteq> [] \<Longrightarrow> backends_for_instance reg key kind inst led \<noteq> []"
  by (cases inst) (auto simp: backends_for_instance_def Let_def)

text \<open>Before it tries anything, \<open>dispose_unclean\<close> has the key refused over a target it will try.\<close>

lemma close_before_place:
  assumes "site_lawful s" and "ledger_ok led" and "may_be_refused key" and "refuses s"
  shows "(\<forall>pl t. map_of (l_pending led key) pl = Some t \<longrightarrow>
      (\<exists>u. map_of (l_pending (close_before s key kind inst led) key) pl = Some u))
    \<and> pending_for key None kind inst (close_before s key kind inst led) \<noteq> []"
proof -
  let ?out = "close_before s key kind inst led"
  have reg: "registered s \<noteq> []" using assms(1) by (simp add: site_lawful_def)
  have ok: "ledger_ok ?out" by (rule lawful_ok [OF lawful_close_before [OF assms(1-3)] assms(2)])
  have found: "pending_for key None kind inst ?out \<noteq> []"
    if "map_of (l_pending ?out key) pl = Some u" "kind = None \<or> fst (snd pl) = kind" "inst = None \<or> snd (snd pl) = inst" for pl u
  proof -
    have "pl = target_of u" using ledger_ok_targets [OF ok, of key] that(1) unfolding targets_ok_def by blast
    moreover have "u \<in> set (pending_of key ?out)" using map_of_SomeD [OF that(1)] by (force simp: pending_of_def)
    ultimately have "u \<in> set (pending_for key None kind inst ?out)"
      using that(2,3) by (auto simp: pending_for_def target_of_def)
    then show ?thesis by auto
  qed
  consider (narrow) "kind \<noteq> None \<or> inst \<noteq> None" | (mark) "kind = None" "inst = None" "l_unclean led key = None"
    | (already) "kind = None" "inst = None" "l_unclean led key \<noteq> None" by blast
  then show ?thesis
  proof cases
    case narrow
    let ?bs = "backends_for_instance (registered s) key kind inst led"
    have eq: "?out = mark_each s key None kind inst ?bs led"
      using narrow assms(4) by (simp add: close_before_def)
    note place = mark_each_place [OF reg assms(3,1,2), of None kind inst ?bs]
    obtain b where "b \<in> set ?bs" using backends_for_instance_some [OF reg] by (meson ex_in_conv set_empty)
    then obtain u where "map_of (l_pending ?out key) (b, kind, inst) = Some u" using place eq by auto
    from found [OF this] place eq show ?thesis by simp
  next
    case mark
    have eq: "?out = mark_guarded (registered s) key None None None None led"
      using mark assms(4) by (simp add: close_before_def)
    obtain b where "b \<in> set (registered s)" using reg by (meson ex_in_conv set_empty)
    then obtain u where "map_of (l_pending ?out key) (b, None, None) = Some u"
      unfolding eq using mark_guarded_place(2) [OF assms(2), where b = None and reg = "registered s" and x = b]
      by (metis option.simps(4))
    from found [OF this] mark mark_guarded_place(1) [OF assms(2)] eq show ?thesis by simp
  next
    case already
    have eq: "?out = led" using already by (auto simp: close_before_def)
    have "l_pending led key \<noteq> []" using ledger_ok_refused [OF assms(2)] already(3) by simp
    then show ?thesis using eq already by (simp add: pending_for_def pending_of_def)
  qed
qed

text \<open>
  C21: A refused key is opened by deletes that landed and by nothing else.  While nobody else
  touches the ledger, \<open>dispose_unclean\<close> on a host that refuses dirty keys answers yes exactly when
  the key may be acquired afterwards, a delete that ran out of time included; and a key that it
  opened had every one of its owed targets, whichever selectors narrowed the call, answered as
  gone by its own backend.
\<close>

theorem settled_exactly:
  assumes quiet: "site_quiet s" and reg: "registered s \<noteq> []" and ok: "ledger_ok led" and pol: "refuses s"
    and run: "dispose_unclean s key kind inst timeout led = (Inr landed, led')"
  shows "(landed \<longleftrightarrow> \<not> refused key led')
    \<and> (\<not> refused key led' \<longrightarrow> (\<forall>t \<in> set (pending_of key led). answers s key t Gone))"
proof -
  have may: "may_be_refused key" and fin: "positive_finite timeout"
    using run by (auto simp: dispose_unclean_def split: if_splits)
  note law = quiet_lawful [OF quiet reg]
  define led1 where "led1 = close_before s key kind inst led"
  have ok1: "ledger_ok led1" unfolding led1_def by (rule lawful_ok [OF lawful_close_before [OF law ok may] ok])
  note place = close_before_place [OF law ok may pol, of kind inst, folded led1_def]
  obtain e led2 where lock: "await (s_lock s key) led1 = (e, led2)" by (cases "await (s_lock s key) led1")
  have led2: "led2 = led1\<lparr>l_awaits := Suc (l_awaits led1)\<rparr>"
    using lock quiet unfolding site_quiet_def await_def by (metis snd_conv)
  have ok2: "ledger_ok led2" using ok1 by (simp add: led2)
  have same: "l_pending led2 = l_pending led1" by (simp add: led2)
  define ts where "ts = pending_for key None kind inst led2"
  have ts_ne: "ts \<noteq> []" using place by (simp add: ts_def led2 pending_for_def pending_of_def)
  have ts_mem: "t \<in> set (pending_of key led2)" if "t \<in> set ts" for t using that by (simp add: ts_def pending_for_def)
  have "target_of ` set (pending_of key led2) = fst ` set (l_pending led2 key)
      \<and> distinct (map target_of (pending_of key led2))"
  proof -
    have "map target_of (pending_of key led2) = map fst (l_pending led2 key)"
      using ledger_ok_targets [OF ok2, of key] by (auto simp: pending_of_def targets_ok_def)
    then show ?thesis using ledger_ok_targets [OF ok2, of key] unfolding targets_ok_def
      by (metis image_set)
  qed
  then have dist: "distinct (map target_of ts)"
    by (simp add: ts_def pending_for_def distinct_map_filter)
  obtain r led3 where tries: "retry_targets s key True ts led2 = (r, led3)" by (cases "retry_targets s key True ts led2")
  note res = retry_quiet [OF quiet reg may ok2 dist pending_mem(1) [OF ok2 ts_mem] tries]
  then have ok3: "ledger_ok led3"
    and others3: "pl \<notin> target_of ` set ts \<Longrightarrow> map_of (l_pending led3 key) pl = map_of (l_pending led2 key) pl"
    and each3: "t \<in> set ts \<Longrightarrow> map_of (l_pending led3 key) (target_of t) = Some t
         \<or> (answers s key t Gone \<and> map_of (l_pending led3 key) (target_of t) = None)" for pl t
    by blast+
  have still: "refused key led3" if "r \<noteq> Inr True"
    using res that entry_refused [OF ok3] by blast
  have after: "t \<in> set (pending_of key led) \<Longrightarrow> answers s key t Gone" if "\<not> refused key led3" for t
  proof -
    assume t: "t \<in> set (pending_of key led)"
    obtain u where u: "map_of (l_pending led2 key) (target_of t) = Some u"
      using place pending_mem(1) [OF ok t] same by metis
    then have tu: "target_of u = target_of t"
      using ledger_ok_targets [OF ok2, of key] unfolding targets_ok_def by metis
    have none: "map_of (l_pending led3 key) (target_of t) = None"
      using that entry_refused [OF ok3] by (cases "map_of (l_pending led3 key) (target_of t)") simp_all
    have "target_of t \<in> target_of ` set ts"
      using others3 [of "target_of t"] u none by (cases "target_of t \<in> target_of ` set ts") simp_all
    then obtain v where v: "v \<in> set ts" "target_of v = target_of t" by auto
    then have "answers s key v Gone" using each3 [OF v(1)] none by simp
    then show "answers s key t Gone" using v(2) by (simp add: answers_def target_of_def)
  qed
  have body: "retry_pending s key kind inst led2 =
      (case r of Inl e \<Rightarrow> (Inl e, led3) | Inr l \<Rightarrow> (Inr (l \<and> \<not> refused key led3), led3))"
    using ts_ne tries by (simp add: retry_pending_def Let_def ts_def split: sum.split)
  let ?run = "bounded (locked s key (retry_pending s key kind inst)) led1"
  have "dispose_unclean s key kind inst timeout led =
      (if fst ?run = Inl TimeoutError then (Inr False, note_expiry s key (snd ?run)) else ?run)"
    using may fin by (simp add: dispose_unclean_def led1_def Let_def)
  with run have out: "(Inr landed, led') =
      (if fst ?run = Inl TimeoutError then (Inr False, note_expiry s key (snd ?run)) else ?run)"
    by (rule trans [OF sym])
  have expiry: "refused key (note_expiry s key l) = refused key l" for l
    by (simp add: note_expiry_def Let_def refused_def unclean_state_def)
  have bound_case: "(refused key led' \<longleftrightarrow> refused key led3) \<and> (landed \<longleftrightarrow> r = Inr True \<and> \<not> refused key led3)"
    if "e = None"
  proof -
    have lk: "locked s key (retry_pending s key kind inst) led1 = retry_pending s key kind inst led2"
      using lock that by (simp add: locked_def)
    show ?thesis
    proof (cases r)
      case (Inl x)
      then have b: "?run = (Inl (if x = Expiring then TimeoutError else x), led3)"
        by (simp add: bounded_def lk body)
      have "fst ?run = Inl TimeoutError" using out b by (metis fst_conv Inl_Inr_False)
      then show ?thesis using out b expiry Inl by simp
    next
      case (Inr l)
      then have b: "?run = (Inr (l \<and> \<not> refused key led3), led3)" by (simp add: bounded_def lk body)
      then show ?thesis using out Inr by auto
    qed
  qed
  have lock_case: "\<not> landed \<and> refused key led'" if "e = Some x" for x
  proof -
    have "pending_of key led2 \<noteq> []" using ts_ne by (auto simp: ts_def pending_for_def)
    then have "refused key led2" using refused_iff [OF ok2] by (auto simp: pending_of_def)
    moreover have b: "?run = (Inl (if x = Expiring then TimeoutError else x), led2)"
      using lock that by (simp add: locked_def bounded_def)
    moreover have "fst ?run = Inl TimeoutError" using out b by (metis fst_conv Inl_Inr_False)
    ultimately show ?thesis using out expiry by simp
  qed
  show ?thesis
    using bound_case lock_case still after by (cases e) auto
qed

text \<open>Two instances owed, of which one is never deleted.\<close>

definition sample_two :: ledger where
  "sample_two = mark_unclean [1] sample_key None (Some 1) (Some ''k'') (Some ''j'') sample_marked"

lemma sample_two_ok: "ledger_ok sample_two"
  unfolding sample_two_def by (rule lawful_ok [OF lawful_mark sample_marked_ok]) (simp_all add: sample_marked_ok)

definition sample_stubborn :: site where
  "sample_stubborn = sample_site (\<lambda>inst. if inst = Some ''j'' then Reports sample_other else Gone)"

theorem settled_exactly_witness:
  "refused sample_key (snd (dispose_unclean sample_stubborn sample_key None None (Timeout 1) sample_two))
   \<and> \<not> refused sample_key (snd (dispose_unclean (sample_site (\<lambda>_. Gone)) sample_key None None (Timeout 1) sample_two))"
proof -
  have quiet: "site_quiet (sample_site a)" "registered (sample_site a) \<noteq> []" "refuses (sample_site a)" for a
    by (simp_all add: site_quiet_def sample_site_def registered_def sample_host_def refuses_def)
  have "fst (dispose_unclean sample_stubborn sample_key None None (Timeout 1) sample_two) = Inr False"
    and "fst (dispose_unclean (sample_site (\<lambda>_. Gone)) sample_key None None (Timeout 1) sample_two) = Inr True"
    by code_simp+
  then have a: "dispose_unclean sample_stubborn sample_key None None (Timeout 1) sample_two =
      (Inr False, snd (dispose_unclean sample_stubborn sample_key None None (Timeout 1) sample_two))"
    and b: "dispose_unclean (sample_site (\<lambda>_. Gone)) sample_key None None (Timeout 1) sample_two =
      (Inr True, snd (dispose_unclean (sample_site (\<lambda>_. Gone)) sample_key None None (Timeout 1) sample_two))"
    by (simp_all add: prod_eq_iff)
  show ?thesis
    using settled_exactly [OF quiet(1,2) sample_two_ok quiet(3) a [unfolded sample_stubborn_def]]
      settled_exactly [OF quiet(1,2) sample_two_ok quiet(3) b]
    by (simp add: sample_stubborn_def)
qed

end
