(* ===== verification/Acquire.thy ===== *)
theory Acquire
  imports Disposal
begin

text \<open>
  Acquiring a sandbox in \<open>SandboxRouter\<close> (\<open>_router.py\<close>): \<open>_acquire_and_adopt\<close> and what it calls.
  A \<open>server\<close> is a site with what the router awaits there: the backends' \<open>acquire\<close>, a sandbox's
  \<open>reset\<close>, a channel's \<open>prepare\<close>, the admission a backend may ask for itself, and the gate
  \<open>_adoptions\<close> (an \<open>ExclusiveSlots\<close>) that lets one acquire of a key and kind run at a time.

  An action here also carries the call's \<open>CallAdmission\<close>, an object the code updates in place.
  The records for observers (\<open>_Serving\<close>) are left out.
\<close>

subsection \<open>Sandboxes\<close>

text \<open>
  A sandbox as the router reads it at one moment: the object, whether \<open>reclaim\<close> is callable, its
  \<open>instance_id\<close> (\<open>None\<close> for one that is not a string) and whether it says it is freshly created.
\<close>

record sandbox_view =
  sb_ref :: nat
  sb_reclaims :: bool
  sb_instance :: "string option"
  sb_fresh :: bool

definition instance_of :: "sandbox_view \<Rightarrow> string option" where
  "instance_of sb = (if sb_instance sb = Some [] then None else sb_instance sb)"

definition refuse_an_invalid_sandbox :: "sandbox_view \<Rightarrow> unit result" where
  "refuse_an_invalid_sandbox sb =
     bindE (raiseIf (\<not> sb_reclaims sb) TypeError) (\<lambda>_. raiseIf (instance_of sb = None) TypeError)"

text \<open>The attribute itself, where the sandbox has been checked.\<close>

definition id_of :: "sandbox_view \<Rightarrow> string" where
  "id_of sb = (case sb_instance sb of None \<Rightarrow> [] | Some i \<Rightarrow> i)"

datatype reset_answer = Reset_returned | Reset_failed | Reset_interrupted exc
datatype acquire_answer = Acquired sandbox_view | Acquire_raises exc

record server =
  v_site :: site
  v_acquire :: "nat \<Rightarrow> sandbox_key \<Rightarrow> sandbox_spec \<Rightarrow> nat \<Rightarrow> ledger \<Rightarrow> acquire_answer \<times> ledger"
  v_reset :: "sandbox_view \<Rightarrow> nat \<Rightarrow> ledger \<Rightarrow> (reset_answer \<times> sandbox_view) \<times> ledger"
  v_prepare :: "program_channel \<Rightarrow> sandbox_view \<Rightarrow> sandbox_spec \<Rightarrow> nat \<Rightarrow> ledger \<Rightarrow> (exc option \<times> sandbox_view) \<times> ledger"
  v_admits :: "nat \<Rightarrow> bool"
  v_enter :: "nat \<Rightarrow> sandbox_key \<Rightarrow> sandbox_spec \<Rightarrow> string \<Rightarrow> nat \<Rightarrow> ledger \<Rightarrow> exc option \<times> ledger"
  v_exit :: "nat \<Rightarrow> sandbox_key \<Rightarrow> string \<Rightarrow> string \<Rightarrow> nat \<Rightarrow> ledger \<Rightarrow> exc option \<times> ledger"
  v_gate :: "sandbox_key \<Rightarrow> string \<Rightarrow> nat \<Rightarrow> ledger \<Rightarrow> exc option \<times> ledger"

text \<open>
  \<open>_reset_instance\<close>: a reset that returns must leave a valid sandbox with a new identity, or it
  raises like one that failed.  The \<open>asyncio.timeout\<close> around it is one more way to fail.
\<close>

definition reset_instance :: "server \<Rightarrow> sandbox_view \<Rightarrow> ledger \<Rightarrow> (reset_answer \<times> sandbox_view) \<times> ledger" where
  "reset_instance v sb led =
     (let ((answer, sb'), led') = await (v_reset v sb) led
      in ((if answer = Reset_returned
              \<and> (refuse_an_invalid_sandbox sb' \<noteq> Inr () \<or> sb_instance sb' = sb_instance sb)
           then Reset_failed else answer, sb'), led'))"

subsection \<open>Sequencing\<close>

definition then_act :: "'a act \<Rightarrow> ('a \<Rightarrow> 'b act) \<Rightarrow> 'b act" where
  "then_act m f led = (case m led of (Inl e, led') \<Rightarrow> (Inl e, led') | (Inr x, led') \<Rightarrow> f x led')"

definition lift :: "'a result \<Rightarrow> 'a act" where
  "lift r led = (r, led)"

text \<open>An await that only returns or raises.\<close>

definition await_unit :: "(nat \<Rightarrow> ledger \<Rightarrow> exc option \<times> ledger) \<Rightarrow> unit act" where
  "await_unit f led = (case await f led of (None, led') \<Rightarrow> (Inr (), led') | (Some e, led') \<Rightarrow> (Inl e, led'))"

text \<open>\<open>except\<close> with a body that ends in \<open>raise\<close>: its own exception replaces the first.\<close>

definition on_error :: "'a act \<Rightarrow> 'b act \<Rightarrow> 'a act" where
  "on_error m handler led =
     (case m led of
        (Inl e, led') \<Rightarrow> (case handler led' of (Inl e', led'') \<Rightarrow> (Inl e', led'') | (Inr _, led'') \<Rightarrow> (Inl e, led''))
      | r \<Rightarrow> r)"

subsection \<open>Adoption\<close>

text \<open>The end of \<open>_adopt\<close>: what was cleaned or created is remembered unless the key was closed.\<close>

definition end_adoption ::
  "server \<Rightarrow> sandbox_key \<Rightarrow> sandbox_spec \<Rightarrow> nat \<Rightarrow> string option \<Rightarrow> bool \<Rightarrow> sandbox_view \<Rightarrow> sandbox_view act" where
  "end_adoption v key spec b previous check sb led =
     then_act (if refused key led then refuse_closed_key (v_site v) key b (spec_kind spec) (instance_of sb)
               else lift (Inr ()))
       (\<lambda>_. then_act (lift (if check then refuse_an_invalid_sandbox sb else Inr ()))
         (\<lambda>_ led'. (Inr sb, remember_instance key (spec_kind spec) b (id_of sb) previous (execution_contract spec) led')))
       led"

text \<open>The fallback of \<open>_adopt\<close>: delete the unfamiliar instance and create another.\<close>

definition adopt_by_disposal ::
  "server \<Rightarrow> sandbox_key \<Rightarrow> sandbox_spec \<Rightarrow> nat \<Rightarrow> string \<Rightarrow> sandbox_view \<Rightarrow> sandbox_view act" where
  "adopt_by_disposal v key spec b inst sb =
     then_act (dispose_the_kind (v_site v) key (spec_kind spec) b None
                (Some (case instance_of sb of None \<Rightarrow> inst | Some i \<Rightarrow> i)))
       (\<lambda>failure led.
          if failure \<noteq> None
          then (if refuses (v_site v) then (Inl (SandboxUnclean (map_option code (snd (unclean_state key led)))), led)
                else end_adoption v key spec b None True sb led)
          else (case await (v_acquire v b key spec) led of
              (Acquire_raises e, led') \<Rightarrow> (Inl e, led')
            | (Acquired sb', led') \<Rightarrow>
                then_act (on_error (lift (refuse_an_invalid_sandbox sb'))
                    (dispose_the_kind (v_site v) key (spec_kind spec) b None (instance_of sb')))
                  (\<lambda>_. end_adoption v key spec b None True sb') led'))"

definition adopt ::
  "server \<Rightarrow> sandbox_key \<Rightarrow> sandbox_spec \<Rightarrow> nat \<Rightarrow> bool \<Rightarrow> sandbox_view \<Rightarrow> sandbox_view act" where
  "adopt v key spec b snapshot sb led =
     (let known = (case l_seen led (key, spec_kind spec, b) of None \<Rightarrow> {} | Some k \<Rightarrow> k)
      in if id_of sb \<in> known then (Inr sb, led)
         else if sb_fresh sb
         then (Inr sb, remember_instance key (spec_kind spec) b (id_of sb) None (execution_contract spec) led)
         else if snapshot
         then (case reset_instance v sb led of
             ((Reset_interrupted e, sb'), led') \<Rightarrow>
               (Inl e, if refuses (v_site v)
                       then mark_unclean (registered (v_site v)) key None (Some b) (Some (spec_kind spec))
                              (Some (case instance_of sb' of None \<Rightarrow> id_of sb | Some i \<Rightarrow> i)) led'
                       else led')
           | ((Reset_returned, sb'), led') \<Rightarrow> end_adoption v key spec b (Some (id_of sb)) False sb' led'
           | ((Reset_failed, sb'), led') \<Rightarrow> adopt_by_disposal v key spec b (id_of sb) sb' led')
         else adopt_by_disposal v key spec b (id_of sb) sb led)"


subsection \<open>Choosing and creating\<close>

type_synonym 'a serve = "call_admission option \<Rightarrow> ledger \<Rightarrow> 'a result \<times> call_admission option \<times> ledger"

definition then_serve :: "'a serve \<Rightarrow> ('a \<Rightarrow> 'b serve) \<Rightarrow> 'b serve" where
  "then_serve m f ad led =
     (case m ad led of (Inl e, ad', led') \<Rightarrow> (Inl e, ad', led') | (Inr x, ad', led') \<Rightarrow> f x ad' led')"

definition serve_act :: "'a act \<Rightarrow> 'a serve" where
  "serve_act m ad led = (case m led of (r, led') \<Rightarrow> (r, ad, led'))"

definition note_admission :: "(call_admission \<Rightarrow> call_admission) \<Rightarrow> unit serve" where
  "note_admission f ad led = (Inr (), map_option f ad, led)"

text \<open>Leaving the admission the backend before gave, and entering one of this backend.\<close>

definition pop_hold :: "server \<Rightarrow> sandbox_key \<Rightarrow> string \<Rightarrow> string \<Rightarrow> unit act" where
  "pop_hold v key kind owner led =
     (case l_holds led (key, kind, owner) of
        None \<Rightarrow> (Inr (), led)
      | Some b \<Rightarrow> await_unit (v_exit v b key kind owner) (led\<lparr>l_holds := (l_holds led)((key, kind, owner) := None)\<rparr>))"

definition push_hold :: "server \<Rightarrow> sandbox_key \<Rightarrow> sandbox_spec \<Rightarrow> string \<Rightarrow> backend \<Rightarrow> unit act" where
  "push_hold v key spec owner b =
     (if v_admits v (b_id b)
      then then_act (await_unit (v_enter v (b_id b) key spec owner))
             (\<lambda>_ led. (Inr (), led\<lparr>l_holds := (l_holds led)((key, spec_kind spec, owner) \<mapsto> b_id b)\<rparr>))
      else lift (Inr ()))"

definition switch_backend :: "server \<Rightarrow> sandbox_key \<Rightarrow> sandbox_spec \<Rightarrow> backend \<Rightarrow> unit serve" where
  "switch_backend v key spec b ad =
     (let r = s_router (v_site v)
      in case ad of
        None \<Rightarrow> (\<lambda>led. (Inr (), ad, led))
      | Some a \<Rightarrow>
          then_serve (serve_act (pop_hold v key (spec_kind spec) (ad_owner a)))
          (\<lambda>_. then_serve (serve_act (push_hold v key spec (ad_owner a) b))
          (\<lambda>_. then_serve (note_admission (\<lambda>a. a\<lparr>ad_backend := b\<rparr>))
          (\<lambda>_. then_serve (serve_act (lift (cleanup_on r b spec)))
          (\<lambda>rung. then_serve (note_admission (\<lambda>a. a\<lparr>ad_rung := rung\<rparr>))
          (\<lambda>_. then_serve (serve_act (lift (channel_for r b spec)))
          (\<lambda>channel. note_admission (\<lambda>a. a\<lparr>ad_channel := channel\<rparr>))))))) ad)"

text \<open>The spec a backend is asked with: what its channel requires is added, and checked again.\<close>

definition backend_spec :: "sandbox_spec \<Rightarrow> program_channel option \<Rightarrow> sandbox_spec result" where
  "backend_spec spec channel =
     (case channel of
        None \<Rightarrow> Inr spec
      | Some c \<Rightarrow> spec_post_init (spec_as_args (spec\<lparr>requires := requires spec \<union> ch_required c spec\<rparr>)))"

definition has_snapshot :: "backend \<Rightarrow> bool result" where
  "has_snapshot b =
     bindE (declarations_of b) (\<lambda>d. bindE (declared_set (d_capabilities d)) (\<lambda>caps.
       Inr (capability_value SNAPSHOT \<in> caps)))"

record created =
  cr_backend :: backend
  cr_channel :: "program_channel option"
  cr_spec :: sandbox_spec
  cr_snapshot :: bool
  cr_sandbox :: sandbox_view

text \<open>The body of the \<open>try\<close>: the admission counts as served while the create is awaited.\<close>

definition create_on ::
  "server \<Rightarrow> sandbox_key \<Rightarrow> sandbox_spec \<Rightarrow> backend \<Rightarrow> program_channel option \<Rightarrow> created serve" where
  "create_on v key spec b channel =
     then_serve (serve_act (lift (has_snapshot b)))
     (\<lambda>snapshot. then_serve (note_admission (\<lambda>a. a\<lparr>ad_served := True\<rparr>))
     (\<lambda>_. then_serve (serve_act (lift (backend_spec spec channel)))
     (\<lambda>asked. serve_act (\<lambda>led. case await (v_acquire v (b_id b) key asked) led of
          (Acquire_raises e, led') \<Rightarrow> (Inl e, led')
        | (Acquired sb, led') \<Rightarrow>
            (Inr \<lparr>cr_backend = b, cr_channel = channel, cr_spec = asked, cr_snapshot = snapshot, cr_sandbox = sb\<rparr>,
             led')))))"

definition unserve :: "call_admission option \<Rightarrow> call_admission option \<Rightarrow> call_admission option" where
  "unserve before after =
     (case before of None \<Rightarrow> after | Some a \<Rightarrow> map_option (\<lambda>x. x\<lparr>ad_served := ad_served a\<rparr>) after)"

text \<open>The loop over the candidates; only \<open>SandboxBackendUnavailable\<close> goes on to the next one.\<close>

fun try_candidates ::
  "server \<Rightarrow> sandbox_key \<Rightarrow> sandbox_spec \<Rightarrow> backend \<Rightarrow> program_channel option \<Rightarrow> backend list \<Rightarrow> created serve" where
  "try_candidates v key spec b channel rest ad led =
     (case create_on v key spec b channel ad led of
        (Inl e, ad', led') \<Rightarrow>
          if e = BackendUnavailable
          then (case rest of
              [] \<Rightarrow> (Inl e, unserve ad ad', led')
            | b' # bs \<Rightarrow>
                then_serve (switch_backend v key spec b')
                (\<lambda>_. then_serve (serve_act (lift (channel_for (s_router (v_site v)) b' spec)))
                (\<lambda>channel'. try_candidates v key spec b' channel' bs)) (unserve ad ad') led')
          else (Inl e, ad', led')
      | r \<Rightarrow> r)"


subsection \<open>The whole of an acquire\<close>

text \<open>The backend that serves, its pin, and the checks before anything is created.\<close>

definition choose_backend ::
  "server \<Rightarrow> sandbox_key \<Rightarrow> sandbox_spec \<Rightarrow> call_admission option \<Rightarrow> ledger \<Rightarrow> backend result" where
  "choose_backend v key spec ad led =
     (let r = s_router (v_site v); (closed_key, reported) = unclean_state key led
      in bindE (raiseIf (r_candidates r = []) NoSandboxBackend) (\<lambda>_.
         bindE (raiseIf closed_key (SandboxUnclean (map_option code reported))) (\<lambda>_.
         bindE (case ad of
             None \<Rightarrow>
               (let pin = find_pin key spec None led
                in bindE (case pin of Some p \<Rightarrow> Inr (pin_backend p) | None \<Rightarrow> refuse_unless_backend_can_serve r spec) (\<lambda>b.
                   bindE (refuse_host_denials r spec) (\<lambda>_.
                   bindE (refuse_unless_this_backend_can_serve r b spec (map_option pin_channel pin)) (\<lambda>_. Inr b))))
           | Some a \<Rightarrow>
               bindE (refuse_host_denials r spec) (\<lambda>_.
               bindE (refuse_unless_this_backend_can_serve r (ad_backend a) spec (ad_channel a)) (\<lambda>_.
                 Inr (ad_backend a)))) (\<lambda>served.
         bindE (raiseIf (effective_isolation_scope r spec = CALL \<and> call_id key = []) ValueError) (\<lambda>_.
         bindE (raiseIf (effective_isolation_scope r spec = CONVERSATION \<and> call_id key \<noteq> []) ValueError) (\<lambda>_.
         bindE (raiseIf (case find_pin key spec None led of None \<Rightarrow> False
                         | Some p \<Rightarrow> b_id (pin_backend p) \<noteq> b_id served) ValueError) (\<lambda>_.
           Inr served)))))))"

definition first_channel ::
  "server \<Rightarrow> sandbox_key \<Rightarrow> sandbox_spec \<Rightarrow> call_admission option \<Rightarrow> ledger \<Rightarrow> backend \<Rightarrow> program_channel option result" where
  "first_channel v key spec ad led b =
     (case find_pin key spec None led of
        Some p \<Rightarrow> Inr (Some (pin_channel p))
      | None \<Rightarrow> (case ad of Some a \<Rightarrow> Inr (ad_channel a) | None \<Rightarrow> channel_for (s_router (v_site v)) b spec))"

definition other_candidates ::
  "server \<Rightarrow> sandbox_key \<Rightarrow> sandbox_spec \<Rightarrow> call_admission option \<Rightarrow> ledger \<Rightarrow> backend \<Rightarrow> backend list result" where
  "other_candidates v key spec ad led b =
     (let r = s_router (v_site v)
      in if program spec \<noteq> None \<and> find_pin key spec None led = None
            \<and> \<not> (case ad of None \<Rightarrow> False | Some a \<Rightarrow> ad_served a)
         then bindE (program_candidates r spec) (\<lambda>found.
              bindE (mapE (\<lambda>one. if b_id one = b_id b then Inr []
                         else bindE (refusal_serving r one spec) (\<lambda>x. Inr (if x = None then [one] else []))) found)
                (\<lambda>kept. Inr (concat kept)))
         else Inr [])"

text \<open>What follows the create: the checks, adoption or remembering.\<close>

definition admit_sandbox :: "server \<Rightarrow> sandbox_key \<Rightarrow> sandbox_spec \<Rightarrow> created \<Rightarrow> sandbox_view act" where
  "admit_sandbox v key spec c led =
     (let s = v_site v; b = b_id (cr_backend c); sb = cr_sandbox c; kind = spec_kind spec
      in then_act (if refused key led then refuse_closed_key s key b kind (instance_of sb) else lift (Inr ()))
         (\<lambda>_. then_act (on_error (lift (refuse_an_invalid_sandbox sb))
                (dispose_the_kind s key kind b (Some ''the acquired sandbox violates the protocol'') (instance_of sb)))
         (\<lambda>_ led'. then_act (lift (check_execution_contract key spec b (id_of sb) led'))
           (\<lambda>_. if effective_isolation_scope (s_router s) spec \<noteq> CALL
                then adopt v key (cr_spec c) b (cr_snapshot c) sb
                else (\<lambda>led. (Inr sb, remember_instance key kind b (id_of sb) None (execution_contract spec) led))) led'))
         led)"

text \<open>The profile of a program: prepared on the instance, then pinned to it.\<close>

definition pin_program ::
  "sandbox_key \<Rightarrow> sandbox_spec \<Rightarrow> backend \<Rightarrow> program_channel \<Rightarrow> string \<Rightarrow> unit act" where
  "pin_program key spec b c inst led =
     (if refused key led then (Inl (SandboxUnclean None), led)
      else if (case map_of (l_served led) (key, spec_kind spec, b_id b) of None \<Rightarrow> True | Some known \<Rightarrow> inst \<notin> known)
      then (Inl (SandboxUnclean None), led)
      else (let pins = (case l_pins led (key, spec_kind spec) of None \<Rightarrow> [] | Some ps \<Rightarrow> ps);
                pin = \<lparr>pin_spec = spec, pin_backend = b, pin_channel = c, pin_instance = inst\<rparr>
            in (Inr (), led\<lparr>l_pins := (l_pins led)((key, spec_kind spec) \<mapsto>
                  filter (\<lambda>p. pin_spec p \<noteq> spec) pins @ [pin])\<rparr>)))"

definition prepare_program ::
  "server \<Rightarrow> sandbox_key \<Rightarrow> sandbox_spec \<Rightarrow> backend \<Rightarrow> program_channel \<Rightarrow> sandbox_view \<Rightarrow> sandbox_view act" where
  "prepare_program v key spec b c sb led =
     (case await (v_prepare v c sb spec) led of
        ((Some e, sb'), led') \<Rightarrow>
          on_error (lift (Inl e)) (dispose_the_kind (v_site v) key (spec_kind spec) (b_id b)
            (Some ''the execution profile could not be verified'') (sb_instance sb')) led'
      | ((None, sb'), led') \<Rightarrow> then_act (pin_program key spec b c (id_of sb')) (\<lambda>_. lift (Inr sb')) led')"

definition program_channel_for ::
  "server \<Rightarrow> sandbox_key \<Rightarrow> sandbox_spec \<Rightarrow> backend \<Rightarrow> string \<Rightarrow> ledger \<Rightarrow> program_channel option result" where
  "program_channel_for v key spec b inst led =
     (let r = s_router (v_site v)
      in bindE (case find_pin key spec (Some (b, inst)) led of Some p \<Rightarrow> Inr (Some (pin_channel p))
                | None \<Rightarrow> channel_for r b spec) (\<lambda>channel.
         bindE (refuse_unless_this_backend_can_serve r b spec channel) (\<lambda>_. Inr channel)))"

definition finish_program ::
  "server \<Rightarrow> sandbox_key \<Rightarrow> sandbox_spec \<Rightarrow> backend \<Rightarrow> sandbox_view \<Rightarrow> sandbox_view serve" where
  "finish_program v key spec b sb =
     (if program spec = None then serve_act (lift (Inr sb))
      else then_serve (serve_act (\<lambda>led. (program_channel_for v key spec b (id_of sb) led, led)))
        (\<lambda>channel. then_serve (note_admission (\<lambda>a. a\<lparr>ad_channel := channel\<rparr>))
        (\<lambda>_. serve_act (case channel of None \<Rightarrow> lift (Inr sb) | Some c \<Rightarrow> prepare_program v key spec b c sb))))"

definition acquire_and_adopt :: "server \<Rightarrow> sandbox_key \<Rightarrow> sandbox_spec \<Rightarrow> sandbox_view serve" where
  "acquire_and_adopt v key spec ad led =
     then_serve (serve_act (lift (choose_backend v key spec ad led)))
     (\<lambda>served. then_serve (serve_act (lift (first_channel v key spec ad led served)))
     (\<lambda>channel. then_serve (serve_act (lift (other_candidates v key spec ad led served)))
     (\<lambda>rest. then_serve (try_candidates v key spec served channel rest)
     (\<lambda>c. then_serve (note_admission (\<lambda>a. a\<lparr>ad_served := True\<rparr>))
     (\<lambda>_. then_serve (serve_act (admit_sandbox v key spec c))
     (\<lambda>sb. finish_program v key spec (cr_backend c) sb)))))) ad led"

text \<open>\<open>acquire\<close>: one at a time for each key and kind.\<close>

definition acquire :: "server \<Rightarrow> sandbox_key \<Rightarrow> sandbox_spec \<Rightarrow> sandbox_view serve" where
  "acquire v key spec =
     then_serve (serve_act (await_unit (v_gate v key (spec_kind spec))))
       (\<lambda>_. acquire_and_adopt v key spec)"

end
