(* ===== verification/Calls.thy ===== *)
theory Calls
  imports Acquire Slots
begin

text \<open>
  A call around its sandbox (\<open>_router.py\<close>): entering through the slots, condemning what it used,
  leaving, and the cleanup the last one out runs.  Here the ledger and the slots meet.

  A \<open>house\<close> is a router with both.  While a call awaits something, other tasks act on the ledger
  as the server's functions say, and on the slots as \<open>k_others\<close> says; a \<open>caller\<close> carries that, the
  closed event loops, the loop it runs on, the router's reclaim bound, and what a sandbox object
  shows when it is read.  The cleanup authority of a
  backend admission is a plain context manager around the release and is left out.
\<close>

subsection \<open>State\<close>

record house =
  h_ledger :: ledger
  h_slots :: slots

record caller =
  k_server :: server
  k_shut :: "nat set"
  k_others :: "nat \<Rightarrow> slots \<Rightarrow> slots"
  k_view :: "nat \<Rightarrow> nat \<Rightarrow> sandbox_view"
  k_bound :: rat
  k_loop :: nat
  k_meanwhile :: "ledger \<Rightarrow> ledger"
  k_wait :: "nat \<Rightarrow> nat \<Rightarrow> ledger \<Rightarrow> exc option \<times> ledger"

type_synonym 'a stay = "house \<Rightarrow> 'a result \<times> house"

text \<open>An action on the ledger, with what other tasks do to the slots while it runs.\<close>

definition during :: "caller \<Rightarrow> 'a act \<Rightarrow> 'a stay" where
  "during k m h =
     (case m (h_ledger h) of (r, led) \<Rightarrow>
        (r, \<lparr>h_ledger = led, h_slots = k_others k (l_awaits led) (h_slots h)\<rparr>))"

definition on_slots :: "(slots \<Rightarrow> slots) \<Rightarrow> house \<Rightarrow> house" where
  "on_slots f h = h\<lparr>h_slots := f (h_slots h)\<rparr>"

definition look :: "caller \<Rightarrow> nat \<Rightarrow> house \<Rightarrow> sandbox_view" where
  "look k ref h = k_view k ref (l_awaits (h_ledger h))"

subsection \<open>The rung\<close>

text \<open>
  \<open>_run_the_rung\<close>: \<open>None\<close> when the sandbox is clean.  Whatever a reset's outcome, the identity it
  left is remembered; one that failed escalates to a disposal.
\<close>

definition run_the_rung ::
  "server \<Rightarrow> sandbox_key \<Rightarrow> sandbox_spec \<Rightarrow> nat \<Rightarrow> cleanup \<Rightarrow> sandbox_view option \<Rightarrow> string option \<Rightarrow>
   string option act" where
  "run_the_rung v key spec b rung sandbox unclean led =
     (let kind = spec_kind spec;
          inst = Option.bind sandbox sb_instance;
          now = (\<lambda>sb. case instance_of sb of None \<Rightarrow> inst | Some i \<Rightarrow> Some i)
      in case (rung, sandbox) of
           (RESET, Some sb) \<Rightarrow>
             (let ((answer, sb'), led1) = reset_instance v sb led;
                  led2 = (if instance_of sb' = None then led1
                          else remember_instance key kind b (id_of sb') inst (execution_contract spec) led1)
              in case answer of
                   Reset_interrupted e \<Rightarrow> (Inl e, led2)
                 | Reset_returned \<Rightarrow> (Inr None, led2)
                 | Reset_failed \<Rightarrow>
                     dispose_the_kind (v_site v) key kind b (or_else unclean (Some ''the reset failed'')) (now sb') led2)
         | _ \<Rightarrow> dispose_the_kind (v_site v) key kind b unclean
                  (case sandbox of None \<Rightarrow> None | Some sb \<Rightarrow> now sb) led)"

subsection \<open>Leaving\<close>

text \<open>
  The loop of \<open>_release_call\<close>: each claimed record is cleaned, completed and its waiters renewed.
  An address with no record cannot occur.
\<close>

fun run_pending :: "caller \<Rightarrow> sandbox_key \<Rightarrow> string \<Rightarrow> nat list \<Rightarrow> unit stay" where
  "run_pending k key kind [] h = (Inr (), h)"
| "run_pending k key kind (a # as) h =
     (case heap (h_slots h) a of
        None \<Rightarrow> (Inl KeyError, h)
      | Some c \<Rightarrow>
          (case during k (run_the_rung (k_server k) key (pc_spec c) (pc_backend c) (pc_rung c)
                            (Some (look k (pc_sandbox c) h)) (pc_unclean c)) h of
             (Inl e, h') \<Rightarrow> (Inl e, h')
           | (Inr failure, h') \<Rightarrow>
               run_pending k key kind as
                 (on_slots (\<lambda>st. renew (k_shut k) (key, kind) (complete_cleanup (k_shut k) a failure st)) h')))"

text \<open>The \<open>finally\<close>: what was not finished is marked, unless failures are kept, and completed.\<close>

definition interrupted_text :: string where
  "interrupted_text = ''the tool call's cleanup was interrupted''"

definition transfer_one :: "caller \<Rightarrow> sandbox_key \<Rightarrow> string \<Rightarrow> nat \<Rightarrow> house \<Rightarrow> house" where
  "transfer_one k key kind a h =
     (let s = v_site (k_server k)
      in case heap (h_slots h) a of
        None \<Rightarrow> h
      | Some c \<Rightarrow>
          if pc_done c then h
          else (let inst = (case instance_of (look k (pc_sandbox c) h) of None \<Rightarrow> pc_instance c | Some i \<Rightarrow> i);
                    led = (if refuses s
                           then mark_unclean (registered s) key (Some \<lparr>code = Unknown, detail = interrupted_text\<rparr>)
                                  (Some (pc_backend c)) (Some kind) (Some inst) (h_ledger h)
                           else h_ledger h)
                in \<lparr>h_ledger = led, h_slots = complete_cleanup (k_shut k) a (Some interrupted_text) (h_slots h)\<rparr>))"

definition leave :: "caller \<Rightarrow> sandbox_key \<Rightarrow> string \<Rightarrow> string \<Rightarrow> bool \<Rightarrow> unit stay" where
  "leave k key kind owner interrupted h =
     (let (claimed, st) = release (k_shut k) (key, kind) owner (h_slots h);
          h1 = h\<lparr>h_slots := st\<rparr>
      in if claimed = [] then (Inr (), h1)
         else (let (r, h2) = run_pending k key kind (if interrupted then [] else claimed) h1;
                   h3 = foldl (\<lambda>h a. transfer_one k key kind a h) h2 claimed
               in case cleaned (k_shut k) (key, kind) (h_slots h3) of
                    Inl e \<Rightarrow> (Inl e, h3)
                  | Inr st' \<Rightarrow> (r, h3\<lparr>h_slots := st'\<rparr>)))"

text \<open>\<open>release_call\<close>: the backend's own admission is left last, whatever happened.\<close>

definition release_call :: "caller \<Rightarrow> sandbox_key \<Rightarrow> string \<Rightarrow> string \<Rightarrow> bool \<Rightarrow> unit stay" where
  "release_call k key kind owner interrupted h =
     (let led = h_ledger h; hold = l_holds led (key, kind, owner);
          (r, h') = leave k key kind owner interrupted
            (h\<lparr>h_ledger := led\<lparr>l_holds := (l_holds led)((key, kind, owner) := None)\<rparr>\<rparr>)
      in case hold of
           None \<Rightarrow> (r, h')
         | Some b \<Rightarrow>
             (case during k (await_unit (v_exit (k_server k) b key kind owner)) h' of
                (Inl e, h'') \<Rightarrow> (Inl e, h'')
              | (Inr _, h'') \<Rightarrow> (r, h'')))"


subsection \<open>Waiting for admission\<close>

text \<open>
  How the wait of one turn ends.  A turn of the loop of \<open>take\<close> reads the clock after its guarded
  body; if the bound is over it gives up at once.
\<close>

datatype wait_end = Resolved rat | Over | Abandoned exc

record waited =
  x_clock :: rat
  x_others :: "slots \<Rightarrow> slots"
  x_end :: wait_end

text \<open>The loop of \<open>take\<close>, given how each wait goes; \<open>None\<close> while it is still waiting.\<close>

fun take_loop ::
  "nat set \<Rightarrow> place \<Rightarrow> string \<Rightarrow> bool \<Rightarrow> nat \<Rightarrow> rat \<Rightarrow> waiter option \<Rightarrow> nat option \<Rightarrow> rat \<Rightarrow> rat \<Rightarrow>
   waited list \<Rightarrow> slots \<Rightarrow> (unit result \<times> slots) option" where
  "take_loop shut pl owner exclusive lp timeout queued seen now deadline waits st =
     (case take_turn shut pl owner exclusive lp queued seen now timeout deadline st of
        (Admitted, st') \<Rightarrow> Some (Inr (), st')
      | (Waits w generation until_, st') \<Rightarrow>
          (case waits of
             [] \<Rightarrow> None
           | x # rest \<Rightarrow>
               if until_ - x_clock x \<le> 0 then Some (Inl TimeoutError, forget_waiter shut pl (w_id w) st')
               else (case x_end x of
                   Resolved now' \<Rightarrow>
                     take_loop shut pl owner exclusive lp timeout (Some w) (Some generation) now' until_ rest (x_others x st')
                 | Over \<Rightarrow> Some (Inl TimeoutError, forget_waiter shut pl (w_id w) (x_others x st'))
                 | Abandoned e \<Rightarrow> Some (Inl e, forget_waiter shut pl (w_id w) (x_others x st')))))"

declare take_loop.simps [simp del]

subsection \<open>Entering\<close>

definition asks_exclusive :: "caller \<Rightarrow> bool \<Rightarrow> sandbox_spec \<Rightarrow> backend \<Rightarrow> bool result" where
  "asks_exclusive k exclusive spec b =
     (if exclusive \<or> program spec \<noteq> None \<or> exclusive_admission spec then Inr True
      else bindE (declarations_of b) (\<lambda>d.
        Inr (d_requires_exclusive d = Shaped True \<or> v_admits (k_server k) (b_id b))))"

text \<open>The body of the \<open>try\<close>, once the call is inside.\<close>

definition resolve_admission ::
  "caller \<Rightarrow> sandbox_key \<Rightarrow> sandbox_spec \<Rightarrow> string \<Rightarrow> rat \<Rightarrow> backend \<Rightarrow> call_admission act" where
  "resolve_admission k key spec owner timeout b led =
     (let r = s_router (v_site (k_server k)); pinned = find_pin key spec None led
      in then_act (lift (case pinned of
             Some p \<Rightarrow> Inr (pin_backend p)
           | None \<Rightarrow> if program spec \<noteq> None then refuse_unless_backend_can_serve r spec else Inr b))
         (\<lambda>serving. then_act (lift (refuse_host_denials r spec))
         (\<lambda>_. then_act (lift (refuse_unless_this_backend_can_serve r serving spec (map_option pin_channel pinned)))
         (\<lambda>_. then_act (push_hold (k_server k) key spec owner serving)
         (\<lambda>_. then_act (lift (cleanup_on r serving spec))
         (\<lambda>rung. then_act (lift (case pinned of Some p \<Rightarrow> Inr (Some (pin_channel p)) | None \<Rightarrow> channel_for r serving spec))
         (\<lambda>channel. lift (Inr \<lparr>ad_backend = serving, ad_rung = rung, ad_served = False, ad_channel = channel,
                              ad_owner = owner, ad_timeout = timeout\<rparr>))))))) led)"

definition enter_call ::
  "caller \<Rightarrow> sandbox_key \<Rightarrow> sandbox_spec \<Rightarrow> string \<Rightarrow> rat \<Rightarrow> bool \<Rightarrow> rat \<Rightarrow> waited list \<Rightarrow> house \<Rightarrow>
   (call_admission result \<times> house) option" where
  "enter_call k key spec owner timeout exclusive now waits h =
     (let r = s_router (v_site (k_server k)); led = h_ledger h
      in case bindE (case find_pin key spec None led of
               Some p \<Rightarrow> Inr (pin_backend p) | None \<Rightarrow> refuse_unless_backend_can_serve r spec)
             (\<lambda>b. bindE (asks_exclusive k exclusive spec b) (\<lambda>x. Inr (b, x))) of
           Inl e \<Rightarrow> Some (Inl e, h)
         | Inr (b, alone) \<Rightarrow>
             (case take_loop (k_shut k) (key, spec_kind spec) owner alone (k_loop k) timeout None None now
                     (now + timeout) waits (h_slots h) of
                None \<Rightarrow> None
              | Some (Inl e, st) \<Rightarrow> Some (Inl e, \<lparr>h_ledger = k_meanwhile k led, h_slots = st\<rparr>)
              | Some (Inr _, st) \<Rightarrow>
                  Some (case during k (resolve_admission k key spec owner timeout b)
                           \<lparr>h_ledger = k_meanwhile k led, h_slots = st\<rparr> of
                      (Inr ad, h') \<Rightarrow> (Inr ad, h')
                    | (Inl e, h') \<Rightarrow>
                        (case release_call k key (spec_kind spec) owner False h' of
                           (Inl e', h'') \<Rightarrow> (Inl e', h'')
                         | (Inr _, h'') \<Rightarrow> (Inl e, h'')))))"

subsection \<open>Finishing\<close>

text \<open>\<open>queue_cleanup\<close>, given the address of the new record.\<close>

definition condemn ::
  "caller \<Rightarrow> sandbox_key \<Rightarrow> sandbox_spec \<Rightarrow> call_admission \<Rightarrow> sandbox_view \<Rightarrow> string \<Rightarrow> cleanup \<Rightarrow>
   string option \<Rightarrow> rat option \<Rightarrow> nat \<Rightarrow> nat stay" where
  "condemn k key spec ad sb owner rung unclean timeout addr h =
     (if rung = RECLAIM_RUNG then (Inl ValueError, h)
      else (let c = \<lparr>pc_backend = b_id (ad_backend ad), pc_spec = spec, pc_sandbox = sb_ref sb, pc_instance = id_of sb,
                    pc_rung = rung, pc_timeout = (case timeout of None \<Rightarrow> k_bound k | Some t \<Rightarrow> t),
                    pc_unclean = unclean, pc_done = False, pc_failure = None, pc_waiters = []\<rparr>;
                st = new_cleanup addr c (h_slots h)
            in case queue_cleanup (key, spec_kind spec) owner addr st of
                 Inl e \<Rightarrow> (Inl e, h\<lparr>h_slots := st\<rparr>)
               | Inr (standing, st') \<Rightarrow> (Inr standing, h\<lparr>h_slots := st'\<rparr>)))"

fun condemn_each ::
  "caller \<Rightarrow> sandbox_key \<Rightarrow> sandbox_spec \<Rightarrow> call_admission \<Rightarrow> string \<Rightarrow> string option \<Rightarrow> rat option \<Rightarrow>
   (nat \<times> sandbox_view) list \<Rightarrow> nat list stay" where
  "condemn_each k key spec ad owner unclean timeout [] h = (Inr [], h)"
| "condemn_each k key spec ad owner unclean timeout ((addr, sb) # rest) h =
     (case condemn k key spec ad sb owner (ad_rung ad) unclean timeout addr h of
        (Inl e, h') \<Rightarrow> (Inl e, h')
      | (Inr standing, h') \<Rightarrow>
          (case condemn_each k key spec ad owner unclean timeout rest h' of
             (Inl e, h'') \<Rightarrow> (Inl e, h'')
           | (Inr found, h'') \<Rightarrow> (Inr (standing # found), h'')))"

text \<open>The dictionary by identity: the last sandbox shown with an identity, at the first one's place.\<close>

definition by_instance :: "sandbox_view list \<Rightarrow> sandbox_view list" where
  "by_instance sbs = map snd (foldl (\<lambda>d sb. AList.update (id_of sb) sb d) [] sbs)"

text \<open>\<open>wait_cleanup\<close>: a bound that runs out is an answer of its own.\<close>

definition await_cleanup :: "caller \<Rightarrow> nat \<Rightarrow> string option stay" where
  "await_cleanup k addr h =
     (case Slots.wait_cleanup (k_loop k) addr (h_slots h) of
        Some (Registered w, st) \<Rightarrow>
          (let (r, h') = during k (await_unit (k_wait k addr)) (h\<lparr>h_slots := st\<rparr>)
           in case wait_over addr (w_id w) (h_slots h') of
                None \<Rightarrow> (Inl KeyError, h')
              | Some (answer, st') \<Rightarrow>
                  (bindE r (\<lambda>_. Inr (case answer of
                       Answered f \<Rightarrow> f
                     | _ \<Rightarrow> Some ''cleanup is still pending after waiting for active sibling calls'')),
                   h'\<lparr>h_slots := st'\<rparr>))
      | Some (Answered f, st) \<Rightarrow> (Inr f, h\<lparr>h_slots := st\<rparr>)
      | _ \<Rightarrow> (Inl KeyError, h))"

fun await_each :: "caller \<Rightarrow> nat list \<Rightarrow> string option list stay" where
  "await_each k [] h = (Inr [], h)"
| "await_each k (a # as) h =
     (case await_cleanup k a h of
        (Inl e, h') \<Rightarrow> (Inl e, h')
      | (Inr f, h') \<Rightarrow>
          (case await_each k as h' of (Inl e, h'') \<Rightarrow> (Inl e, h'') | (Inr fs, h'') \<Rightarrow> (Inr (f # fs), h'')))"

definition joined :: "string option list \<Rightarrow> string option" where
  "joined failures = (let text = join_details (concat (map (case_option [] (\<lambda>f. [f])) failures))
                      in if text = [] then None else Some text)"

definition finish_call ::
  "caller \<Rightarrow> sandbox_key \<Rightarrow> sandbox_spec \<Rightarrow> call_admission \<Rightarrow> sandbox_view option \<Rightarrow> string \<Rightarrow> string option \<Rightarrow>
   rat option \<Rightarrow> sandbox_view list \<Rightarrow> nat list \<Rightarrow> string option stay" where
  "finish_call k key spec ad sandbox owner unclean timeout sandboxes addrs h =
     (let held = by_instance (if sandboxes = [] then (case sandbox of None \<Rightarrow> [] | Some sb \<Rightarrow> [sb]) else sandboxes);
          (queued, h1) = (if ad_rung ad = RECLAIM_RUNG then (Inr [], h)
                          else condemn_each k key spec ad owner unclean timeout (zip addrs held) h)
      in case release_call k key (spec_kind spec) owner False h1 of
           (Inl e, h2) \<Rightarrow> (Inl e, h2)
         | (Inr _, h2) \<Rightarrow>
             (case queued of
                Inl e \<Rightarrow> (Inl e, h2)
              | Inr pending \<Rightarrow>
                  (case await_each k pending h2 of
                     (Inl e, h3) \<Rightarrow> (Inl e, h3)
                   | (Inr failures, h3) \<Rightarrow> (Inr (joined failures), h3))))"

end
