(* ===== verification/Acquire_Properties.thy ===== *)
theory Acquire_Properties
  imports Acquire Disposal_Properties Routing_Properties
begin

text \<open>
  The properties of acquiring: the ledger stays consistent, what is returned is remembered and its
  key is open, no unfamiliar instance is used uncleaned, and a call's admission follows its
  sandbox to the backend that made it.
\<close>

subsection \<open>Lawful servers\<close>

definition server_lawful :: "server \<Rightarrow> bool" where
  "server_lawful v \<longleftrightarrow> site_lawful (v_site v)
     \<and> (\<forall>b key spec n led. lawful led (snd (v_acquire v b key spec n led)))
     \<and> (\<forall>sb n led. lawful led (snd (v_reset v sb n led)))
     \<and> (\<forall>c sb spec n led. lawful led (snd (v_prepare v c sb spec n led)))
     \<and> (\<forall>b key spec owner n led. lawful led (snd (v_enter v b key spec owner n led)))
     \<and> (\<forall>b key kind owner n led. lawful led (snd (v_exit v b key kind owner n led)))
     \<and> (\<forall>key kind n led. lawful led (snd (v_gate v key kind n led)))"

named_theorems laws \<open>actions that keep the law\<close>

lemma keeps_lawI: "(\<And>led. ledger_ok led \<Longrightarrow> lawful led (snd (m led))) \<Longrightarrow> keeps_law m"
  by (simp add: keeps_law_def)

lemma keeps_law_lift [laws]: "keeps_law (lift r)"
  by (simp add: keeps_law_def lift_def)

lemma keeps_law_then [laws]:
  assumes "keeps_law m" and "\<And>x. keeps_law (f x)"
  shows "keeps_law (then_act m f)"
proof (rule keeps_lawI)
  fix led assume ok: "ledger_ok led"
  obtain r led' where m: "m led = (r, led')" by (cases "m led")
  then have one: "lawful led led'" using keeps_lawD [OF assms(1) ok] by simp
  have "lawful led (snd (f x led'))" for x
    using lawful_then [OF one keeps_lawD [OF assms(2)] ok] .
  then show "lawful led (snd (then_act m f led))"
    using one m by (cases r) (simp_all add: then_act_def)
qed

lemma keeps_law_on_error [laws]:
  assumes "keeps_law m" and "keeps_law h"
  shows "keeps_law (on_error m h)"
proof (rule keeps_lawI)
  fix led assume ok: "ledger_ok led"
  obtain r led' where m: "m led = (r, led')" by (cases "m led")
  then have one: "lawful led led'" using keeps_lawD [OF assms(1) ok] by simp
  have "lawful led (snd (h led'))" using lawful_then [OF one keeps_lawD [OF assms(2)] ok] .
  then show "lawful led (snd (on_error m h led))"
    using one m by (cases "h led'"; cases "fst (h led')"; cases r) (simp_all add: on_error_def)
qed

lemma keeps_law_if [laws]: "keeps_law a \<Longrightarrow> keeps_law b \<Longrightarrow> keeps_law (if c then a else b)"
  by simp

lemma keeps_law_await_unit:
  assumes "\<And>n led. lawful led (snd (f n led))"
  shows "keeps_law (await_unit f)"
proof (rule keeps_lawI)
  fix led
  obtain r led' where aw: "await f led = (r, led')" by (cases "await f led")
  then show "lawful led (snd (await_unit f led))"
    using lawful_await [OF assms aw] by (cases r) (simp_all add: await_unit_def)
qed

lemma keeps_law_remember [laws]: "keeps_law (\<lambda>led. (r, remember_instance key kind b i previous c led))"
  by (simp add: keeps_law_def lawful_remember)

lemma keeps_law_raise [laws]: "keeps_law (\<lambda>led. (r led, led))"
  by (simp add: keeps_law_def)

lemma keeps_law_end_adoption:
  assumes "site_lawful (v_site v)"
  shows "keeps_law (end_adoption v key spec b previous check sb)"
proof (rule keeps_lawI)
  fix led assume ok: "ledger_ok led"
  show "lawful led (snd (end_adoption v key spec b previous check sb led))"
    unfolding end_adoption_def
    by (rule keeps_lawD [OF _ ok]) (intro laws keeps_law_refuse assms)
qed

lemma keeps_law_by_disposal:
  assumes "server_lawful v"
  shows "keeps_law (adopt_by_disposal v key spec b inst sb)"
proof -
  have site: "site_lawful (v_site v)" using assms by (simp add: server_lawful_def)
  note ends = keeps_law_end_adoption [OF site]
  have "keeps_law (\<lambda>led. case await (v_acquire v b key spec) led of
       (Acquire_raises e, led') \<Rightarrow> (Inl e, led')
     | (Acquired sb', led') \<Rightarrow>
         then_act (on_error (lift (refuse_an_invalid_sandbox sb'))
             (dispose_the_kind (v_site v) key (spec_kind spec) b None (instance_of sb')))
           (\<lambda>_. end_adoption v key spec b None True sb') led')" (is "keeps_law ?create")
  proof (rule keeps_lawI)
    fix led assume ok: "ledger_ok led"
    obtain a led' where aw: "await (v_acquire v b key spec) led = (a, led')"
      by (cases "await (v_acquire v b key spec) led")
    have one: "lawful led led'"
      using lawful_await [OF _ aw] assms by (simp add: server_lawful_def)
    have "keeps_law (then_act (on_error (lift (refuse_an_invalid_sandbox sb'))
             (dispose_the_kind (v_site v) key (spec_kind spec) b None (instance_of sb')))
           (\<lambda>_. end_adoption v key spec b None True sb'))" for sb'
      by (intro laws ends keeps_law_kind site)
    from lawful_then [OF one keeps_lawD [OF this] ok] one aw
    show "lawful led (snd (?create led))" by (cases a) simp_all
  qed
  note create = this
  have "keeps_law (\<lambda>led. if failure \<noteq> None
          then (if refuses (v_site v) then (Inl (SandboxUnclean (map_option code (snd (unclean_state key led)))), led)
                else end_adoption v key spec b None True sb led)
          else ?create led)" for failure :: "string option"
    using create keeps_lawD [OF ends] by (cases "failure = None") (simp_all add: keeps_law_def)
  then show ?thesis
    unfolding adopt_by_disposal_def by (intro keeps_law_then keeps_law_kind site)
qed

lemma keeps_law_adopt:
  assumes "server_lawful v"
  shows "keeps_law (adopt v key spec b snapshot sb)"
proof (rule keeps_lawI)
  fix led assume ok: "ledger_ok led"
  have site: "site_lawful (v_site v)" using assms by (simp add: server_lawful_def)
  let ?r = "await (v_reset v sb) led"
  obtain a sb' led' where aw: "?r = ((a, sb'), led')" by (metis surj_pair)
  have one: "lawful led led'"
    using lawful_await [OF _ aw] assms by (simp add: server_lawful_def)
  then have ok': "ledger_ok led'" using ok lawful_ok by blast
  have "lawful led (snd (end_adoption v key spec b p c x led'))"
    "lawful led (snd (adopt_by_disposal v key spec b i x led'))"
    "lawful led (mark_unclean (registered (v_site v)) key None (Some b) k j led')" for p c x i k j
    using lawful_trans [OF one] ok' keeps_lawD [OF keeps_law_end_adoption [OF site]]
      keeps_lawD [OF keeps_law_by_disposal [OF assms]] lawful_site_mark [OF site] by blast+
  moreover obtain a' where "reset_instance v sb led = ((a', sb'), led')"
    using aw by (simp add: reset_instance_def)
  ultimately show "lawful led (snd (adopt v key spec b snapshot sb led))"
    using one ok lawful_remember keeps_lawD [OF keeps_law_by_disposal [OF assms]]
    by (cases a') (simp_all add: adopt_def Let_def)
qed


subsection \<open>The law for what carries an admission\<close>

definition serve_law :: "'a serve \<Rightarrow> bool" where
  "serve_law m \<longleftrightarrow> (\<forall>ad led. ledger_ok led \<longrightarrow> lawful led (snd (snd (m ad led))))"

lemma serve_lawD: "serve_law m \<Longrightarrow> ledger_ok led \<Longrightarrow> lawful led (snd (snd (m ad led)))"
  by (simp add: serve_law_def)

lemma serve_lawI: "(\<And>ad led. ledger_ok led \<Longrightarrow> lawful led (snd (snd (m ad led)))) \<Longrightarrow> serve_law m"
  by (simp add: serve_law_def)

lemma serve_law_act [laws]: "keeps_law m \<Longrightarrow> serve_law (serve_act m)"
  by (auto simp: serve_law_def keeps_law_def serve_act_def split: prod.split)

lemma serve_law_note [laws]: "serve_law (note_admission f)"
  by (simp add: serve_law_def note_admission_def)

lemma serve_law_then [laws]:
  assumes "serve_law m" and "\<And>x. serve_law (f x)"
  shows "serve_law (then_serve m f)"
proof (rule serve_lawI)
  fix ad led assume ok: "ledger_ok led"
  obtain r ad' led' where m: "m ad led = (r, ad', led')" by (metis surj_pair)
  then have one: "lawful led led'" using serve_lawD [OF assms(1) ok, of ad] by simp
  have "lawful led (snd (snd (f x ad' led')))" for x
    using lawful_then [OF one serve_lawD [OF assms(2)] ok] .
  then show "lawful led (snd (snd (then_serve m f ad led)))"
    using one m by (cases r) (simp_all add: then_serve_def)
qed

lemma keeps_law_pop [laws]:
  assumes "server_lawful v"
  shows "keeps_law (pop_hold v key kind owner)"
proof (rule keeps_lawI)
  fix led assume ok: "ledger_ok led"
  have "lawful led (snd (await_unit (v_exit v b key kind owner) (led\<lparr>l_holds := h\<rparr>)))" for b h
    by (rule lawful_then [OF lawful_other(2) keeps_lawD [OF keeps_law_await_unit] ok])
      (use assms in \<open>simp_all add: server_lawful_def\<close>)
  then show "lawful led (snd (pop_hold v key kind owner led))"
    by (simp add: pop_hold_def split: option.split)
qed

lemma keeps_law_push [laws]:
  assumes "server_lawful v"
  shows "keeps_law (push_hold v key spec owner b)"
proof -
  have "keeps_law (\<lambda>led. (Inr (), led\<lparr>l_holds := h led\<rparr>))" for h by (simp add: keeps_law_def)
  then show ?thesis
    unfolding push_hold_def
    by (intro laws keeps_law_await_unit) (use assms in \<open>simp_all add: server_lawful_def\<close>)
qed

lemma serve_law_switch:
  assumes "server_lawful v"
  shows "serve_law (switch_backend v key spec b)"
proof (rule serve_lawI)
  fix ad led assume ok: "ledger_ok led"
  show "lawful led (snd (snd (switch_backend v key spec b ad led)))"
  proof (cases ad)
    case (Some a)
    have "serve_law (then_serve (serve_act (pop_hold v key (spec_kind spec) (ad_owner a)))
          (\<lambda>_. then_serve (serve_act (push_hold v key spec (ad_owner a) b))
          (\<lambda>_. then_serve (note_admission (\<lambda>a. a\<lparr>ad_backend := b\<rparr>))
          (\<lambda>_. then_serve (serve_act (lift (cleanup_on (s_router (v_site v)) b spec)))
          (\<lambda>rung. then_serve (note_admission (\<lambda>a. a\<lparr>ad_rung := rung\<rparr>))
          (\<lambda>_. then_serve (serve_act (lift (channel_for (s_router (v_site v)) b spec)))
          (\<lambda>channel. note_admission (\<lambda>a. a\<lparr>ad_channel := channel\<rparr>))))))))"
      by (intro laws assms)
    from serve_lawD [OF this ok, of ad] Some show ?thesis by (simp add: switch_backend_def Let_def)
  qed (simp add: switch_backend_def)
qed

lemma serve_law_create:
  assumes "server_lawful v"
  shows "serve_law (create_on v key spec b channel)"
proof -
  have "keeps_law (\<lambda>led. case await (v_acquire v (b_id b) key asked) led of
          (Acquire_raises e, led') \<Rightarrow> (Inl e, led')
        | (Acquired sb, led') \<Rightarrow>
            (Inr \<lparr>cr_backend = b, cr_channel = channel, cr_spec = asked, cr_snapshot = snapshot, cr_sandbox = sb\<rparr>,
             led'))" (is "keeps_law ?m") for asked snapshot
  proof (rule keeps_lawI)
    fix led
    obtain a led' where aw: "await (v_acquire v (b_id b) key asked) led = (a, led')"
      by (cases "await (v_acquire v (b_id b) key asked) led")
    have "lawful led led'" using lawful_await [OF _ aw] assms by (simp add: server_lawful_def)
    then show "lawful led (snd (?m led))" using aw by (cases a) simp_all
  qed
  note create = this
  show ?thesis unfolding create_on_def by (intro laws create)
qed

lemma lawful_try:
  assumes "server_lawful v"
  shows "ledger_ok led \<Longrightarrow> lawful led (snd (snd (try_candidates v key spec b channel rest ad led)))"
proof (induction rest arbitrary: b channel ad led)
  case Nil
  then show ?case
    using serve_lawD [OF serve_law_create [OF assms] Nil, of key spec b channel ad]
    by (auto split: prod.split sum.split)
next
  case (Cons b' bs)
  obtain r ad' led' where cr: "create_on v key spec b channel ad led = (r, ad', led')" by (metis surj_pair)
  have one: "lawful led led'"
    using serve_lawD [OF serve_law_create [OF assms] Cons.prems, of key spec b channel ad] cr by simp
  have "serve_law (try_candidates v key spec b' c bs)" for c
    using Cons.IH by (simp add: serve_law_def)
  then have "serve_law (then_serve (switch_backend v key spec b')
                (\<lambda>_. then_serve (serve_act (lift (channel_for (s_router (v_site v)) b' spec)))
                (\<lambda>channel'. try_candidates v key spec b' channel' bs)))"
    by (intro laws serve_law_switch assms)
  from lawful_then [OF one serve_lawD [OF this] Cons.prems] one cr
  show ?case by (cases r) simp_all
qed

lemma keeps_law_admit:
  assumes "server_lawful v"
  shows "keeps_law (admit_sandbox v key spec c)"
proof (rule keeps_lawI)
  fix led assume ok: "ledger_ok led"
  have site: "site_lawful (v_site v)" using assms by (simp add: server_lawful_def)
  have check: "keeps_law (\<lambda>led'. then_act (lift (check_execution_contract key spec b i led')) f led')"
    if "\<And>x. keeps_law (f x)" for f :: "unit \<Rightarrow> sandbox_view act" and b i
    by (rule keeps_lawI) (rule keeps_lawD [OF keeps_law_then [OF keeps_law_lift that]])
  show "lawful led (snd (admit_sandbox v key spec c led))"
    unfolding admit_sandbox_def Let_def
    by (rule keeps_lawD [OF _ ok]) (intro laws check keeps_law_refuse keeps_law_kind keeps_law_adopt assms site)
qed


lemma lawful_pin:
  assumes ok: "ledger_ok led" and there: "map_of (l_served led) (key, kind, b_id b) = Some known" "inst \<in> known"
    and new: "\<And>p. p \<in> set pins \<Longrightarrow> p = \<lparr>pin_spec = spec, pin_backend = b, pin_channel = c, pin_instance = inst\<rparr>
      \<or> (\<exists>qs. l_pins led (key, kind) = Some qs \<and> p \<in> set qs)"
  shows "lawful led (led\<lparr>l_pins := (l_pins led)((key, kind) \<mapsto> pins)\<rparr>)"
proof (rule lawful_instances)
  let ?led = "led\<lparr>l_pins := (l_pins led)((key, kind) \<mapsto> pins)\<rparr>"
  have old: "pins_ok led" "distinct (map fst (l_served led))" "\<And>pl. tenant_ok led pl"
    using ok unfolding ledger_ok_def instances_ok_def by blast+
  have "\<exists>known. map_of (l_served led) (k, w, b_id (pin_backend p)) = Some known \<and> pin_instance p \<in> known"
    if "l_pins ?led (k, w) = Some ps" "p \<in> set ps" for k w ps p
  proof (cases "(k, w) = (key, kind)")
    case True
    with that have "p \<in> set pins" by simp
    from new [OF this] show ?thesis
    proof
      assume "p = \<lparr>pin_spec = spec, pin_backend = b, pin_channel = c, pin_instance = inst\<rparr>"
      then show ?thesis using there True by simp
    next
      assume "\<exists>qs. l_pins led (key, kind) = Some qs \<and> p \<in> set qs"
      then show ?thesis using old(1) True unfolding pins_ok_def by blast
    qed
  next
    case False
    with that have "l_pins led (k, w) = Some ps" by auto
    then show ?thesis using old(1) that(2) unfolding pins_ok_def by blast
  qed
  then have "pins_ok ?led" unfolding pins_ok_def by simp
  then show "instances_ok ?led" using old(2,3) by (simp add: instances_ok_def)
qed simp_all

lemma keeps_law_pin [laws]: "keeps_law (pin_program key spec b c inst)"
proof (rule keeps_lawI)
  fix led assume ok: "ledger_ok led"
  show "lawful led (snd (pin_program key spec b c inst led))"
    by (auto simp: pin_program_def Let_def split: option.split intro!: lawful_pin [OF ok])
qed

lemma serve_law_finish:
  assumes "server_lawful v"
  shows "serve_law (finish_program v key spec b sb)"
proof -
  have prep: "keeps_law (prepare_program v key spec b c sb)" for c
  proof (rule keeps_lawI)
    fix led assume ok: "ledger_ok led"
    obtain e sb' led' where aw: "await (v_prepare v c sb spec) led = ((e, sb'), led')" by (metis surj_pair)
    have one: "lawful led led'" using lawful_await [OF _ aw] assms by (simp add: server_lawful_def)
    have site: "site_lawful (v_site v)" using assms by (simp add: server_lawful_def)
    have step: "lawful led (snd (m led'))" if "keeps_law m" for m :: "sandbox_view act"
      using lawful_then [OF one keeps_lawD [OF that] ok] .
    have "keeps_law (on_error (lift (Inl e) :: sandbox_view act) (dispose_the_kind (v_site v) key k x u i))"
      "keeps_law (then_act (pin_program key spec b c j) (\<lambda>_. lift (Inr y)))"
      for e :: exc and k x u i j and y :: sandbox_view
      by (intro laws keeps_law_kind site)+
    then show "lawful led (snd (prepare_program v key spec b c sb led))"
      using aw by (cases e) (simp_all add: prepare_program_def step)
  qed
  have choice: "keeps_law (case ch of None \<Rightarrow> lift (Inr sb) | Some c \<Rightarrow> prepare_program v key spec b c sb)" for ch
    using prep keeps_law_lift by (cases ch) simp_all
  show ?thesis
  proof (cases "program spec")
    case None
    then show ?thesis unfolding finish_program_def by (simp add: laws)
  next
    case (Some p)
    have "serve_law (then_serve (serve_act (\<lambda>led. (program_channel_for v key spec b (id_of sb) led, led)))
        (\<lambda>channel. then_serve (note_admission (\<lambda>a. a\<lparr>ad_channel := channel\<rparr>))
        (\<lambda>_. serve_act (case channel of None \<Rightarrow> lift (Inr sb) | Some c \<Rightarrow> prepare_program v key spec b c sb))))"
      by (intro laws choice)
    then show ?thesis using Some unfolding finish_program_def by simp
  qed
qed

lemma serve_law_acquire:
  assumes "server_lawful v"
  shows "serve_law (acquire v key spec)"
proof -
  have tries: "serve_law (try_candidates v key spec b channel rest)" for b channel rest
    using lawful_try [OF assms] by (simp add: serve_law_def)
  have "serve_law (acquire_and_adopt v key spec)"
  proof (rule serve_lawI)
    fix ad led assume ok: "ledger_ok led"
    show "lawful led (snd (snd (acquire_and_adopt v key spec ad led)))"
      unfolding acquire_and_adopt_def
      by (rule serve_lawD [OF _ ok]) (intro laws tries keeps_law_admit serve_law_finish assms)
  qed
  then show ?thesis
    unfolding acquire_def
    by (intro laws keeps_law_await_unit) (use assms in \<open>simp_all add: server_lawful_def\<close>)
qed


subsection \<open>What a return says\<close>

lemma refuse_never_returns: "refuse_closed_key s key b kind inst led \<noteq> (Inr u, led')"
  by (auto simp: refuse_closed_key_def Let_def split: prod.split sum.split)

lemma then_act_Inr: "then_act m f led = (Inr y, led'') \<longleftrightarrow> (\<exists>x led'. m led = (Inr x, led') \<and> f x led' = (Inr y, led''))"
  by (auto simp: then_act_def split: prod.splits sum.splits)

lemma lift_Inr: "lift r led = (Inr x, led') \<longleftrightarrow> r = Inr x \<and> led' = led"
  by (auto simp: lift_def)

lemma on_error_Inr: "on_error m h led = (Inr x, led') \<longleftrightarrow> m led = (Inr x, led')"
  by (auto simp: on_error_def split: prod.splits sum.splits)

lemma await_unit_Inr: "await_unit f led = (Inr x, led') \<longleftrightarrow> await f led = (None, led')"
  by (auto simp: await_unit_def split: prod.splits option.splits)

lemmas returning = then_act_Inr lift_Inr on_error_Inr await_unit_Inr refuse_never_returns

text \<open>A sandbox the router answers for: its key is open, and it is known with its contract.\<close>

definition answered_for :: "sandbox_key \<Rightarrow> string \<Rightarrow> nat \<Rightarrow> string option \<Rightarrow> sandbox_view \<Rightarrow> ledger \<Rightarrow> bool" where
  "answered_for key kind b contract sb led \<longleftrightarrow>
     \<not> refused key led
     \<and> (case map_of (l_served led) (key, kind, b) of None \<Rightarrow> False | Some known \<Rightarrow> id_of sb \<in> known)
     \<and> (case l_contracts led (key, kind, b) of None \<Rightarrow> False | Some c \<Rightarrow> map_of c (id_of sb) = Some contract)"

lemma refused_remember [simp]: "refused k (remember_instance key kind b i p c led) = refused k led"
  by (simp add: refused_def unclean_state_def remember_instance_def Let_def)

lemma answered_for_remember:
  "\<not> refused key led \<Longrightarrow> answered_for key kind b c sb (remember_instance key kind b (id_of sb) p c led)"
  by (simp add: answered_for_def) (simp add: remember_instance_def Let_def insert_at_look update_conv')

lemma end_adoption_returns:
  assumes "end_adoption v key spec b previous check sb led = (Inr x, led')"
  shows "x = sb \<and> (check \<longrightarrow> refuse_an_invalid_sandbox sb = Inr ())
    \<and> answered_for key (spec_kind spec) b (execution_contract spec) sb led'"
proof -
  from assms have "\<not> refused key led" by (auto simp: end_adoption_def returning split: if_splits)
  with assms show ?thesis
    by (auto simp: end_adoption_def returning answered_for_remember split: if_splits)
qed

text \<open>
  Where a sandbox that \<open>_adopt\<close> returns comes from.  Its delete landing is \<open>Gone\<close>; under the
  policy \<open>KEEP\<close> a delete that failed lets the instance pass.
\<close>

definition replaced_meanwhile :: "server \<Rightarrow> sandbox_key \<Rightarrow> sandbox_spec \<Rightarrow> nat \<Rightarrow> sandbox_view \<Rightarrow> bool" where
  "replaced_meanwhile v key spec b sb' \<longleftrightarrow>
     (refuses (v_site v) \<longrightarrow>
        (\<exists>inst n led. fst (s_dispose (v_site v) b key (Some (spec_kind spec)) (Some inst) n led) = Gone)
        \<and> (\<exists>n led. fst (v_acquire v b key spec n led) = Acquired sb'))"

definition came_clean ::
  "server \<Rightarrow> sandbox_key \<Rightarrow> sandbox_spec \<Rightarrow> nat \<Rightarrow> bool \<Rightarrow> string set \<Rightarrow> sandbox_view \<Rightarrow> sandbox_view \<Rightarrow> bool" where
  "came_clean v key spec b snapshot known sb sb' \<longleftrightarrow>
     (sb' = sb \<and> (id_of sb \<in> known \<or> sb_fresh sb))
     \<or> (snapshot \<and> sb_instance sb' \<noteq> sb_instance sb
        \<and> (\<exists>n led. fst (v_reset v sb n led) = (Reset_returned, sb')))
     \<or> replaced_meanwhile v key spec b sb'"

lemma kind_landed:
  assumes "dispose_the_kind s key kind b unclean inst led = (Inr None, led')"
  shows "\<exists>n l. fst (s_dispose s b key (Some kind) inst n l) = Gone"
proof -
  define led1 where "led1 = (if unclean = None then led
    else (if refuses s then mark_unclean (registered s) key None (Some b) (Some kind) inst else (\<lambda>l. l)) led)"
  obtain a led2 where aw: "await (s_dispose s b key (Some kind) inst) led1 = (a, led2)"
    by (cases "await (s_dispose s b key (Some kind) inst) led1")
  have "a = Gone"
    using assms aw unfolding dispose_the_kind_def Let_def led1_def [symmetric]
    by (cases a) (auto simp: failure_of_instance_def)
  then show ?thesis using aw unfolding await_def by (metis fst_conv)
qed

lemma by_disposal_returns:
  assumes "adopt_by_disposal v key spec b inst sb led = (Inr x, led')"
  shows "refuse_an_invalid_sandbox x = Inr ()
    \<and> answered_for key (spec_kind spec) b (execution_contract spec) x led'
    \<and> replaced_meanwhile v key spec b x"
proof -
  let ?i = "case instance_of sb of None \<Rightarrow> inst | Some i \<Rightarrow> i"
  from assms obtain failure led1 where
    del: "dispose_the_kind (v_site v) key (spec_kind spec) b None (Some ?i) led = (Inr failure, led1)"
    and rest: "(if failure \<noteq> None
          then (if refuses (v_site v) then (Inl (SandboxUnclean (map_option code (snd (unclean_state key led1)))), led1)
                else end_adoption v key spec b None True sb led1)
          else (case await (v_acquire v b key spec) led1 of
              (Acquire_raises e, led') \<Rightarrow> (Inl e, led')
            | (Acquired sb', led') \<Rightarrow>
                then_act (on_error (lift (refuse_an_invalid_sandbox sb'))
                    (dispose_the_kind (v_site v) key (spec_kind spec) b None (instance_of sb')))
                  (\<lambda>_. end_adoption v key spec b None True sb') led')) = (Inr x, led')"
    unfolding adopt_by_disposal_def then_act_Inr by blast
  show ?thesis
  proof (cases failure)
    case (Some f)
    then have "\<not> refuses (v_site v)" "end_adoption v key spec b None True sb led1 = (Inr x, led')"
      using rest by (auto split: if_splits)
    then show ?thesis using end_adoption_returns by (simp add: replaced_meanwhile_def) blast
  next
    case None
    obtain a led2 where aw: "await (v_acquire v b key spec) led1 = (a, led2)"
      by (cases "await (v_acquire v b key spec) led1")
    then obtain sb' where a: "a = Acquired sb'" using rest None by (cases a) auto
    have "fst (v_acquire v b key spec (l_awaits led1) (led1\<lparr>l_awaits := Suc (l_awaits led1)\<rparr>)) = Acquired sb'"
      using aw a by (simp add: await_def)
    moreover have "\<exists>n l. fst (s_dispose (v_site v) b key (Some (spec_kind spec)) (Some ?i) n l) = Gone"
      using kind_landed del None by blast
    moreover obtain led3 where "end_adoption v key spec b None True sb' led3 = (Inr x, led')"
      using rest None aw a by (auto simp: returning)
    ultimately show ?thesis using end_adoption_returns unfolding replaced_meanwhile_def by blast
  qed
qed

text \<open>An instance that has been seen is known with the contract the check compared.\<close>

lemma answered_for_seen:
  assumes ok: "ledger_ok led" and open_key: "\<not> refused key led"
    and known: "l_seen led (key, spec_kind spec, b) = Some known" "id_of sb \<in> known"
    and contract: "check_execution_contract key spec b (id_of sb) led = Inr ()"
  shows "answered_for key (spec_kind spec) b (execution_contract spec) sb led"
proof -
  have t: "tenant_ok led (key, spec_kind spec, b)" using ok unfolding ledger_ok_def instances_ok_def by blast
  then have served: "map_of (l_served led) (key, spec_kind spec, b) = Some known"
    using known(1) by (auto simp: tenant_ok_def split: option.splits)
  then obtain c where c: "l_contracts led (key, spec_kind spec, b) = Some c" "fst ` set c = known"
    using t known(1) by (auto simp: tenant_ok_def)
  then obtain x where "map_of c (id_of sb) = Some x" using known(2) by (metis domD dom_map_of_conv_image_fst)
  then show ?thesis
    using contract open_key served known(2) c(1)
    by (simp add: answered_for_def check_execution_contract_def)
qed


lemma adopt_returns:
  assumes ok: "ledger_ok led" "\<not> refused key led"
    and sb: "refuse_an_invalid_sandbox sb = Inr ()"
    and contract: "check_execution_contract key spec b (id_of sb) led = Inr ()"
    and ret: "adopt v key spec b snapshot sb led = (Inr x, led')"
  shows "refuse_an_invalid_sandbox x = Inr ()
    \<and> answered_for key (spec_kind spec) b (execution_contract spec) x led'
    \<and> came_clean v key spec b snapshot (case l_seen led (key, spec_kind spec, b) of None \<Rightarrow> {} | Some k \<Rightarrow> k) sb x"
    (is "?good x led' \<and> _ \<and> came_clean v key spec b snapshot ?known sb x")
proof -
  consider (seen) "id_of sb \<in> ?known" | (fresh) "id_of sb \<notin> ?known" "sb_fresh sb"
    | (disposed) "\<not> snapshot" "id_of sb \<notin> ?known" "\<not> sb_fresh sb"
    | (reset) "snapshot" "id_of sb \<notin> ?known" "\<not> sb_fresh sb" by blast
  then show ?thesis
  proof cases
    case seen
    then obtain known where "l_seen led (key, spec_kind spec, b) = Some known" "id_of sb \<in> known"
      by (auto split: option.splits)
    from answered_for_seen [OF ok this contract] ret seen sb show ?thesis
      by (simp add: adopt_def Let_def came_clean_def)
  next
    case fresh
    then show ?thesis using ret ok(2) sb by (auto simp: adopt_def Let_def came_clean_def answered_for_remember)
  next
    case disposed
    then have "adopt_by_disposal v key spec b (id_of sb) sb led = (Inr x, led')"
      using ret by (simp add: adopt_def Let_def)
    from by_disposal_returns [OF this] show ?thesis by (simp add: came_clean_def)
  next
    case reset
    obtain a sb' led1 where r: "reset_instance v sb led = ((a, sb'), led1)" by (metis surj_pair)
    show ?thesis
    proof (cases a)
      case Reset_returned
      obtain a' where aw: "await (v_reset v sb) led = ((a', sb'), led1)"
        using r by (auto simp: reset_instance_def split: prod.splits)
      have "a' = Reset_returned" "refuse_an_invalid_sandbox sb' = Inr ()" "sb_instance sb' \<noteq> sb_instance sb"
        using r Reset_returned by (auto simp: reset_instance_def aw split: if_splits)
      moreover from this(1) aw have "\<exists>n l. fst (v_reset v sb n l) = (Reset_returned, sb')"
        unfolding await_def by (metis fst_conv)
      moreover have "end_adoption v key spec b (Some (id_of sb)) False sb' led1 = (Inr x, led')"
        using ret r Reset_returned reset by (simp add: adopt_def Let_def)
      ultimately show ?thesis using end_adoption_returns reset(1) unfolding came_clean_def by blast
    next
      case Reset_failed
      then have "adopt_by_disposal v key spec b (id_of sb) sb' led1 = (Inr x, led')"
        using ret r reset by (simp add: adopt_def Let_def)
      from by_disposal_returns [OF this] show ?thesis by (simp add: came_clean_def)
    next
      case (Reset_interrupted e)
      then show ?thesis using ret r reset by (simp add: adopt_def Let_def)
    qed
  qed
qed

text \<open>The spec a backend is asked with keeps the kind and the contract.\<close>

lemma spec_post_init_keeps:
  assumes "spec_post_init (spec_as_args s) = Inr s'"
  shows "spec_kind s' = spec_kind s \<and> execution_contract s' = execution_contract s"
proof -
  have "arg_execution_contract (spec_as_args s) = map_option Str (execution_contract s)"
    "spec_fields.truncate (spec_as_args s) = spec_fields.truncate s"
    by (simp_all add: spec_as_args_def spec_fields.defs)
  with assms have "contract_post_init (map_option Str (execution_contract s)) = Inr (execution_contract s')"
    and "spec_fields.truncate s' = spec_fields.truncate s"
    by (auto elim!: spec_post_init_inv)
  then show ?thesis
    by (auto simp: spec_fields.defs contract_post_init_def split: option.splits if_splits)
qed

lemma backend_spec_keeps:
  "backend_spec spec channel = Inr s' \<Longrightarrow> spec_kind s' = spec_kind spec \<and> execution_contract s' = execution_contract spec"
  using spec_post_init_keeps by (fastforce simp: backend_spec_def split: option.splits)


lemma admit_returns:
  assumes ok: "ledger_ok led" and asked: "spec_kind (cr_spec c) = spec_kind spec" "execution_contract (cr_spec c) = execution_contract spec"
    and ret: "admit_sandbox v key spec c led = (Inr x, led')"
  shows "refuse_an_invalid_sandbox x = Inr ()
    \<and> answered_for key (spec_kind spec) (b_id (cr_backend c)) (execution_contract spec) x led'
    \<and> (effective_isolation_scope (s_router (v_site v)) spec \<noteq> CALL \<longrightarrow>
        came_clean v key (cr_spec c) (b_id (cr_backend c)) (cr_snapshot c)
          (case l_seen led (key, spec_kind spec, b_id (cr_backend c)) of None \<Rightarrow> {} | Some k \<Rightarrow> k) (cr_sandbox c) x)"
proof -
  have open_key: "\<not> refused key led" and sb: "refuse_an_invalid_sandbox (cr_sandbox c) = Inr ()"
    and contract: "check_execution_contract key spec (b_id (cr_backend c)) (id_of (cr_sandbox c)) led = Inr ()"
    using ret by (auto simp: admit_sandbox_def Let_def returning split: if_splits)
  have last: "(if effective_isolation_scope (s_router (v_site v)) spec \<noteq> CALL
      then adopt v key (cr_spec c) (b_id (cr_backend c)) (cr_snapshot c) (cr_sandbox c) led
      else (Inr (cr_sandbox c), remember_instance key (spec_kind spec) (b_id (cr_backend c)) (id_of (cr_sandbox c)) None
        (execution_contract spec) led)) = (Inr x, led')"
    using ret open_key by (auto simp: admit_sandbox_def Let_def returning split: if_splits)
  have "check_execution_contract key (cr_spec c) (b_id (cr_backend c)) (id_of (cr_sandbox c)) led = Inr ()"
    using contract by (simp only: check_execution_contract_def asked)
  note adopted = adopt_returns [OF ok open_key sb this]
  show ?thesis
  proof (cases "effective_isolation_scope (s_router (v_site v)) spec = CALL")
    case True
    then show ?thesis using last sb open_key by (auto simp: answered_for_remember)
  next
    case False
    then have "adopt v key (cr_spec c) (b_id (cr_backend c)) (cr_snapshot c) (cr_sandbox c) led = (Inr x, led')"
      using last by simp
    from adopted [OF this] show ?thesis using asked by simp
  qed
qed

subsection \<open>Programs and admissions\<close>

lemma then_serve_Inr: "then_serve m f ad led = (Inr y, ad'', led'')
    \<longleftrightarrow> (\<exists>x ad' led'. m ad led = (Inr x, ad', led') \<and> f x ad' led' = (Inr y, ad'', led''))"
  by (auto simp: then_serve_def split: prod.splits sum.splits)

lemma serve_act_Inr: "serve_act m ad led = (Inr x, ad', led') \<longleftrightarrow> m led = (Inr x, led') \<and> ad' = ad"
  by (auto simp: serve_act_def split: prod.splits)

lemma note_admission_Inr: "note_admission f ad led = (Inr x, ad', led') \<longleftrightarrow> ad' = map_option f ad \<and> led' = led"
  by (auto simp: note_admission_def)

lemmas serving = then_serve_Inr serve_act_Inr note_admission_Inr lift_Inr

definition pinned_at :: "sandbox_key \<Rightarrow> sandbox_spec \<Rightarrow> nat \<Rightarrow> sandbox_view \<Rightarrow> ledger \<Rightarrow> bool" where
  "pinned_at key spec b sb led \<longleftrightarrow>
     (case l_pins led (key, spec_kind spec) of None \<Rightarrow> False
      | Some pins \<Rightarrow> \<exists>p \<in> set pins. pin_spec p = spec \<and> b_id (pin_backend p) = b \<and> pin_instance p = id_of sb)"

definition known_open :: "sandbox_key \<Rightarrow> string \<Rightarrow> nat \<Rightarrow> sandbox_view \<Rightarrow> ledger \<Rightarrow> bool" where
  "known_open key kind b sb led \<longleftrightarrow> \<not> refused key led
     \<and> (case map_of (l_served led) (key, kind, b) of None \<Rightarrow> False | Some known \<Rightarrow> id_of sb \<in> known)"

lemma pin_returns:
  assumes "pin_program key spec b c (id_of sb) led = (Inr u, led')"
  shows "known_open key (spec_kind spec) (b_id b) sb led' \<and> pinned_at key spec (b_id b) sb led'"
  using assms
  by (auto simp: pin_program_def Let_def known_open_def pinned_at_def refused_def unclean_state_def split: if_splits option.splits)

lemma prepare_returns:
  assumes "prepare_program v key spec b c sb led = (Inr x, led')"
  shows "known_open key (spec_kind spec) (b_id b) x led' \<and> pinned_at key spec (b_id b) x led'"
proof -
  obtain e sb' led1 where aw: "await (v_prepare v c sb spec) led = ((e, sb'), led1)" by (metis surj_pair)
  show ?thesis
  proof (cases e)
    case None
    with assms aw have "then_act (pin_program key spec b c (id_of sb')) (\<lambda>_. lift (Inr sb')) led1 = (Inr x, led')"
      by (simp add: prepare_program_def)
    then obtain u where "pin_program key spec b c (id_of sb') led1 = (Inr u, led')" "x = sb'"
      unfolding then_act_Inr lift_Inr by blast
    then show ?thesis using pin_returns by blast
  next
    case (Some ex)
    with assms aw show ?thesis by (simp add: prepare_program_def on_error_Inr lift_Inr)
  qed
qed

lemma channel_of_program: "program_channel_for v key spec b i led = Inr channel \<Longrightarrow> program spec \<noteq> None \<Longrightarrow> channel \<noteq> None"
  by (auto simp: program_channel_for_def Let_def channel_for_def res_simps split: option.splits)

lemma finish_returns:
  assumes "finish_program v key spec b sb ad led = (Inr x, ad', led')"
    and "answered_for key (spec_kind spec) (b_id b) (execution_contract spec) sb led"
  shows "known_open key (spec_kind spec) (b_id b) x led'
    \<and> (if program spec = None then x = sb \<and> led' = led else pinned_at key spec (b_id b) x led')
    \<and> (\<exists>channel. ad' = ad \<or> ad' = map_option (\<lambda>a. a\<lparr>ad_channel := channel\<rparr>) ad)"
proof (cases "program spec")
  case None
  then show ?thesis using assms by (auto simp: finish_program_def serving known_open_def answered_for_def)
next
  case (Some prog)
  with assms(1) obtain channel where ch: "program_channel_for v key spec b (id_of sb) led = Inr channel"
    and ad: "ad' = map_option (\<lambda>a. a\<lparr>ad_channel := channel\<rparr>) ad"
    and rest: "(case channel of None \<Rightarrow> lift (Inr sb) | Some c \<Rightarrow> prepare_program v key spec b c sb) led = (Inr x, led')"
    unfolding finish_program_def serving by (auto simp: serving)
  from channel_of_program [OF ch] Some obtain c where "channel = Some c" by auto
  with rest have "prepare_program v key spec b c sb led = (Inr x, led')" by simp
  from prepare_returns [OF this] ad Some show ?thesis by (intro conjI exI [of _ channel]) simp_all
qed

text \<open>The admission names the backend, and the rung resolved for that backend.\<close>

definition follows :: "router \<Rightarrow> sandbox_spec \<Rightarrow> backend \<Rightarrow> call_admission option \<Rightarrow> bool" where
  "follows r spec b ad \<longleftrightarrow>
     (case ad of None \<Rightarrow> True | Some a \<Rightarrow> ad_backend a = b \<and> cleanup_on r b spec = Inr (ad_rung a))"

lemma follows_update [simp]:
  "follows r spec b (map_option (\<lambda>a. a\<lparr>ad_served := t\<rparr>) ad) = follows r spec b ad"
  "follows r spec b (map_option (\<lambda>a. a\<lparr>ad_channel := ch\<rparr>) ad) = follows r spec b ad"
  "follows r spec b (unserve before ad) = follows r spec b ad"
  by (auto simp: follows_def unserve_def split: option.split)

lemma create_keeps_admission:
  "create_on v key spec b channel ad led = (r, ad', led') \<Longrightarrow> ad' = ad \<or> ad' = map_option (\<lambda>a. a\<lparr>ad_served := True\<rparr>) ad"
  by (auto simp: create_on_def then_serve_def serve_act_def note_admission_def lift_def split: prod.splits sum.splits)

lemma create_returns:
  assumes "create_on v key spec b channel ad led = (Inr c, ad', led')"
  shows "cr_backend c = b \<and> spec_kind (cr_spec c) = spec_kind spec \<and> execution_contract (cr_spec c) = execution_contract spec
    \<and> has_snapshot b = Inr (cr_snapshot c)"
proof -
  from assms obtain snapshot asked led1 where step: "has_snapshot b = Inr snapshot" "backend_spec spec channel = Inr asked"
    "(case await (v_acquire v (b_id b) key asked) led1 of (Acquire_raises e, l) \<Rightarrow> (Inl e, l)
      | (Acquired sb, l) \<Rightarrow> (Inr \<lparr>cr_backend = b, cr_channel = channel, cr_spec = asked, cr_snapshot = snapshot,
          cr_sandbox = sb\<rparr>, l)) = (Inr c, led')"
    unfolding create_on_def serving by blast
  obtain a l where "await (v_acquire v (b_id b) key asked) led1 = (a, l)" by (metis surj_pair)
  then have "cr_backend c = b \<and> cr_spec c = asked \<and> cr_snapshot c = snapshot"
    using step(3) by (cases a) auto
  then show ?thesis using step backend_spec_keeps by blast
qed

lemma unserve_None [simp]: "unserve before ad = None \<longleftrightarrow> ad = None"
  by (simp add: unserve_def split: option.split)

lemma create_None: "create_on v key spec b channel ad led = (r, ad', led') \<Longrightarrow> ad' = None \<longleftrightarrow> ad = None"
  using create_keeps_admission by fastforce

lemma switch_returns:
  "switch_backend v key spec b ad led = (Inr u, ad', led') \<Longrightarrow>
     follows (s_router (v_site v)) spec b ad' \<and> (ad' = None \<longleftrightarrow> ad = None)"
  by (cases ad) (auto simp: switch_backend_def Let_def serving follows_def)

lemma create_done:
  assumes cr: "create_on v key spec b channel ad led = (Inr c, ad', led')" and "follows r spec b ad"
  shows "follows r spec (cr_backend c) ad' \<and> (ad' = None \<longleftrightarrow> ad = None) \<and> cr_backend c = b
    \<and> spec_kind (cr_spec c) = spec_kind spec \<and> execution_contract (cr_spec c) = execution_contract spec
    \<and> has_snapshot (cr_backend c) = Inr (cr_snapshot c)"
proof -
  have "follows r spec b ad'" using create_keeps_admission [OF cr] assms(2) by (elim disjE) simp_all
  then show ?thesis using create_returns [OF cr] create_None [OF cr] by simp
qed

lemma choose_admitted: "choose_backend v key spec (Some a) led = Inr b \<Longrightarrow> b = ad_backend a"
  by (simp add: choose_backend_def Let_def split_beta bindE_eq_Inr)

lemma try_returns:
  assumes "try_candidates v key spec b channel rest ad led = (Inr c, ad', led')" and "follows (s_router (v_site v)) spec b ad"
  shows "follows (s_router (v_site v)) spec (cr_backend c) ad' \<and> (ad' = None \<longleftrightarrow> ad = None) \<and> cr_backend c \<in> set (b # rest)
    \<and> spec_kind (cr_spec c) = spec_kind spec \<and> execution_contract (cr_spec c) = execution_contract spec
    \<and> has_snapshot (cr_backend c) = Inr (cr_snapshot c)"
  using assms
proof (induction rest arbitrary: b channel ad led)
  case Nil
  obtain r ad1 led1 where cr: "create_on v key spec b channel ad led = (r, ad1, led1)" by (metis surj_pair)
  with Nil have "r = Inr c" "ad1 = ad'" "led1 = led'" by (auto split: sum.splits if_splits)
  with cr show ?case using create_done Nil(2) by fastforce
next
  case (Cons b' bs)
  obtain r ad1 led1 where cr: "create_on v key spec b channel ad led = (r, ad1, led1)" by (metis surj_pair)
  show ?case
  proof (cases r)
    case (Inr c')
    with cr Cons.prems have "c' = c" "ad1 = ad'" "led1 = led'" by auto
    with Inr cr show ?thesis using create_done Cons.prems(2) by fastforce
  next
    case (Inl e)
    with cr Cons.prems(1) have "then_serve (switch_backend v key spec b')
                (\<lambda>_. then_serve (serve_act (lift (channel_for (s_router (v_site v)) b' spec)))
                (\<lambda>channel'. try_candidates v key spec b' channel' bs)) (unserve ad ad1) led1 = (Inr c, ad', led')"
      by (auto split: if_splits)
    then obtain u ad2 led2 channel' where sw: "switch_backend v key spec b' (unserve ad ad1) led1 = (Inr u, ad2, led2)"
      and rest: "try_candidates v key spec b' channel' bs ad2 led2 = (Inr c, ad', led')"
      unfolding serving by blast
    from Cons.IH [OF rest conjunct1 [OF switch_returns [OF sw]]] switch_returns [OF sw] create_None [OF cr]
    show ?thesis by simp
  qed
qed


lemma acquire_returns:
  assumes law: "server_lawful v" and ok: "ledger_ok led"
    and follow: "\<And>a. ad = Some a \<Longrightarrow> cleanup_on (s_router (v_site v)) (ad_backend a) spec = Inr (ad_rung a)"
    and ret: "acquire v key spec ad led = (Inr x, ad', led')"
  shows "\<exists>b. known_open key (spec_kind spec) (b_id b) x led'
    \<and> (if program spec = None then answered_for key (spec_kind spec) (b_id b) (execution_contract spec) x led'
       else pinned_at key spec (b_id b) x led')
    \<and> follows (s_router (v_site v)) spec b ad' \<and> (case ad' of None \<Rightarrow> ad = None | Some a \<Rightarrow> ad_served a)"
proof -
  let ?r = "s_router (v_site v)"
  from ret obtain led0 where gate: "await (v_gate v key (spec_kind spec)) led = (None, led0)"
    and whole: "acquire_and_adopt v key spec ad led0 = (Inr x, ad', led')"
    by (auto simp: acquire_def serving await_unit_Inr)
  from whole obtain served channel rest c ad1 led1 sb led2 where
    chosen: "choose_backend v key spec ad led0 = Inr served"
    and created: "try_candidates v key spec served channel rest ad led0 = (Inr c, ad1, led1)"
    and admitted: "admit_sandbox v key spec c led1 = (Inr sb, led2)"
    and finished: "finish_program v key spec (cr_backend c) sb (map_option (\<lambda>a. a\<lparr>ad_served := True\<rparr>) ad1) led2 = (Inr x, ad', led')"
    unfolding acquire_and_adopt_def serving by blast
  have "lawful led led0" using lawful_await [OF _ gate] law by (simp add: server_lawful_def)
  then have ok0: "ledger_ok led0" using ok lawful_ok by blast
  have "lawful led0 led1" using lawful_try [OF law ok0, of key spec served channel rest ad] created by simp
  then have ok1: "ledger_ok led1" using ok0 lawful_ok by blast
  have "follows ?r spec served ad"
  proof (cases ad)
    case (Some a)
    then have "served = ad_backend a" using choose_admitted chosen by simp
    then show ?thesis using follow [OF Some] Some by (simp add: follows_def)
  qed (simp add: follows_def)
  from try_returns [OF created this]
  have c: "follows ?r spec (cr_backend c) ad1" "ad1 = None \<longleftrightarrow> ad = None" "spec_kind (cr_spec c) = spec_kind spec"
    "execution_contract (cr_spec c) = execution_contract spec" by blast+
  from admit_returns [OF ok1 c(3,4) admitted]
  have sb: "answered_for key (spec_kind spec) (b_id (cr_backend c)) (execution_contract spec) sb led2" by blast
  from finish_returns [OF finished this] obtain ch where
    open_key: "known_open key (spec_kind spec) (b_id (cr_backend c)) x led'"
    and prog: "if program spec = None then x = sb \<and> led' = led2 else pinned_at key spec (b_id (cr_backend c)) x led'"
    and ad': "ad' = map_option (\<lambda>a. a\<lparr>ad_served := True\<rparr>) ad1
      \<or> ad' = map_option (\<lambda>a. a\<lparr>ad_channel := ch\<rparr>) (map_option (\<lambda>a. a\<lparr>ad_served := True\<rparr>) ad1)" by blast
  have "follows ?r spec (cr_backend c) ad'" using ad' c(1) by (metis follows_update(1,2))
  moreover have "case ad' of None \<Rightarrow> ad = None | Some a \<Rightarrow> ad_served a" using ad' c(2) by (cases ad1) auto
  ultimately show ?thesis using open_key prog sb by (metis (full_types))
qed

subsection \<open>The properties\<close>


text \<open>
  A call's admission follows its sandbox.  When an admitted call's acquire returns, its
  admission names the backend that made the sandbox, also after an unavailable backend was passed
  over, keeps the cleanup rung resolved for that backend, and counts as served: the call's cleanup
  goes where the sandbox is.
\<close>

theorem admission_follows_the_sandbox:
  assumes "server_lawful v" and "ledger_ok led"
    and "cleanup_on (s_router (v_site v)) (ad_backend a) spec = Inr (ad_rung a)"
    and "acquire v key spec (Some a) led = (Inr sb, ad', led')"
  shows "\<exists>a'. ad' = Some a' \<and> known_open key (spec_kind spec) (b_id (ad_backend a')) sb led'
    \<and> cleanup_on (s_router (v_site v)) (ad_backend a') spec = Inr (ad_rung a') \<and> ad_served a'"
proof -
  have "cleanup_on (s_router (v_site v)) (ad_backend x) spec = Inr (ad_rung x)" if "Some a = Some x" for x
    using assms(3) that by simp
  from acquire_returns [OF assms(1,2) this assms(4)] show ?thesis
    by (auto simp: follows_def split: option.splits)
qed


text \<open>
  Acquiring keeps the ledger consistent, whatever the backends answer, whether it returns or
  raises, and whatever other tasks do lawfully while it waits.
\<close>

theorem acquire_keeps_the_ledger:
  assumes "server_lawful v" and "ledger_ok led"
  shows "ledger_ok (snd (snd (acquire v key spec ad led)))"
  using serve_lawD [OF serve_law_acquire [OF assms(1)] assms(2)] assms(2) lawful_ok by blast

text \<open>
  A refused key is refused before anything is asked.  On a key that is refused \<open>acquire\<close> raises
  \<open>SandboxUnclean\<close> with the recorded code, and changes neither the ledger nor the admission: no
  backend is asked for anything.
\<close>

theorem refused_key_is_not_served:
  assumes "r_candidates (s_router (v_site v)) \<noteq> []" and "refused key led"
  shows "acquire_and_adopt v key spec ad led =
    (Inl (SandboxUnclean (map_option code (snd (unclean_state key led)))), ad, led)"
proof -
  have "choose_backend v key spec ad led = Inl (SandboxUnclean (map_option code (snd (unclean_state key led))))"
    using assms by (simp add: choose_backend_def refused_def split_beta raiseIf_def)
  then show ?thesis by (simp add: acquire_and_adopt_def then_serve_def serve_act_def lift_def)
qed


subsection \<open>A server to look at\<close>

text \<open>
  One backend that answers with an instance nobody has seen, whose reset leaves it a new identity;
  it declares snapshots, so adoption resets.
\<close>

definition unseen :: sandbox_view where
  "unseen = \<lparr>sb_ref = 1, sb_reclaims = True, sb_instance = Some ''i1'', sb_fresh = False\<rparr>"

definition sample_server :: server where
  "sample_server = \<lparr>v_site = (sample_site (\<lambda>_. Gone))\<lparr>s_router := sample_router\<rparr>,
     v_acquire = (\<lambda>b key spec n led. (Acquired unseen, led)),
     v_reset = (\<lambda>sb n led. ((Reset_returned, sb\<lparr>sb_instance := Some ''i2''\<rparr>), led)),
     v_prepare = (\<lambda>c sb spec n led. ((None, sb), led)), v_admits = (\<lambda>_. False),
     v_enter = (\<lambda>b key spec owner n led. (None, led)), v_exit = (\<lambda>b key kind owner n led. (None, led)),
     v_gate = (\<lambda>key kind n led. (None, led))\<rparr>"

lemma sample_server_lawful: "server_lawful sample_server"
proof -
  have "r_backends sample_router \<noteq> []" by code_simp
  then show ?thesis
    by (simp add: server_lawful_def sample_server_def site_lawful_def sample_site_def registered_def)
qed

definition sample_admission :: call_admission where
  "sample_admission = \<lparr>ad_backend = Routing_Properties.sample_backend, ad_rung = RESET, ad_served = False,
     ad_channel = None, ad_owner = ''o1'', ad_timeout = 30\<rparr>"

lemma sample_acquired:
  "map_sum id (\<lambda>sb. (sb_instance sb, sb_fresh sb)) (fst (acquire sample_server sample_key plain_spec None empty_ledger))
     = Inr (Some ''i2'', False)"
  by code_simp

lemma sample_admitted:
  "map_sum id sb_instance (fst (acquire sample_server sample_key plain_spec (Some sample_admission) empty_ledger))
     = Inr (Some ''i2'')"
  by code_simp

lemma Inr_parts: "map_sum id f (fst p) = Inr y \<Longrightarrow> \<exists>x ad led. p = (Inr x, ad, led) \<and> f x = y"
  by (cases p; cases "fst p") auto


theorem admission_follows_the_sandbox_witness:
  "\<exists>sb (a' :: call_admission) led. sb_instance sb = Some ''i2'' \<and> known_open sample_key ''python'' (b_id (ad_backend a')) sb led \<and> ad_served a'"
proof -
  obtain sb ad' led' where
    run: "acquire sample_server sample_key plain_spec (Some sample_admission) empty_ledger = (Inr sb, ad', led')"
    and sb: "sb_instance sb = Some ''i2''"
    using Inr_parts [OF sample_admitted] by auto
  have "spec_kind plain_spec = ''python''"
    "cleanup_on (s_router (v_site sample_server)) (ad_backend sample_admission) plain_spec = Inr (ad_rung sample_admission)"
    by code_simp+
  note here = this
  from admission_follows_the_sandbox [OF sample_server_lawful empty_ledger_ok here(2) run] obtain a' :: call_admission where
    "known_open sample_key ''python'' (b_id (ad_backend a')) sb led'" "ad_served a'"
    unfolding here(1) by blast
  with sb show ?thesis by blast
qed

definition sample_created :: created where
  "sample_created = \<lparr>cr_backend = Routing_Properties.sample_backend, cr_channel = None, cr_spec = plain_spec,
     cr_snapshot = True, cr_sandbox = unseen\<rparr>"


theorem acquire_keeps_the_ledger_witness:
  "ledger_ok (snd (snd (acquire sample_server sample_key plain_spec None sample_marked)))"
  by (rule acquire_keeps_the_ledger [OF sample_server_lawful sample_marked_ok])

theorem refused_key_is_not_served_witness:
  "fst (acquire_and_adopt sample_server sample_key plain_spec None sample_marked) = Inl (SandboxUnclean None)"
proof -
  have "r_candidates (s_router (v_site sample_server)) \<noteq> []" "refused sample_key sample_marked"
    "snd (unclean_state sample_key sample_marked) = None" by code_simp+
  with refused_key_is_not_served [of sample_server sample_key sample_marked] show ?thesis by simp
qed

end
