(* ===== verification/Call_Properties.thy ===== *)
theory Call_Properties
  imports Calls Acquire_Properties Slot_Waiters
begin

text \<open>
  The properties of a call around its sandbox: what it is given when it enters, that leaving
  settles whatever it was handed to clean, and that a cleanup that failed or was cut short leaves
  the key refused.
\<close>

subsection \<open>A claim\<close>

text \<open>A claim: the place is being cleaned, nobody is inside, and these are the records to clean.\<close>

definition claim_of :: "place \<Rightarrow> nat list \<Rightarrow> slots \<Rightarrow> bool" where
  "claim_of pl as st \<longleftrightarrow>
     (\<exists>sl. table st pl = Some sl \<and> sl_state sl = CLEANING \<and> vacant sl \<and> map snd (sl_pending sl) = as)
     \<and> (\<forall>a \<in> set as. heap st a \<noteq> None)"

text \<open>What others may do to a claim: let more calls wait for its records, and nothing else.\<close>

definition leaves_alone :: "place \<Rightarrow> nat list \<Rightarrow> slots \<Rightarrow> slots \<Rightarrow> bool" where
  "leaves_alone pl as st st' \<longleftrightarrow> (claim_of pl as st \<longrightarrow> claim_of pl as st'
     \<and> (\<forall>a \<in> set as. \<exists>ws. heap st' a = map_option (\<lambda>c. c\<lparr>pc_waiters := ws\<rparr>) (heap st a)))"

definition done_at :: "slots \<Rightarrow> nat \<Rightarrow> bool" where
  "done_at st a \<longleftrightarrow> (case heap st a of None \<Rightarrow> False | Some c \<Rightarrow> pc_done c)"

lemma claim_vacant: "claim_of pl as st \<Longrightarrow> table st pl = Some sl \<Longrightarrow> vacant sl \<and> sl_state sl = CLEANING \<and> map snd (sl_pending sl) = as"
  by (auto simp: claim_of_def)

lemma claim_same:
  assumes "claim_of pl as st" and "heap st' = heap st"
    and "\<And>sl. table st pl = Some sl \<Longrightarrow> sl_state sl = CLEANING \<Longrightarrow> vacant sl \<Longrightarrow> \<exists>sl'. table st' pl = Some sl'
      \<and> sl_state sl' = CLEANING \<and> vacant sl' \<and> sl_pending sl' = sl_pending sl"
  shows "claim_of pl as st' \<and> (\<forall>a. heap st' a = heap st a)"
  using assms unfolding claim_of_def by metis

lemma claim_not_idle: "claim_of pl as st \<Longrightarrow> table st pl = Some sl \<Longrightarrow> \<not> idle sl"
  by (auto simp: claim_of_def idle_def)

lemma claim_wake:
  assumes "claim_of pl as st"
  shows "claim_of pl as (wake shut pl' st)"
proof -
  have "claim_of pl as (wake shut pl' st) \<and> (\<forall>a. heap (wake shut pl' st) a = heap st a)"
  proof (rule claim_same [OF assms heap_wake])
    fix sl assume sl: "table st pl = Some sl" "sl_state sl = CLEANING" "vacant sl"
    show "\<exists>sl'. table (wake shut pl' st) pl = Some sl' \<and> sl_state sl' = CLEANING \<and> vacant sl' \<and> sl_pending sl' = sl_pending sl"
      using sl by (cases "pl' = pl")
        (auto simp: wake_def Let_def drop_if_idle_def idle_def vacant_def split: option.splits)
  qed
  then show ?thesis by simp
qed

lemma claim_renew:
  assumes "claim_of pl as st"
  shows "claim_of pl as (renew shut pl' st)"
proof (cases "table st pl'")
  case None
  then show ?thesis using assms by (simp add: renew_def)
next
  case (Some sl)
  have "claim_of pl as (put pl' (Some (sl\<lparr>sl_generation := Suc (sl_generation sl)\<rparr>)) st)"
    using assms Some by (cases "pl' = pl") (auto simp: claim_of_def vacant_def)
  then show ?thesis using Some claim_wake by (simp add: renew_def)
qed

lemma heap_renew [simp]: "heap (renew shut pl st) = heap st"
  by (simp add: renew_def split: option.split)

lemma claim_complete: "claim_of pl as st \<Longrightarrow> claim_of pl as (complete_cleanup shut a failure st)"
  by (auto simp: claim_of_def complete_cleanup_def split: option.split)

lemma done_complete: "done_at (complete_cleanup shut a failure st) x \<longleftrightarrow> done_at st x \<or> (x = a \<and> heap st a \<noteq> None)"
  by (auto simp: done_at_def complete_cleanup_def split: option.splits)

lemma done_renew [simp]: "done_at (renew shut pl st) = done_at st"
  by (simp add: done_at_def fun_eq_iff)

lemma done_alone:
  "leaves_alone pl as st st' \<Longrightarrow> claim_of pl as st \<Longrightarrow> a \<in> set as \<Longrightarrow> done_at st' a \<longleftrightarrow> done_at st a"
  by (fastforce simp: leaves_alone_def done_at_def split: option.splits)

text \<open>What is left of a claim once it is cleaned.\<close>

definition reopened :: "place \<Rightarrow> slots \<Rightarrow> bool" where
  "reopened pl st \<longleftrightarrow> (case table st pl of None \<Rightarrow> True | Some sl \<Rightarrow> sl_state sl = SERVING \<and> sl_pending sl = [] \<and> vacant sl)"

lemma claim_cleaned:
  assumes "claim_of pl as st" and "\<forall>a \<in> set as. done_at st a"
  shows "\<exists>st'. cleaned shut pl st = Inr st' \<and> heap st' = heap st \<and> reopened pl st'"
proof -
  obtain sl where sl: "table st pl = Some sl" "map snd (sl_pending sl) = as" "vacant sl"
    using assms(1) by (auto simp: claim_of_def)
  then show ?thesis
    using assms(2)
    by (auto simp: cleaned_def done_at_def reopened_def wake_def Let_def drop_if_idle_def vacant_def split: option.splits)
qed

lemma release_claims:
  assumes "slots_inv st" "filed_inv st" "release shut pl owner st = (claimed, st')" "claimed \<noteq> []"
  shows "claim_of pl claimed st' \<and> distinct claimed"
  using assms(3)
proof (cases rule: release_cases)
  case (claims sl)
  have f: "filed st sl" "slot_core sl" using assms claims(1) filed_inv_at slots_inv_core by blast+
  then have "distinct (map snd (sl_pending sl))" using filed_distinct by blast
  then show ?thesis using claims f(1) by (auto simp: claim_of_def filed_def vacant_def)
qed (use assms(4) in simp_all)

subsection \<open>Leaving\<close>

definition caller_fair :: "caller \<Rightarrow> place \<Rightarrow> nat list \<Rightarrow> bool" where
  "caller_fair k pl as \<longleftrightarrow> (\<forall>n st. leaves_alone pl as st (k_others k n st))"

lemma during_slots: "h_slots (snd (during k m h)) = k_others k (l_awaits (snd (m (h_ledger h)))) (h_slots h)"
  by (simp add: during_def split: prod.split)

lemma claim_during:
  assumes "caller_fair k pl as" and "claim_of pl as (h_slots h)" and "during k m h = (r, h')"
  shows "claim_of pl as (h_slots h') \<and> (\<forall>a \<in> set as. done_at (h_slots h') a \<longleftrightarrow> done_at (h_slots h) a)"
proof -
  have "leaves_alone pl as (h_slots h) (h_slots h')"
    using during_slots [of k m h] assms(1,3) by (simp add: caller_fair_def)
  then show ?thesis using assms(2) done_alone unfolding leaves_alone_def by blast
qed

lemma run_pending_keeps:
  assumes "caller_fair k (key, kind) as" and "set bs \<subseteq> set as"
  shows "claim_of (key, kind) as (h_slots h) \<Longrightarrow> run_pending k key kind bs h = (r, h') \<Longrightarrow> claim_of (key, kind) as (h_slots h')"
  using assms(2)
proof (induction bs arbitrary: h)
  case (Cons a bs)
  then obtain c where c: "heap (h_slots h) a = Some c" by (auto simp: claim_of_def)
  let ?m = "run_the_rung (k_server k) key (pc_spec c) (pc_backend c) (pc_rung c) (Some (look k (pc_sandbox c) h)) (pc_unclean c)"
  obtain r1 h1 where m: "during k ?m h = (r1, h1)" by (cases "during k ?m h")
  note one = conjunct1 [OF claim_during [OF assms(1) Cons.prems(1) m]]
  show ?case
  proof (cases r1)
    case (Inl e)
    then show ?thesis using Cons.prems(2) c m one by simp
  next
    case (Inr failure)
    let ?h = "on_slots (\<lambda>st. renew (k_shut k) (key, kind) (complete_cleanup (k_shut k) a failure st)) h1"
    have "claim_of (key, kind) as (h_slots ?h)"
      using one by (simp add: on_slots_def claim_renew claim_complete)
    moreover have "run_pending k key kind bs ?h = (r, h')" using Cons.prems(2) c m Inr by simp
    ultimately show ?thesis using Cons.IH Cons.prems(3) by simp
  qed
qed simp

lemma transfer_done:
  assumes "claim_of pl as (h_slots h)" and "a \<in> set as"
  shows "claim_of pl as (h_slots (transfer_one k key kind a h)) \<and> done_at (h_slots (transfer_one k key kind a h)) a
    \<and> (\<forall>x. done_at (h_slots h) x \<longrightarrow> done_at (h_slots (transfer_one k key kind a h)) x)"
proof -
  obtain c where c: "heap (h_slots h) a = Some c" using assms by (auto simp: claim_of_def)
  show ?thesis
  proof (cases "pc_done c")
    case True
    then show ?thesis using assms c by (simp add: transfer_one_def done_at_def)
  next
    case False
    then have "h_slots (transfer_one k key kind a h) = complete_cleanup (k_shut k) a (Some interrupted_text) (h_slots h)"
      using c by (simp add: transfer_one_def Let_def)
    then show ?thesis using assms(1) c by (simp add: claim_complete done_complete)
  qed
qed

lemma transfer_all:
  assumes "claim_of pl as (h_slots h)" and "set bs \<subseteq> set as"
  shows "claim_of pl as (h_slots (foldl (\<lambda>h a. transfer_one k key kind a h) h bs))
    \<and> (\<forall>a. a \<in> set bs \<or> done_at (h_slots h) a \<longrightarrow> done_at (h_slots (foldl (\<lambda>h a. transfer_one k key kind a h) h bs)) a)"
  using assms
proof (induction bs arbitrary: h)
  case (Cons b bs)
  note one = transfer_done [OF Cons.prems(1), of b k key kind]
  with Cons.prems Cons.IH [of "transfer_one k key kind b h"] show ?case by auto
qed simp

lemma leave_settles:
  assumes fair: "\<And>as. caller_fair k (key, kind) as" and inv: "slots_inv (h_slots h)" "filed_inv (h_slots h)"
    and rel: "release (k_shut k) (key, kind) owner (h_slots h) = (claimed, st)" "claimed \<noteq> []"
    and ret: "leave k key kind owner interrupted h = (r, h')"
  shows "r = fst (run_pending k key kind (if interrupted then [] else claimed) (h\<lparr>h_slots := st\<rparr>))
    \<and> (\<forall>a \<in> set claimed. done_at (h_slots h') a) \<and> reopened (key, kind) (h_slots h')"
proof -
  note claim = conjunct1 [OF release_claims [OF inv rel]]
  let ?todo = "if interrupted then [] else claimed"
  obtain r2 h2 where run: "run_pending k key kind ?todo (h\<lparr>h_slots := st\<rparr>) = (r2, h2)"
    by (cases "run_pending k key kind ?todo (h\<lparr>h_slots := st\<rparr>)")
  have two: "claim_of (key, kind) claimed (h_slots h2)"
    by (rule run_pending_keeps [OF fair _ _ run]) (use claim in auto)
  let ?h3 = "foldl (\<lambda>h a. transfer_one k key kind a h) h2 claimed"
  have three: "claim_of (key, kind) claimed (h_slots ?h3)" "\<forall>a \<in> set claimed. done_at (h_slots ?h3) a"
    using transfer_all [OF two subset_refl] by blast+
  from claim_cleaned [OF this] obtain st' where fin: "cleaned (k_shut k) (key, kind) (h_slots ?h3) = Inr st'"
    "heap st' = heap (h_slots ?h3)" "reopened (key, kind) st'" by blast
  have "(r, h') = (r2, ?h3\<lparr>h_slots := st'\<rparr>)"
    using ret rel run fin(1) by (simp add: leave_def)
  then show ?thesis using fin(2,3) three(2) run by (simp add: done_at_def)
qed


subsection \<open>What a rung leaves in the ledger\<close>

definition owed :: "sandbox_key \<Rightarrow> nat \<Rightarrow> string option \<Rightarrow> string option \<Rightarrow> ledger \<Rightarrow> bool" where
  "owed key b kind inst led \<longleftrightarrow> refused key led \<and> map_of (l_pending led key) (b, kind, inst) \<noteq> None"

lemma mark_owes: "may_be_refused key \<Longrightarrow> owed key b kind inst (mark_unclean reg key reason (Some b) kind inst led)"
  by (simp add: owed_def mark_unclean_def mark_guarded_def Let_def refused_def unclean_state_def update_conv')

lemma mark_keeps_owed:
  "owed key b kind inst led \<Longrightarrow> owed key b kind inst (mark_unclean reg key reason (Some b') kind' inst' led)"
  by (simp add: owed_def mark_unclean_def mark_guarded_def Let_def refused_def unclean_state_def update_conv')

lemma kind_failure_owes:
  assumes "dispose_the_kind s key kind b unclean inst led = (Inr (Some f), led')" and "refuses s" and "may_be_refused key"
  shows "owed key b (Some kind) inst led'"
proof -
  define led1 where "led1 = (if unclean = None then led
    else (if refuses s then mark_unclean (registered s) key None (Some b) (Some kind) inst else (\<lambda>l. l)) led)"
  obtain a led2 where aw: "await (s_dispose s b key (Some kind) inst) led1 = (a, led2)"
    by (cases "await (s_dispose s b key (Some kind) inst) led1")
  have "\<exists>reason. led' = mark_unclean (registered s) key reason (Some b) (Some kind) inst led2"
    using assms(1,2) aw unfolding dispose_the_kind_def Let_def led1_def [symmetric]
    by (cases a) (auto simp: failure_of_instance_def)
  then show ?thesis using mark_owes [OF assms(3)] by auto
qed

lemma reset_instance_returned:
  assumes "reset_instance v sb led = ((Reset_returned, sb'), led')"
  shows "sb_instance sb' \<noteq> sb_instance sb \<and> (\<exists>n l. fst (v_reset v sb n l) = (Reset_returned, sb'))"
proof -
  obtain a where aw: "await (v_reset v sb) led = ((a, sb'), led')"
    using assms by (auto simp: reset_instance_def split: prod.splits)
  have "a = Reset_returned" "sb_instance sb' \<noteq> sb_instance sb"
    using assms by (auto simp: reset_instance_def aw split: if_splits)
  with aw show ?thesis unfolding await_def by (metis fst_conv)
qed

text \<open>Every way through \<open>_run_the_rung\<close> ends in a reset's answer or in a disposal.\<close>

lemma rung_cases:
  assumes "run_the_rung v key spec b rung sandbox unclean led = (r, led')"
  obtains (reset) sb sb' led1 where "rung = RESET" "sandbox = Some sb"
      "reset_instance v sb led = ((Reset_returned, sb'), led1)" "r = Inr None"
  | (stopped) e where "r = Inl e"
  | (disposal) u inst led1 where "dispose_the_kind (v_site v) key (spec_kind spec) b u inst led1 = (r, led')"
proof (cases "rung = RESET \<and> sandbox \<noteq> None")
  case True
  then obtain sb where sb: "rung = RESET" "sandbox = Some sb" by auto
  obtain a sb' led1 where rs: "reset_instance v sb led = ((a, sb'), led1)" by (metis surj_pair)
  show thesis
  proof (cases a)
    case Reset_returned
    with assms sb rs show thesis by (intro reset [of sb sb' led1]) (simp_all add: run_the_rung_def Let_def)
  next
    case Reset_failed
    with assms sb rs show thesis by (intro disposal) (simp add: run_the_rung_def Let_def)
  next
    case (Reset_interrupted e)
    with assms sb rs show thesis by (intro stopped [of e]) (simp add: run_the_rung_def Let_def)
  qed
next
  case False
  then have "\<exists>inst. run_the_rung v key spec b rung sandbox unclean led
      = dispose_the_kind (v_site v) key (spec_kind spec) b unclean inst led"
    unfolding run_the_rung_def Let_def by (cases rung; cases sandbox) auto
  with assms show thesis using disposal by metis
qed

lemma transfer_owes:
  assumes "refuses (v_site (k_server k))" and "may_be_refused key"
  shows "owed key b kd i (h_ledger h) \<longrightarrow> owed key b kd i (h_ledger (transfer_one k key kind a h))"
    and "heap (h_slots h) a = Some c \<Longrightarrow> \<not> pc_done c \<Longrightarrow> \<exists>i. owed key (pc_backend c) (Some kind) (Some i) (h_ledger (transfer_one k key kind a h))"
proof -
  show "owed key b kd i (h_ledger h) \<longrightarrow> owed key b kd i (h_ledger (transfer_one k key kind a h))"
    using mark_keeps_owed by (simp add: transfer_one_def Let_def split: option.split)
  assume c: "heap (h_slots h) a = Some c" "\<not> pc_done c"
  let ?i = "case instance_of (look k (pc_sandbox c) h) of None \<Rightarrow> pc_instance c | Some i \<Rightarrow> i"
  have "\<exists>reg reason led. h_ledger (transfer_one k key kind a h) = mark_unclean reg key reason (Some (pc_backend c)) (Some kind) (Some ?i) led"
    using c assms(1) by (auto simp: transfer_one_def Let_def)
  then show "\<exists>i. owed key (pc_backend c) (Some kind) (Some i) (h_ledger (transfer_one k key kind a h))"
    using mark_owes [OF assms(2)] by metis
qed

lemma transfer_other:
  assumes "x \<noteq> a"
  shows "heap (h_slots (transfer_one k key kind a h)) x = heap (h_slots h) x"
  using assms by (auto simp: transfer_one_def Let_def complete_cleanup_def split: option.split)

lemma transfer_all_owes:
  assumes "refuses (v_site (k_server k))" and "may_be_refused key"
  shows "owed key b kd i (h_ledger h) \<Longrightarrow> owed key b kd i (h_ledger (foldl (\<lambda>h a. transfer_one k key kind a h) h bs))"
    and "a \<in> set bs \<Longrightarrow> heap (h_slots h) a = Some c \<Longrightarrow> \<not> pc_done c \<Longrightarrow>
      \<exists>i. owed key (pc_backend c) (Some kind) (Some i) (h_ledger (foldl (\<lambda>h a. transfer_one k key kind a h) h bs))"
proof -
  show keeps: "owed key b kd i (h_ledger h) \<Longrightarrow> owed key b kd i (h_ledger (foldl (\<lambda>h a. transfer_one k key kind a h) h bs))"
    for b kd i h bs
  proof (induction bs arbitrary: h)
    case (Cons x bs)
    then show ?case using transfer_owes(1) [OF assms] by simp
  qed simp
  show "a \<in> set bs \<Longrightarrow> heap (h_slots h) a = Some c \<Longrightarrow> \<not> pc_done c \<Longrightarrow>
      \<exists>i. owed key (pc_backend c) (Some kind) (Some i) (h_ledger (foldl (\<lambda>h a. transfer_one k key kind a h) h bs))"
  proof (induction bs arbitrary: h)
    case (Cons x bs)
    show ?case
    proof (cases "x = a")
      case True
      from transfer_owes(2) [OF assms Cons.prems(2,3), of kind] True show ?thesis
        using keeps by fastforce
    next
      case False
      then show ?thesis using Cons transfer_other [of a x k key kind h] by simp
    qed
  qed simp
qed

subsection \<open>Entering\<close>

text \<open>What an owner has of a place: the exclusive half, the shared half.\<close>

definition standing :: "place \<Rightarrow> string \<Rightarrow> slots \<Rightarrow> bool \<times> bool" where
  "standing pl owner st = (case table st pl of None \<Rightarrow> (False, False)
     | Some sl \<Rightarrow> (sl_exclusive sl = Some owner, owner \<in> sl_shared sl))"

lemma holds_standing: "holds pl owner st \<longleftrightarrow> standing pl owner st \<noteq> (False, False)"
  by (auto simp: holds_def held_by_def standing_def split: option.split)

lemma standing_put_waiters:
  "table st pl = Some sl \<Longrightarrow> standing pl owner (put pl (drop_if_idle (sl\<lparr>sl_waiters := ws\<rparr>)) st) = standing pl owner st"
  by (auto simp: standing_def drop_if_idle_def idle_def)

lemma standing_ready [simp]: "standing pl owner (st\<lparr>ready := x\<rparr>) = standing pl owner st"
  "standing pl owner (st\<lparr>next_waiter := n\<rparr>) = standing pl owner st" "standing pl owner (st\<lparr>heap := hp\<rparr>) = standing pl owner st"
  by (simp_all add: standing_def)

lemma standing_wake [simp]: "standing pl owner (wake shut pl st) = standing pl owner st"
  by (cases "table st pl") (simp_all add: wake_def Let_def standing_put_waiters)

lemma standing_forget [simp]: "standing pl owner (forget_waiter shut pl wid st) = standing pl owner st"
  by (cases "table st pl") (simp_all add: forget_waiter_def standing_put_waiters)

lemma forgotten:
  "table (forget_waiter shut pl wid st) pl = Some sl \<Longrightarrow> w \<in> set (sl_waiters sl) \<Longrightarrow> w_id w \<noteq> wid"
  by (cases "table st pl")
    (auto simp: forget_waiter_def wake_def Let_def drop_if_idle_def open_waiters_def split: option.splits if_splits)

lemma turn_waits:
  assumes "take_turn shut pl owner exclusive lp queued seen now timeout deadline st = (Waits w g d, st')"
  shows "w_id w = (case queued of None \<Rightarrow> next_waiter st | Some q \<Rightarrow> w_id q) \<and> standing pl owner st' = standing pl owner st"
  using assms
  by (cases "table st pl"; cases queued)
    (auto simp: take_turn_def Let_def standing_def fresh_slot_def split: if_splits)

lemma turn_admits:
  assumes "take_turn shut pl owner exclusive lp queued seen now timeout deadline st = (Admitted, st')"
  shows "standing pl owner st' = (if exclusive then (True, snd (standing pl owner st)) else (fst (standing pl owner st), True))"
  using assms
  by (cases "table st pl"; cases queued)
    (auto simp: take_turn_def Let_def standing_def fresh_slot_def split: if_splits)

definition fair_wait :: "place \<Rightarrow> string \<Rightarrow> waited \<Rightarrow> bool" where
  "fair_wait pl owner x \<longleftrightarrow> (\<forall>st. standing pl owner (x_others x st) = standing pl owner st)"

lemma take_loop_outcome:
  assumes "take_loop shut pl owner exclusive lp timeout queued seen now deadline waits st = Some (r, st')"
    and "list_all (fair_wait pl owner) waits"
  shows "(case r of
      Inr _ \<Rightarrow> standing pl owner st' = (if exclusive then (True, snd (standing pl owner st)) else (fst (standing pl owner st), True))
    | Inl e \<Rightarrow> standing pl owner st' = standing pl owner st
        \<and> (\<forall>sl. table st' pl = Some sl \<longrightarrow> (\<forall>w \<in> set (sl_waiters sl).
            w_id w \<noteq> (case queued of None \<Rightarrow> next_waiter st | Some q \<Rightarrow> w_id q))))"
  using assms
proof (induction shut pl owner exclusive lp timeout queued seen now deadline waits st rule: take_loop.induct)
  case (1 shut pl owner exclusive lp timeout queued seen now deadline waits st)
  obtain turn st1 where t: "take_turn shut pl owner exclusive lp queued seen now timeout deadline st = (turn, st1)" by fastforce
  show ?case
  proof (cases turn)
    case Admitted
    then have "r = Inr ()" "st' = st1" using 1(2) t by (simp_all add: take_loop.simps)
    then show ?thesis using turn_admits [OF t [unfolded Admitted]] by simp
  next
    case (Waits w g d)
    note wt = turn_waits [OF t [unfolded Waits]]
    then obtain x rest where x: "waits = x # rest" using 1(2) t Waits by (cases waits) (auto simp: take_loop.simps)
    then have fair: "standing pl owner (x_others x s) = standing pl owner s" for s
      using 1(3) by (simp add: fair_wait_def)
    show ?thesis
    proof (cases "d - x_clock x \<le> 0")
      case True
      then have "r = Inl TimeoutError" "st' = forget_waiter shut pl (w_id w) st1"
        using 1(2) t Waits x by (simp_all add: take_loop.simps)
      then show ?thesis using wt forgotten by auto
    next
      case False
      show ?thesis
      proof (cases "x_end x")
        case (Resolved now')
        have "take_loop shut pl owner exclusive lp timeout (Some w) (Some g) now' d rest (x_others x st1) = Some (r, st')"
          using 1(2) t Waits x False Resolved by (subst (asm) take_loop.simps) simp
        from 1(1) [OF t [symmetric, unfolded Waits] refl x False Resolved this] 1(3) x wt fair
        show ?thesis by (cases r) simp_all
      next
        case Over
        then have "r = Inl TimeoutError" "st' = forget_waiter shut pl (w_id w) (x_others x st1)"
          using 1(2) t Waits x False by (simp_all add: take_loop.simps)
        then show ?thesis using wt forgotten fair by auto
      next
        case (Abandoned e)
        then have "r = Inl e" "st' = forget_waiter shut pl (w_id w) (x_others x st1)"
          using 1(2) t Waits x False by (simp_all add: take_loop.simps)
        then show ?thesis using wt forgotten fair by auto
      qed
    qed
  qed
qed


text \<open>Leaving takes away whichever half an owner has, when it has one.\<close>

definition fair_to :: "caller \<Rightarrow> place \<Rightarrow> string \<Rightarrow> bool" where
  "fair_to k pl owner \<longleftrightarrow> (\<forall>n st. standing pl owner (k_others k n st) = standing pl owner st)"

lemma standing_complete [simp]: "standing pl owner (complete_cleanup shut a f st) = standing pl owner st"
  by (simp add: complete_cleanup_def split: option.split)

lemma standing_renew [simp]: "standing pl owner (renew shut pl st) = standing pl owner st"
  by (cases "table st pl") (simp_all add: renew_def, simp add: standing_def)

lemma standing_cleaned: "cleaned shut pl st = Inr st' \<Longrightarrow> standing pl owner st' = standing pl owner st"
proof (elim cleaned_cases)
  fix sl assume sl: "table st pl = Some sl"
  let ?sl = "sl\<lparr>sl_pending := [], sl_state := SERVING, sl_generation := Suc (sl_generation sl)\<rparr>"
  assume "st' = wake shut pl (put pl (drop_if_idle ?sl) st)"
  then have "standing pl owner st' = standing pl owner (put pl (drop_if_idle ?sl) st)" by simp
  then show ?thesis using sl by (auto simp: standing_def drop_if_idle_def idle_def)
qed

lemma standing_during: "fair_to k pl owner \<Longrightarrow> during k m h = (r, h') \<Longrightarrow> standing pl owner (h_slots h') = standing pl owner (h_slots h)"
  using during_slots [of k m h] by (simp add: fair_to_def)

lemma standing_run:
  assumes "fair_to k (key, kind) owner"
  shows "run_pending k key kind bs h = (r, h') \<Longrightarrow> standing (key, kind) owner (h_slots h') = standing (key, kind) owner (h_slots h)"
proof (induction bs arbitrary: h)
  case (Cons a bs)
  show ?case
  proof (cases "heap (h_slots h) a")
    case None
    then show ?thesis using Cons.prems by simp
  next
    case (Some c)
    let ?m = "run_the_rung (k_server k) key (pc_spec c) (pc_backend c) (pc_rung c) (Some (look k (pc_sandbox c) h)) (pc_unclean c)"
    obtain r1 h1 where m: "during k ?m h = (r1, h1)" by (cases "during k ?m h")
    note one = standing_during [OF assms m]
    show ?thesis
    proof (cases r1)
      case (Inl e)
      then show ?thesis using Cons.prems Some m one by simp
    next
      case (Inr f)
      then have "run_pending k key kind bs
          (on_slots (\<lambda>st. renew (k_shut k) (key, kind) (complete_cleanup (k_shut k) a f st)) h1) = (r, h')"
        using Cons.prems Some m by simp
      from Cons.IH [OF this] show ?thesis using one by (simp add: on_slots_def)
    qed
  qed
qed simp

lemma standing_transfer: "standing pl owner (h_slots (foldl (\<lambda>h a. transfer_one k key kind a h) h bs)) = standing pl owner (h_slots h)"
  by (induction bs arbitrary: h) (simp_all add: transfer_one_def Let_def split: option.split)

lemma standing_release:
  assumes "release shut pl owner st = (claimed, st')" and "standing pl owner st \<in> {(True, False), (False, True), (False, False)}"
  shows "standing pl owner st' = (False, False)"
  using assms(1)
proof (cases rule: release_cases)
  case stranger
  then show ?thesis by (simp add: holds_standing)
next
  case (claims sl)
  then show ?thesis by (simp add: standing_def vacant_def)
next
  case (reopens sl)
  have "standing pl owner st' = standing pl owner (put pl (drop_if_idle ((left_by owner sl)\<lparr>sl_state := SERVING\<rparr>)) st)"
    using reopens(6) by simp
  then show ?thesis using reopens(3) by (auto simp: standing_def vacant_def drop_if_idle_def)
next
  case (others sl)
  have "standing pl owner st' = standing pl owner (put pl (drop_if_idle (left_by owner sl)) st)"
    using others(5) by simp
  then show ?thesis using assms(2) others(1)
    by (auto simp: standing_def drop_if_idle_def left_by_def split: if_splits)
qed

lemma standing_leave:
  assumes fair: "fair_to k (key, kind) owner" and one: "standing (key, kind) owner (h_slots h) \<in> {(True, False), (False, True), (False, False)}"
    and ret: "leave k key kind owner interrupted h = (r, h')"
  shows "standing (key, kind) owner (h_slots h') = (False, False)"
proof -
  obtain claimed st where rel: "release (k_shut k) (key, kind) owner (h_slots h) = (claimed, st)" by fastforce
  note out = standing_release [OF rel one]
  let ?todo = "if interrupted then [] else claimed"
  obtain r2 h2 where run: "run_pending k key kind ?todo (h\<lparr>h_slots := st\<rparr>) = (r2, h2)"
    by (cases "run_pending k key kind ?todo (h\<lparr>h_slots := st\<rparr>)")
  have two: "standing (key, kind) owner (h_slots h2) = (False, False)" using standing_run [OF fair run] out by simp
  let ?h3 = "foldl (\<lambda>h a. transfer_one k key kind a h) h2 claimed"
  show ?thesis
    using ret rel run out two standing_transfer [of "(key, kind)" owner k key kind h2 claimed] standing_cleaned [of "k_shut k" "(key, kind)" "h_slots ?h3"]
    by (auto simp: leave_def Let_def split: if_splits sum.splits)
qed

lemma standing_release_call:
  assumes fair: "fair_to k (key, kind) owner" and one: "standing (key, kind) owner (h_slots h) \<in> {(True, False), (False, True), (False, False)}"
    and ret: "release_call k key kind owner interrupted h = (r, h')"
  shows "standing (key, kind) owner (h_slots h') = (False, False)"
proof -
  let ?h = "h\<lparr>h_ledger := (h_ledger h)\<lparr>l_holds := (l_holds (h_ledger h))((key, kind, owner) := None)\<rparr>\<rparr>"
  obtain r1 h1 where lv: "leave k key kind owner interrupted ?h = (r1, h1)" by fastforce
  have out: "standing (key, kind) owner (h_slots h1) = (False, False)"
    using standing_leave [OF fair _ lv] one by simp
  show ?thesis
  proof (cases "l_holds (h_ledger h) (key, kind, owner)")
    case None
    then show ?thesis using ret lv out by (simp add: release_call_def Let_def)
  next
    case (Some b)
    obtain r2 h2 where ex: "during k (await_unit (v_exit (k_server k) b key kind owner)) h1 = (r2, h2)" by fastforce
    from standing_during [OF fair ex] out Some ret lv ex show ?thesis
      by (cases r2) (simp_all add: release_call_def Let_def)
  qed
qed

lemma resolve_returns:
  assumes "resolve_admission k key spec owner timeout b led = (Inr ad, led')"
  shows "cleanup_on (s_router (v_site (k_server k))) (ad_backend ad) spec = Inr (ad_rung ad) \<and> \<not> ad_served ad
    \<and> ad_owner ad = owner \<and> refuse_host_denials (s_router (v_site (k_server k))) spec = Inr ()
    \<and> (\<exists>pinned. refuse_unless_this_backend_can_serve (s_router (v_site (k_server k))) (ad_backend ad) spec pinned = Inr ())"
  using assms by (auto simp: resolve_admission_def Let_def returning)

lemma enter_parts:
  assumes "enter_call k key spec owner timeout exclusive now waits h = Some (r, h')"
    and fair: "fair_to k (key, spec_kind spec) owner" "list_all (fair_wait (key, spec_kind spec) owner) waits"
    and out: "standing (key, spec_kind spec) owner (h_slots h) = (False, False)"
  shows "case r of Inr ad \<Rightarrow> holds (key, spec_kind spec) owner (h_slots h') \<and> (\<exists>b led led'. resolve_admission k key spec owner timeout b led = (Inr ad, led'))
    | Inl e \<Rightarrow> \<not> holds (key, spec_kind spec) owner (h_slots h')"
proof -
  let ?pl = "(key, spec_kind spec)"
  let ?first = "bindE (case find_pin key spec None (h_ledger h) of
      Some p \<Rightarrow> Inr (pin_backend p) | None \<Rightarrow> refuse_unless_backend_can_serve (s_router (v_site (k_server k))) spec)
    (\<lambda>b. bindE (asks_exclusive k exclusive spec b) (\<lambda>x. Inr (b, x)))"
  show ?thesis
  proof (cases ?first)
    case (Inl e)
    then show ?thesis using assms(1) out by (auto simp: enter_call_def Let_def holds_standing)
  next
    case (Inr bx)
    obtain b alone where bx: "bx = (b, alone)" by fastforce
    let ?take = "take_loop (k_shut k) ?pl owner alone (k_loop k) timeout None None now (now + timeout) waits (h_slots h)"
    obtain t st where take: "?take = Some (t, st)"
      using assms(1) Inr bx by (cases ?take) (auto simp: enter_call_def Let_def)
    note tl = take_loop_outcome [OF take fair(2)]
    show ?thesis
    proof (cases t)
      case (Inl e)
      then have "r = Inl e" "h_slots h' = st" using assms(1) Inr bx take by (auto simp: enter_call_def Let_def)
      then show ?thesis using tl Inl out by (simp add: holds_standing)
    next
      case in_: (Inr u)
      let ?h = "\<lparr>h_ledger = k_meanwhile k (h_ledger h), h_slots = st\<rparr>"
      obtain r2 h2 where res: "during k (resolve_admission k key spec owner timeout b) ?h = (r2, h2)" by fastforce
      have st: "standing ?pl owner (h_slots h2) = (if alone then (True, False) else (False, True))"
        using standing_during [OF fair(1) res] tl in_ out by simp
      show ?thesis
      proof (cases r2)
        case ad: (Inr ad)
        then have "r = Inr ad" "h' = h2" using assms(1) Inr bx take in_ res by (auto simp: enter_call_def Let_def)
        moreover have "\<exists>led'. resolve_admission k key spec owner timeout b (k_meanwhile k (h_ledger h)) = (Inr ad, led')"
          using res ad by (auto simp: during_def split: prod.splits)
        ultimately show ?thesis using st by (auto simp: holds_standing)
      next
        case (Inl e)
        obtain r3 h3 where rc: "release_call k key (spec_kind spec) owner False h2 = (r3, h3)" by fastforce
        have "standing ?pl owner (h_slots h3) = (False, False)"
          using standing_release_call [OF fair(1) _ rc] st by simp
        moreover have "isl r \<and> h' = h3"
          using assms(1) Inr bx take in_ res Inl rc by (auto simp: enter_call_def Let_def split: sum.splits)
        ultimately show ?thesis by (auto simp: holds_standing isl_def)
      qed
    qed
  qed
qed


subsection \<open>The properties\<close>



text \<open>
  The outcome of a rung is honest.  A cleanup that reports success did reset the sandbox to a
  new identity, or had a delete answered as gone; one that reports a failure leaves, unless failed
  cleanups are kept, the key refused and a delete owed for that backend and kind.
\<close>

theorem rung_outcome_is_honest:
  assumes "run_the_rung v key spec b rung sandbox unclean led = (Inr outcome, led')"
    and "refuses (v_site v)" and "call_id key = []"
  shows "case outcome of
      None \<Rightarrow> (\<exists>sb sb' n l. rung = RESET \<and> sandbox = Some sb \<and> sb_instance sb' \<noteq> sb_instance sb
                 \<and> fst (v_reset v sb n l) = (Reset_returned, sb'))
            \<or> (\<exists>inst n l. fst (s_dispose (v_site v) b key (Some (spec_kind spec)) inst n l) = Gone)
    | Some f \<Rightarrow> \<exists>inst. owed key b (Some (spec_kind spec)) inst led'"
  using assms(1)
proof (cases rule: rung_cases)
  case (reset sb sb' led1)
  then show ?thesis using reset_instance_returned [OF reset(3)] by auto
next
  case (stopped e)
  then show ?thesis by simp
next
  case (disposal u inst led1)
  show ?thesis
  proof (cases outcome)
    case None
    then have "dispose_the_kind (v_site v) key (spec_kind spec) b u inst led1 = (Inr None, led')" using disposal by simp
    from kind_landed [OF this] None show ?thesis by auto
  next
    case (Some f)
    have "may_be_refused key" using assms(3) by (simp add: may_be_refused_def)
    then show ?thesis using kind_failure_owes [OF _ assms(2)] disposal Some by fastforce
  qed
qed

text \<open>
  C29: Entering is all or nothing.  Let no other task take this owner's place away or give it one.
  A call that enters is inside, with an admission by a backend that can serve the spec and the
  rung resolved for that backend; a call that fails to enter is not inside.
\<close>

theorem entering_is_all_or_nothing:
  assumes "fair_to k (key, spec_kind spec) owner" and "list_all (fair_wait (key, spec_kind spec) owner) waits"
    and "\<not> holds (key, spec_kind spec) owner (h_slots h)"
    and "enter_call k key spec owner timeout exclusive now waits h = Some (r, h')"
  shows "case r of
      Inl e \<Rightarrow> \<not> holds (key, spec_kind spec) owner (h_slots h')
    | Inr ad \<Rightarrow> holds (key, spec_kind spec) owner (h_slots h')
        \<and> cleanup_on (s_router (v_site (k_server k))) (ad_backend ad) spec = Inr (ad_rung ad)
        \<and> (\<exists>pinned. refuse_unless_this_backend_can_serve (s_router (v_site (k_server k))) (ad_backend ad) spec pinned = Inr ())"
proof -
  have "standing (key, spec_kind spec) owner (h_slots h) = (False, False)"
    using assms(3) by (simp add: holds_standing)
  note parts = enter_parts [OF assms(4,1,2) this]
  show ?thesis
  proof (cases r)
    case (Inl e)
    then show ?thesis using parts by simp
  next
    case (Inr ad)
    with parts obtain b led led' where res: "resolve_admission k key spec owner timeout b led = (Inr ad, led')"
      and held: "holds (key, spec_kind spec) owner (h_slots h')" by auto
    from resolve_returns [OF res] held Inr show ?thesis by simp
  qed
qed

text \<open>
  A wait that is given up leaves no waiter.  However the waits of a call that asks for
  admission go, when it ends with an exception the waiter it registered is no longer queued at
  that place, so it blocks nobody behind it; when it ends without one the call is inside.
\<close>

theorem given_up_waits_leave_no_waiter:
  assumes "list_all (fair_wait pl owner) waits"
    and "take_loop shut pl owner exclusive lp timeout None None now deadline waits st = Some (r, st')"
  shows "case r of
      Inr _ \<Rightarrow> holds pl owner st'
    | Inl e \<Rightarrow> (\<forall>sl. table st' pl = Some sl \<longrightarrow> next_waiter st \<notin> w_id ` set (sl_waiters sl))"
  using take_loop_outcome [OF assms(2,1)] by (cases r) (auto simp: holds_standing split: if_splits)


subsection \<open>A caller to look at\<close>

definition sample_caller :: "server \<Rightarrow> caller" where
  "sample_caller v = \<lparr>k_server = v, k_shut = {}, k_others = (\<lambda>n st. st), k_view = (\<lambda>ref n. unseen), k_bound = 30,
     k_loop = 0, k_meanwhile = (\<lambda>led. led), k_wait = (\<lambda>a n led. (None, led))\<rparr>"

lemma sample_caller_fair: "caller_fair (sample_caller v) pl as" "fair_to (sample_caller v) pl owner"
proof -
  have "\<exists>ws. heap st a = map_option (\<lambda>c. c\<lparr>pc_waiters := ws\<rparr>) (heap st a)" for st :: slots and a
    by (cases "heap st a") (auto intro!: exI [of _ "pc_waiters (the (heap st a))"])
  then show "caller_fair (sample_caller v) pl as"
    by (simp add: caller_fair_def leaves_alone_def sample_caller_def)
  show "fair_to (sample_caller v) pl owner" by (simp add: fair_to_def sample_caller_def)
qed

definition failing_server :: server where
  "failing_server = sample_server\<lparr>v_site := (sample_site (\<lambda>_. Overdue))\<lparr>s_router := sample_router\<rparr>,
     v_reset := (\<lambda>sb n led. ((Reset_failed, sb), led))\<rparr>"

definition last_out :: house where
  "last_out = \<lparr>h_ledger = empty_ledger, h_slots = demo_last\<rparr>"

definition demo_key :: sandbox_key where
  "demo_key = \<lparr>key_scope = ''s'', thread_id = ''t'', agent_id = ''a'', call_id = []\<rparr>"

lemma last_out_release: "\<exists>st. release {} (demo_key, ''k'') ''a'' (h_slots last_out) = ([7], st)"
proof -
  have "fst (release {} (demo_key, ''k'') ''a'' (h_slots last_out)) = [7]" by code_simp
  then show ?thesis by (metis prod.collapse)
qed



theorem rung_outcome_is_honest_witness:
  "\<exists>inst led. owed sample_key 1 (Some ''python'') inst led"
proof -
  have "map_sum id (\<lambda>f. f = None) (fst (run_the_rung failing_server sample_key plain_spec 1 RESET (Some unseen) None empty_ledger)) = Inr False"
    by code_simp
  then obtain f led where run: "run_the_rung failing_server sample_key plain_spec 1 RESET (Some unseen) None empty_ledger = (Inr (Some f), led)"
    by (cases "run_the_rung failing_server sample_key plain_spec 1 RESET (Some unseen) None empty_ledger";
        cases "fst (run_the_rung failing_server sample_key plain_spec 1 RESET (Some unseen) None empty_ledger)") auto
  have "refuses (v_site failing_server)" "call_id sample_key = []" "spec_kind plain_spec = ''python''" by code_simp+
  with rung_outcome_is_honest [OF run] show ?thesis by auto
qed

definition empty_house :: house where
  "empty_house = \<lparr>h_ledger = empty_ledger, h_slots = empty_slots\<rparr>"

theorem entering_is_all_or_nothing_witness:
  "\<exists>h :: house. holds (sample_key, ''python'') ''o'' (h_slots h)"
proof -
  let ?run = "enter_call (sample_caller sample_server) sample_key plain_spec ''o'' 30 False 0 [] empty_house"
  have "map_option (map_sum id ad_rung \<circ> fst) ?run = Some (Inr RESET)" by code_simp
  then obtain ad h' where run: "?run = Some (Inr ad, h')"
    by (cases ?run; cases "fst (the ?run)") auto
  have kind: "spec_kind plain_spec = ''python''" by code_simp
  have "\<not> holds (sample_key, spec_kind plain_spec) ''o'' (h_slots empty_house)"
    by (simp add: holds_def empty_house_def empty_slots_def)
  from entering_is_all_or_nothing [OF sample_caller_fair(2) _ this run] kind show ?thesis by auto
qed

theorem given_up_waits_leave_no_waiter_witness:
  "\<exists>(st :: slots) (st' :: slots). next_waiter st = 0 \<and> (\<forall>sl. table st' demo_place = Some sl \<longrightarrow> 0 \<notin> w_id ` set (sl_waiters sl))
     \<and> holds demo_place ''x'' st'"
proof -
  let ?st = "demo_enter ''x'' True empty_slots"
  let ?waits = "[\<lparr>x_clock = 1, x_others = id, x_end = Over\<rparr>]"
  let ?run = "take_loop {} demo_place ''y'' False 0 30 None None 0 30 ?waits ?st"
  have "map_option (\<lambda>(r, st). (r, holds demo_place ''x'' st)) ?run = Some (Inl TimeoutError, True)"
    and n: "next_waiter ?st = 0" by code_simp+
  then obtain st' where run: "?run = Some (Inl TimeoutError, st')" and x: "holds demo_place ''x'' st'" by auto
  have fair: "list_all (fair_wait demo_place ''y'') ?waits" by (simp add: fair_wait_def)
  from given_up_waits_leave_no_waiter [OF fair run] n x show ?thesis by auto
qed

end
