(* ===== verification/Host_Tools.thy ===== *)
theory Host_Tools
  imports Routing
begin

text \<open>
  Host tools (\<open>_host_tools.py\<close>): the functions of the host that a sandboxed program may call.  The
  registry is the one door; a run carries the ledgers that bound one program.

  A function of the host is what the registry reads of it: its \<open>__name__\<close>, whether it is callable,
  its stamp and its signature.  What its body does is an event of a run.  The sentences of
  refusals are constructors; the observers are left out.
\<close>

subsection \<open>Declarations\<close>

record flow_declaration =
  fd_source :: "source_integrity option"
  fd_sink :: "string option"
  fd_identity :: "identity option"

text \<open>A leg as the decorator is given it: a string, nothing, or another object.\<close>

datatype leg = No_leg | Leg string | Odd_leg

definition source_integrity_value :: "source_integrity \<Rightarrow> string" where
  "source_integrity_value s = (case s of UNTRUSTED \<Rightarrow> ''untrusted'' | TRUSTED \<Rightarrow> ''trusted'')"

definition enum_leg :: "('a \<Rightarrow> string) \<Rightarrow> 'a list \<Rightarrow> leg \<Rightarrow> 'a option result" where
  "enum_leg val_of members l =
     (case l of No_leg \<Rightarrow> Inr None | Odd_leg \<Rightarrow> Inl ValueError
      | Leg s \<Rightarrow> bindE (enum_parse val_of members s) (\<lambda>m. Inr (Some m)))"

text \<open>\<open>HostToolDeclaration.__post_init__\<close>.\<close>

definition declaration_post_init :: "leg \<Rightarrow> leg \<Rightarrow> leg \<Rightarrow> flow_declaration result" where
  "declaration_post_init source sink ident =
     bindE (enum_leg source_integrity_value [TRUSTED, UNTRUSTED] source) (\<lambda>s.
     bindE (enum_leg identity_value [APP, USER] ident) (\<lambda>i.
     bindE (case sink of No_leg \<Rightarrow> Inr None | Leg c \<Rightarrow> Inr (Some c) | Odd_leg \<Rightarrow> Inl TypeError) (\<lambda>c.
       Inr \<lparr>fd_source = s, fd_sink = c, fd_identity = i\<rparr>)))"

subsection \<open>Functions of the host\<close>

datatype param_kind = POSITIONAL_ONLY | POSITIONAL_OR_KEYWORD | VAR_POSITIONAL | KEYWORD_ONLY | VAR_KEYWORD

record param =
  p_name :: string
  p_kind :: param_kind
  p_default :: bool

text \<open>What is found under the stamp attribute: a declaration, or anything else.\<close>

datatype stamp = No_stamp | Odd_stamp | Stamped flow_declaration

datatype tool_name = Text string | Not_text

record host_function =
  hf_id :: nat
  hf_callable :: bool
  hf_name :: tool_name
  hf_stamp :: stamp
  hf_signature :: "param list option"

definition declaration_of :: "host_function \<Rightarrow> flow_declaration option" where
  "declaration_of f = (case hf_stamp f of Stamped d \<Rightarrow> Some d | _ \<Rightarrow> None)"

definition user_identity_parameter :: string where
  "user_identity_parameter = ''user_identity''"

text \<open>\<open>_accepts_user_identity\<close>; a signature that cannot be read is taken to accept.\<close>

definition accepts_user_identity :: "host_function \<Rightarrow> bool" where
  "accepts_user_identity f =
     (case hf_signature f of
        None \<Rightarrow> True
      | Some ps \<Rightarrow> \<exists>p \<in> set ps. p_kind p = VAR_KEYWORD
          \<or> (p_name p = user_identity_parameter \<and> p_kind p \<in> {POSITIONAL_OR_KEYWORD, KEYWORD_ONLY}))"

text \<open>\<open>Signature.bind\<close> of keyword arguments only.\<close>

definition binds :: "param list \<Rightarrow> string set \<Rightarrow> bool" where
  "binds ps keys \<longleftrightarrow>
     (\<forall>p \<in> set ps. case p_kind p of
        POSITIONAL_ONLY \<Rightarrow> p_default p
      | POSITIONAL_OR_KEYWORD \<Rightarrow> p_default p \<or> p_name p \<in> keys
      | KEYWORD_ONLY \<Rightarrow> p_default p \<or> p_name p \<in> keys
      | _ \<Rightarrow> True)
     \<and> (\<forall>k \<in> keys. (\<exists>p \<in> set ps. p_kind p = VAR_KEYWORD)
        \<or> (\<exists>p \<in> set ps. p_name p = k \<and> p_kind p \<in> {POSITIONAL_OR_KEYWORD, KEYWORD_ONLY}))"

subsection \<open>The registry\<close>

text \<open>A number as a host passes it; anything but a plain integer is refused.\<close>

datatype count_arg = Count int | Not_a_count

record registry =
  rg_require_declared :: bool
  rg_require_fides :: bool
  rg_allowed :: "identity set"
  rg_max_calls :: int
  rg_limits :: transfer_limits
  rg_mints :: bool
  rg_tools :: "(string \<times> host_function) list"
  rg_declarations :: "(string \<times> flow_declaration option) list"
  rg_sealed :: bool

text \<open>
  What is passed as \<open>allowed_identities\<close>, and as a callback; \<open>Not_callable\<close> is also the observer of
  calls that is a coroutine function.
\<close>

datatype identities_arg = Members "identity set" | Not_members

datatype callback_arg = No_callback | Callback | Not_callable

record registry_args =
  ra_require_declared :: bool
  ra_require_fides :: bool_arg
  ra_allowed :: identities_arg
  ra_max_calls :: count_arg
  ra_limits :: "(count_arg \<times> count_arg \<times> count_arg) option"
  ra_mint :: callback_arg
  ra_calls_observer :: callback_arg

definition plain_count :: "count_arg \<Rightarrow> int result" where
  "plain_count c = (case c of Not_a_count \<Rightarrow> Inl TypeError | Count n \<Rightarrow> Inr n)"

definition positive_count :: "count_arg \<Rightarrow> int result" where
  "positive_count c = bindE (plain_count c) (\<lambda>n. bindE (raiseIf (n < 1) ValueError) (\<lambda>_. Inr n))"

text \<open>\<open>HostToolRegistry.__init__\<close>; \<open>ra_limits\<close> is \<open>None\<close> for an object of another type.\<close>

definition registry_init :: "registry_args \<Rightarrow> registry result" where
  "registry_init a =
     bindE (case ra_require_fides a of Bool b \<Rightarrow> Inr b | Not_a_bool \<Rightarrow> Inl TypeError) (\<lambda>fides.
     bindE (positive_count (ra_max_calls a)) (\<lambda>cap.
     bindE (case ra_limits a of None \<Rightarrow> Inl TypeError | Some l \<Rightarrow> Inr l) (\<lambda>(per, total, files).
     bindE (positive_count per) (\<lambda>per.
     bindE (positive_count total) (\<lambda>total.
     bindE (positive_count files) (\<lambda>files.
     bindE (raiseIf (ra_calls_observer a = Not_callable) TypeError) (\<lambda>_.
     bindE (case ra_allowed a of Not_members \<Rightarrow> Inl TypeError | Members m \<Rightarrow> Inr m) (\<lambda>allowed.
     bindE (raiseIf (ra_mint a = Not_callable) TypeError) (\<lambda>_.
       Inr \<lparr>rg_require_declared = ra_require_declared a, rg_require_fides = fides, rg_allowed = allowed,
            rg_max_calls = cap,
            rg_limits = \<lparr>max_bytes_per_file = per, max_total_bytes = total, max_files = files\<rparr>,
            rg_mints = (ra_mint a = Callback), rg_tools = [], rg_declarations = [], rg_sealed = False\<rparr>)))))))))"

text \<open>The identity a function is read as exercising: without a declaration, the application's.\<close>

definition effective_identity :: "flow_declaration option \<Rightarrow> identity option" where
  "effective_identity d = (case d of None \<Rightarrow> Some APP | Some x \<Rightarrow> fd_identity x)"

text \<open>\<open>register\<close>: all its refusals come before either dictionary is written.\<close>

definition register :: "host_function \<Rightarrow> tool_name option \<Rightarrow> registry \<Rightarrow> registry result" where
  "register f name r =
     bindE (raiseIf (rg_sealed r) ValueError) (\<lambda>_.
     bindE (raiseIf (\<not> hf_callable f) TypeError) (\<lambda>_.
     bindE (case (case name of Some n \<Rightarrow> n | None \<Rightarrow> hf_name f) of Text t \<Rightarrow> Inr t | Not_text \<Rightarrow> Inl TypeError) (\<lambda>t.
     bindE (raiseIf (t = []) ValueError) (\<lambda>_.
     bindE (raiseIf (map_of (rg_tools r) t \<noteq> None) ValueError) (\<lambda>_.
     bindE (raiseIf (rg_require_declared r \<and> declaration_of f = None) ValueError) (\<lambda>_.
     bindE (raiseIf (case effective_identity (declaration_of f) of None \<Rightarrow> False | Some i \<Rightarrow> i \<notin> rg_allowed r)
              ValueError) (\<lambda>_.
     bindE (raiseIf (effective_identity (declaration_of f) = Some USER \<and> rg_mints r \<and> \<not> accepts_user_identity f)
              ValueError) (\<lambda>_.
       Inr (r\<lparr>rg_tools := rg_tools r @ [(t, f)],
              rg_declarations := rg_declarations r @ [(t, declaration_of f)]\<rparr>)))))))))"

definition resolve :: "registry \<Rightarrow> string \<Rightarrow> host_function option" where
  "resolve r = map_of (rg_tools r)"

definition declaration_for :: "registry \<Rightarrow> string \<Rightarrow> flow_declaration option" where
  "declaration_for r name = (case map_of (rg_declarations r) name of None \<Rightarrow> None | Some d \<Rightarrow> d)"

subsection \<open>The aggregate\<close>

definition registered_identities :: "registry \<Rightarrow> identity set" where
  "registered_identities r = set (concat (map (\<lambda>(n, d). case effective_identity d of None \<Rightarrow> [] | Some i \<Rightarrow> [i])
     (rg_declarations r)))"

text \<open>\<open>aggregate\<close> seals the registry, also when it raises.\<close>

definition aggregate :: "registry \<Rightarrow> host_tool_aggregate result \<times> registry" where
  "aggregate r =
     (let r' = r\<lparr>rg_sealed := True\<rparr>;
          declared = concat (map (\<lambda>(n, d). case d of None \<Rightarrow> [] | Some x \<Rightarrow> [x]) (rg_declarations r));
          undeclared = (\<exists>(n, d) \<in> set (rg_declarations r). d = None);
          sources = concat (map (\<lambda>d. case fd_source d of None \<Rightarrow> [] | Some s \<Rightarrow> [s]) declared)
                    @ (if undeclared then [UNTRUSTED] else [])
      in if rg_require_fides r \<and> rg_tools r \<noteq> [] then (Inl ValueError, r')
         else (Inr \<lparr>result_integrity = (case sources of [] \<Rightarrow> None
                      | s # rest \<Rightarrow> Some (foldl (\<lambda>w x. if integrity_rank x < integrity_rank w then x else w) s rest)),
                   outbound_caps = set (concat (map (\<lambda>d. case fd_sink d of None \<Rightarrow> [] | Some c \<Rightarrow> [c]) declared)),
                   agg_identities = registered_identities r,
                   requires_approval = (USER \<in> registered_identities r),
                   has_undeclared = undeclared,
                   response_limits = rg_limits r,
                   max_host_tool_calls_per_run = rg_max_calls r,
                   tool_names = fst ` set (rg_tools r)\<rparr>, r'))"


subsection \<open>A run\<close>

text \<open>
  The ledgers of one \<open>HostToolRun\<close>: calls made, responses and bytes reserved and delivered,
  whether it is closed, and the identity minted for it.
\<close>

record host_run =
  hr_calls :: int
  hr_reserved :: int
  hr_reserved_bytes :: int
  hr_delivered :: int
  hr_delivered_bytes :: int
  hr_closed :: bool
  hr_minted :: "string option"

definition fresh_run :: host_run where
  "fresh_run = \<lparr>hr_calls = 0, hr_reserved = 0, hr_reserved_bytes = 0, hr_delivered = 0, hr_delivered_bytes = 0,
     hr_closed = False, hr_minted = None\<rparr>"

text \<open>What a guest sends as arguments: nothing, an object (by its keys), or another value.\<close>

datatype call_arguments = No_arguments | Object "(string \<times> string) list" | Other_value

text \<open>Why a call is refused, one constructor per sentence.\<close>

datatype refused_call =
    Fides_required | Calls_exhausted int | Name_not_text | Not_registered string | Undeclared_tool string
  | Identity_not_served string | Arguments_not_object string | Identity_argument string
  | Responses_exhausted int | Bytes_exhausted int | Nothing_fits | Signature_unread string
  | Arguments_unbound string | Mint_failed string | Body_failed string | Not_json string
  | Response_too_large string int | Total_exceeded string int | Timed_out_call

text \<open>
  A refusal quotes the name that did not resolve, cut to a length of the host's choosing.
\<close>

definition max_echoed_chars :: nat where
  "max_echoed_chars = 120"

definition quoted :: "string \<Rightarrow> string" where
  "quoted t = (if length t \<le> max_echoed_chars then t else take max_echoed_chars t @ '' (truncated)'')"

text \<open>A result: the JSON text (as its bytes) or a refusal.\<close>

datatype call_outcome = Value string | Refusal refused_call

text \<open>A call that passed every refusal that needs no response, and holds a reserved slot.\<close>

record admitted_call =
  ac_name :: string
  ac_function :: host_function
  ac_arguments :: "(string \<times> string) list"
  ac_user :: bool
  ac_framing :: int

text \<open>
  The first section of \<open>_run_host_tool_call\<close>, up to the reservation of a slot: a refusal, or the
  call as it goes on.
\<close>

definition admit_call ::
  "registry \<Rightarrow> tool_name \<Rightarrow> call_arguments \<Rightarrow> int \<Rightarrow> host_run \<Rightarrow> (refused_call + admitted_call) \<times> host_run" where
  "admit_call r name args framing run0 =
     (let run = run0\<lparr>hr_calls := hr_calls run0 + 1\<rparr>; limits = rg_limits r
      in (if rg_require_fides r then (Inl Fides_required, run)
          else if hr_calls run > rg_max_calls r then (Inl (Calls_exhausted (rg_max_calls r)), run)
          else (case name of
              Not_text \<Rightarrow> (Inl Name_not_text, run)
            | Text t \<Rightarrow>
                (case resolve r t of
                   None \<Rightarrow> (Inl (Not_registered (quoted t)), run)
                 | Some f \<Rightarrow>
                     (let d = declaration_for r t;
                          user = (case d of None \<Rightarrow> False | Some x \<Rightarrow> fd_identity x = Some USER)
                      in if d = None \<and> rg_require_declared r then (Inl (Undeclared_tool t), run)
                         else if user \<and> \<not> rg_mints r then (Inl (Identity_not_served t), run)
                         else (case (case args of No_arguments \<Rightarrow> Some [] | Object ps \<Rightarrow> Some ps | Other_value \<Rightarrow> None) of
                             None \<Rightarrow> (Inl (Arguments_not_object t), run)
                           | Some given \<Rightarrow>
                               if user \<and> user_identity_parameter \<in> fst ` set given
                               then (Inl (Identity_argument t), run)
                               else if hr_reserved run + 1 > max_files limits
                               then (Inl (Responses_exhausted (max_files limits)), run)
                               else if hr_reserved_bytes run + 1 + framing > max_total_bytes limits
                               then (Inl (Bytes_exhausted (max_total_bytes limits)), run)
                               else if 1 + framing > max_bytes_per_file limits then (Inl Nothing_fits, run)
                               else (Inr \<lparr>ac_name = t, ac_function = f, ac_arguments = given, ac_user = user,
                                         ac_framing = framing\<rparr>,
                                     run\<lparr>hr_reserved := hr_reserved run + 1\<rparr>)))))))"

text \<open>The start of \<open>_deliver\<close>: the signature and the binding, the identity counted as given.\<close>

definition check_binding :: "admitted_call \<Rightarrow> refused_call option" where
  "check_binding c =
     (case hf_signature (ac_function c) of
        None \<Rightarrow> Some (Signature_unread (ac_name c))
      | Some ps \<Rightarrow>
          if binds ps (fst ` set (ac_arguments c) \<union> (if ac_user c then {user_identity_parameter} else {}))
          then None else Some (Arguments_unbound (ac_name c)))"

text \<open>
  The end of \<open>_deliver\<close>, once the body has returned: the response as its JSON bytes, \<open>None\<close> when
  it cannot be carried, is measured and reserved.
\<close>

definition admit_response :: "registry \<Rightarrow> admitted_call \<Rightarrow> string option \<Rightarrow> host_run \<Rightarrow> (refused_call + string) \<times> host_run" where
  "admit_response r c encoded run =
     (case encoded of
        None \<Rightarrow> (Inl (Not_json (ac_name c)), run)
      | Some text \<Rightarrow>
          (let crossing = int (length text) + ac_framing c
           in if crossing > max_bytes_per_file (rg_limits r) then (Inl (Response_too_large (ac_name c) crossing), run)
              else if hr_reserved_bytes run + crossing > max_total_bytes (rg_limits r)
              then (Inl (Total_exceeded (ac_name c) crossing), run)
              else (Inr text, run\<lparr>hr_reserved_bytes := hr_reserved_bytes run + crossing\<rparr>)))"

text \<open>The slot of a call that delivers nothing goes back.\<close>

definition release_slot :: "host_run \<Rightarrow> host_run" where
  "release_slot run = run\<lparr>hr_reserved := hr_reserved run - 1\<rparr>"

text \<open>\<open>_refund_prepared_value\<close> of a value whose bytes were reserved.\<close>

definition refund :: "int \<Rightarrow> host_run \<Rightarrow> host_run" where
  "refund crossing run = (if crossing = 0 then run
     else run\<lparr>hr_reserved := hr_reserved run - 1, hr_reserved_bytes := hr_reserved_bytes run - crossing\<rparr>)"

definition close_run :: "host_run \<Rightarrow> host_run" where
  "close_run run = run\<lparr>hr_closed := True, hr_minted := None\<rparr>"

text \<open>A publication that the transport accepted.\<close>

definition note_delivery :: "int \<Rightarrow> host_run \<Rightarrow> host_run" where
  "note_delivery crossing run =
     run\<lparr>hr_delivered := hr_delivered run + 1, hr_delivered_bytes := hr_delivered_bytes run + crossing\<rparr>"

end
