(* ===== verification/Host_Calls.thy ===== *)
theory Host_Calls
  imports Host_Tools
begin

text \<open>
  The calls of one \<open>HostToolRun\<close> (\<open>_host_tools.py\<close>) as a machine.  Calls of a run may overlap: a
  call is a phase, what it does between two awaits is one step, and an event says which call goes
  on and what the await gave it.  Phases are numbered in the order the calls began.

  The lock of \<open>_user_identity\<close> is held by the call that asks the host's minter: it is free when no
  phase is \<open>Asking\<close>.
\<close>

subsection \<open>Phases\<close>

datatype ending = Delivered | Refused_end | Failed | Cancelled_end | Uncertain

text \<open>
  \<open>Publishing\<close> and \<open>Finished\<close> carry the bytes that stay reserved, \<open>None\<close> for a refusal or a
  call whose reservation went back.
\<close>

datatype phase =
    Minting admitted_call
  | Asking admitted_call
  | In_body admitted_call "string option"
  | Publishing call_outcome "int option"
  | Finished ending "int option"

record body_start =
  bs_name :: string
  bs_function :: host_function
  bs_arguments :: "(string \<times> string) list"
  bs_identity :: "string option"

record host_calls =
  hc_run :: host_run
  hc_phases :: "phase list"
  hc_bodies :: "body_start list"

definition fresh_calls :: host_calls where
  "fresh_calls = \<lparr>hc_run = fresh_run, hc_phases = [], hc_bodies = []\<rparr>"

text \<open>
  What \<open>_refuse_expired_call\<close> finds: the call is in time, its bound has expired before the
  program's deadline, or the deadline is past.  A section that looks twice is given both answers.
\<close>

datatype clock = In_time | Expired | Past_deadline

text \<open>The slot and the bytes a call gives back when it ends without a delivery.\<close>

definition give_back :: "int option \<Rightarrow> host_run \<Rightarrow> host_run" where
  "give_back crossing run = (case crossing of None \<Rightarrow> run | Some n \<Rightarrow> refund n run)"

text \<open>The end of \<open>call\<close> before the publication; a run closed meanwhile publishes nothing.\<close>

definition to_publish :: "call_outcome \<Rightarrow> int option \<Rightarrow> host_run \<Rightarrow> phase \<times> host_run" where
  "to_publish outcome crossing run =
     (if hr_closed run then (Finished Failed None, give_back crossing run)
      else (Publishing outcome crossing, run))"

text \<open>
  A cancellation that reaches \<open>call\<close>: one by the call's own bound is answered by a refusal, any
  other ends the call.
\<close>

definition cancelled_call :: "bool \<Rightarrow> int option \<Rightarrow> host_run \<Rightarrow> phase \<times> host_run" where
  "cancelled_call timed crossing run =
     (if timed then to_publish (Refusal Timed_out_call) None (give_back crossing run)
      else (Finished Cancelled_end None, give_back crossing run))"

text \<open>A result on its way out: \<open>_refuse_expired_call\<close> once more, then the publication.\<close>

definition conclude :: "clock \<Rightarrow> call_outcome \<Rightarrow> int option \<Rightarrow> host_run \<Rightarrow> phase \<times> host_run" where
  "conclude now outcome crossing run =
     (if now = In_time then to_publish outcome crossing run else cancelled_call (now = Expired) crossing run)"

text \<open>The slot of an admitted call goes back with a refusal, or with an exception.\<close>

definition refuse_admitted :: "clock \<Rightarrow> refused_call \<Rightarrow> host_run \<Rightarrow> phase \<times> host_run" where
  "refuse_admitted now why run = conclude now (Refusal why) None (release_slot run)"

text \<open>
  The way into the body: a closed run or an expired bound stops the call before it; otherwise the
  body starts, which is noted.
\<close>

definition enter_body ::
  "clock \<Rightarrow> admitted_call \<Rightarrow> string option \<Rightarrow> host_run \<Rightarrow> body_start list \<Rightarrow> (phase \<times> host_run) \<times> body_start list" where
  "enter_body now c ident run bodies =
     (if hr_closed run then ((Finished Failed None, release_slot run), bodies)
      else if now \<noteq> In_time then (cancelled_call (now = Expired) None (release_slot run), bodies)
      else ((In_body c ident, run),
            bodies @ [\<lparr>bs_name = ac_name c, bs_function = ac_function c, bs_arguments = ac_arguments c,
                       bs_identity = ident\<rparr>]))"

subsection \<open>Sections\<close>

text \<open>From the start of a call to its first await.\<close>

definition begin_call ::
  "registry \<Rightarrow> tool_name \<Rightarrow> call_arguments \<Rightarrow> int \<Rightarrow> clock \<Rightarrow> host_run \<Rightarrow> body_start list \<Rightarrow>
   (phase \<times> host_run) \<times> body_start list" where
  "begin_call r name args framing now run bodies =
     (case admit_call r name args framing run of
        (Inl why, run') \<Rightarrow> (conclude now (Refusal why) None run', bodies)
      | (Inr c, run') \<Rightarrow>
          (case check_binding c of
             Some why \<Rightarrow> (refuse_admitted now why run', bodies)
           | None \<Rightarrow>
               if \<not> ac_user c then enter_body now c None run' bodies
               else (case hr_minted run' of
                   Some ident \<Rightarrow> enter_body now c (Some ident) run' bodies
                 | None \<Rightarrow> ((Minting c, run'), bodies))))"

text \<open>What the host's minter answers; anything but a nonempty string cannot be used.\<close>

datatype minted = Usable string | Unusable

text \<open>With the lock: the cache is read again before the minter is asked.\<close>

definition take_mint_lock ::
  "clock \<Rightarrow> admitted_call \<Rightarrow> host_run \<Rightarrow> body_start list \<Rightarrow> (phase \<times> host_run) \<times> body_start list" where
  "take_mint_lock now c run bodies =
     (if hr_closed run then ((Finished Failed None, release_slot run), bodies)
      else (case hr_minted run of
          Some ident \<Rightarrow> enter_body now c (Some ident) run bodies
        | None \<Rightarrow> ((Asking c, run), bodies)))"

definition minter_answers ::
  "clock \<Rightarrow> clock \<Rightarrow> minted \<Rightarrow> admitted_call \<Rightarrow> host_run \<Rightarrow> body_start list \<Rightarrow> (phase \<times> host_run) \<times> body_start list" where
  "minter_answers now later answer c run bodies =
     (case answer of
        Unusable \<Rightarrow> (refuse_admitted now (Mint_failed (ac_name c)) run, bodies)
      | Usable ident \<Rightarrow>
          if ident = [] then (refuse_admitted now (Mint_failed (ac_name c)) run, bodies)
          else if hr_closed run then ((Finished Failed None, release_slot run), bodies)
          else if now \<noteq> In_time then (cancelled_call (now = Expired) None (release_slot run), bodies)
          else enter_body later c (Some ident) (run\<lparr>hr_minted := Some ident\<rparr>) bodies)"

text \<open>The body's end: its value as JSON bytes (\<open>None\<close>: it cannot be carried), or an exception.\<close>

datatype body_end = Returned "string option" | Body_raised

definition body_ends :: "registry \<Rightarrow> clock \<Rightarrow> clock \<Rightarrow> body_end \<Rightarrow> admitted_call \<Rightarrow> host_run \<Rightarrow> phase \<times> host_run" where
  "body_ends r now later e c run =
     (case e of
        Body_raised \<Rightarrow> refuse_admitted now (Body_failed (ac_name c)) run
      | Returned encoded \<Rightarrow>
          if now \<noteq> In_time then cancelled_call (now = Expired) None (release_slot run)
          else (case admit_response r c encoded run of
              (Inl why, run') \<Rightarrow> refuse_admitted later why run'
            | (Inr text, run') \<Rightarrow> conclude later (Value text) (Some (int (length text) + ac_framing c)) run'))"

text \<open>
  The publication: accepted, or ended by an exception, after which delivery is uncertain, the run
  is closed and the reservation stays.
\<close>

definition published :: "bool \<Rightarrow> call_outcome \<Rightarrow> int option \<Rightarrow> host_run \<Rightarrow> phase \<times> host_run" where
  "published accepted outcome crossing run =
     (if \<not> accepted then (Finished Uncertain crossing, close_run run)
      else (case crossing of
          None \<Rightarrow> (Finished Refused_end None, run)
        | Some n \<Rightarrow> (Finished Delivered crossing, note_delivery n run)))"

subsection \<open>The machine\<close>

datatype host_event =
    Begin tool_name call_arguments int clock
  | Mint_lock nat clock
  | Minter nat clock clock minted
  | Body nat clock clock body_end
  | Publish nat bool
  | Cancel nat bool
  | Close

definition set_phase :: "nat \<Rightarrow> (phase \<times> host_run) \<times> body_start list \<Rightarrow> host_calls \<Rightarrow> host_calls" where
  "set_phase n x st = (case x of ((ph, run), bodies) \<Rightarrow>
     st\<lparr>hc_run := run, hc_phases := (hc_phases st)[n := ph], hc_bodies := bodies\<rparr>)"

definition asking :: "host_calls \<Rightarrow> bool" where
  "asking st \<longleftrightarrow> (\<exists>ph \<in> set (hc_phases st). case ph of Asking _ \<Rightarrow> True | _ \<Rightarrow> False)"

text \<open>
  One step.  An event that does not fit the phase of its call does nothing.  \<open>Begin\<close> on a closed
  run, or with a negative framing, raises and leaves no phase.
\<close>

definition host_step :: "registry \<Rightarrow> host_event \<Rightarrow> host_calls \<Rightarrow> host_calls" where
  "host_step r ev st =
     (let run = hc_run st; spot = (\<lambda>n. if n < length (hc_phases st) then Some (hc_phases st ! n) else None)
      in case ev of
        Begin name args framing now \<Rightarrow>
          if framing < 0 \<or> hr_closed run then st
          else (case begin_call r name args framing now run (hc_bodies st) of
              ((ph, run'), bodies) \<Rightarrow> st\<lparr>hc_run := run', hc_phases := hc_phases st @ [ph], hc_bodies := bodies\<rparr>)
      | Mint_lock n now \<Rightarrow> (case spot n of
            Some (Minting c) \<Rightarrow> if asking st then st else set_phase n (take_mint_lock now c run (hc_bodies st)) st
          | _ \<Rightarrow> st)
      | Minter n now later answer \<Rightarrow> (case spot n of
            Some (Asking c) \<Rightarrow> set_phase n (minter_answers now later answer c run (hc_bodies st)) st
          | _ \<Rightarrow> st)
      | Body n now later e \<Rightarrow> (case spot n of
            Some (In_body c _) \<Rightarrow>
              if e = Returned (Some []) then st else set_phase n (body_ends r now later e c run, hc_bodies st) st
          | _ \<Rightarrow> st)
      | Publish n accepted \<Rightarrow> (case spot n of
            Some (Publishing outcome crossing) \<Rightarrow> set_phase n (published accepted outcome crossing run, hc_bodies st) st
          | _ \<Rightarrow> st)
      | Cancel n timed \<Rightarrow> (case spot n of
            Some (Minting c) \<Rightarrow> set_phase n (cancelled_call timed None (release_slot run), hc_bodies st) st
          | Some (Asking c) \<Rightarrow> set_phase n (cancelled_call timed None (release_slot run), hc_bodies st) st
          | Some (In_body c _) \<Rightarrow> set_phase n (cancelled_call timed None (release_slot run), hc_bodies st) st
          | _ \<Rightarrow> st)
      | Close \<Rightarrow> st\<lparr>hc_run := close_run run\<rparr>)"

definition host_execution :: "registry \<Rightarrow> host_event list \<Rightarrow> host_calls" where
  "host_execution r evs = foldl (\<lambda>st ev. host_step r ev st) fresh_calls evs"

end
