(* ===== verification/Host_Call_Properties.thy ===== *)
theory Host_Call_Properties
  imports Host_Calls
begin

text \<open>
  The properties of host tools: what a registry holds, what bodies a run may start, and the
  ledgers of its overlapping calls.
\<close>

subsection \<open>Ledgers\<close>

text \<open>What a phase holds of the two ledgers, and what it has delivered.\<close>

definition kept :: "int option \<Rightarrow> int \<times> int" where
  "kept x = (case x of None \<Rightarrow> (0, 0) | Some n \<Rightarrow> (1, n))"

fun held_by_phase :: "phase \<Rightarrow> int \<times> int" where
  "held_by_phase (Publishing _ x) = kept x"
| "held_by_phase (Finished _ x) = kept x"
| "held_by_phase _ = (1, 0)"

fun sent_by_phase :: "phase \<Rightarrow> int \<times> int" where
  "sent_by_phase (Finished Delivered x) = kept x"
| "sent_by_phase _ = (0, 0)"

text \<open>A call that passed admission and whose body has not started.\<close>

fun yet_to_run :: "phase \<Rightarrow> nat" where
  "yet_to_run (Minting _) = 1"
| "yet_to_run (Asking _) = 1"
| "yet_to_run _ = 0"

definition total_of :: "(phase \<Rightarrow> int) \<Rightarrow> host_calls \<Rightarrow> int" where
  "total_of f st = sum_list (map f (hc_phases st))"

text \<open>How a section moves the ledgers: from what the call held to what its phase holds.\<close>

definition balanced :: "int \<times> int \<Rightarrow> host_run \<Rightarrow> phase \<times> host_run \<Rightarrow> bool" where
  "balanced before run x \<longleftrightarrow>
     (case x of (ph, run') \<Rightarrow>
        hr_reserved run' = hr_reserved run - fst before + fst (held_by_phase ph)
        \<and> hr_reserved_bytes run' = hr_reserved_bytes run - snd before + snd (held_by_phase ph)
        \<and> hr_delivered run' = hr_delivered run + fst (sent_by_phase ph)
        \<and> hr_delivered_bytes run' = hr_delivered_bytes run + snd (sent_by_phase ph))"

text \<open>What a phase holds is a response within the cap; a refusal holds nothing.\<close>

definition crossing_ok :: "registry \<Rightarrow> int option \<Rightarrow> bool" where
  "crossing_ok r x \<longleftrightarrow> (case x of None \<Rightarrow> True | Some n \<Rightarrow> 0 < n \<and> n \<le> max_bytes_per_file (rg_limits r))"

fun phase_ok :: "registry \<Rightarrow> phase \<Rightarrow> bool" where
  "phase_ok r (Publishing outcome x) \<longleftrightarrow> crossing_ok r x \<and> (x = None \<longleftrightarrow> (\<exists>why. outcome = Refusal why))"
| "phase_ok r (Finished e x) \<longleftrightarrow> crossing_ok r x \<and> (e \<notin> {Delivered, Uncertain} \<longrightarrow> x = None) \<and> (e = Delivered \<longrightarrow> x \<noteq> None)"
| "phase_ok r (Minting c) \<longleftrightarrow> ac_framing c \<ge> 0"
| "phase_ok r (Asking c) \<longleftrightarrow> ac_framing c \<ge> 0"
| "phase_ok r (In_body c _) \<longleftrightarrow> ac_framing c \<ge> 0"

definition within_caps :: "registry \<Rightarrow> host_run \<Rightarrow> bool" where
  "within_caps r run \<longleftrightarrow> hr_reserved run \<le> max_files (rg_limits r) \<and> hr_reserved_bytes run \<le> max_total_bytes (rg_limits r)"

lemmas section_defs = balanced_def conclude_def to_publish_def cancelled_call_def refuse_admitted_def give_back_def
  refund_def release_slot_def kept_def within_caps_def crossing_ok_def

text \<open>A section that gives back what a call held, or keeps it.\<close>

lemma conclude_refusal:
  "balanced (0, 0) run (conclude now (Refusal why) None run)
   \<and> phase_ok r (fst (conclude now (Refusal why) None run))
   \<and> (within_caps r run \<longrightarrow> within_caps r (snd (conclude now (Refusal why) None run)))
   \<and> yet_to_run (fst (conclude now (Refusal why) None run)) = 0"
  by (simp add: section_defs)

lemma refuse_admitted_ok:
  "balanced (1, 0) run (refuse_admitted now why run) \<and> phase_ok r (fst (refuse_admitted now why run))
   \<and> (within_caps r run \<longrightarrow> within_caps r (snd (refuse_admitted now why run)))
   \<and> yet_to_run (fst (refuse_admitted now why run)) = 0"
  by (simp add: section_defs)

lemma cancelled_ok:
  "balanced (1, 0) run (cancelled_call timed None (release_slot run)) \<and> phase_ok r (fst (cancelled_call timed None (release_slot run)))
   \<and> (within_caps r run \<longrightarrow> within_caps r (snd (cancelled_call timed None (release_slot run))))
   \<and> yet_to_run (fst (cancelled_call timed None (release_slot run))) = 0"
  by (simp add: section_defs)

lemma stopped_ok:
  "balanced (1, 0) run (Finished Failed None, release_slot run) \<and> phase_ok r (Finished Failed None)
   \<and> (within_caps r run \<longrightarrow> within_caps r (release_slot run))"
  by (simp add: section_defs)

lemma enter_body_ok:
  assumes "ac_framing c \<ge> 0" and "enter_body now c ident run bodies = (x, bodies')"
  shows "balanced (1, 0) run x \<and> phase_ok r (fst x) \<and> (within_caps r run \<longrightarrow> within_caps r (snd x))
    \<and> yet_to_run (fst x) = 0"
proof -
  consider (stopped) "x = (Finished Failed None, release_slot run)"
    | (late) "x = cancelled_call (now = Expired) None (release_slot run)"
    | (entered) "x = (In_body c ident, run)"
    using assms(2) by (auto simp: enter_body_def split: if_splits)
  then show ?thesis
  proof cases
    case stopped
    then show ?thesis using stopped_ok by simp
  next
    case late
    then show ?thesis using cancelled_ok [of run "now = Expired" r] by simp
  next
    case entered
    then show ?thesis using assms(1) by (simp add: balanced_def)
  qed
qed

lemma admit_call_cases:
  assumes "admit_call r name args framing run = (res, run')"
  shows "hr_calls run' = hr_calls run + 1 \<and> hr_closed run' = hr_closed run \<and> hr_minted run' = hr_minted run
    \<and> hr_reserved_bytes run' = hr_reserved_bytes run \<and> hr_delivered run' = hr_delivered run
    \<and> hr_delivered_bytes run' = hr_delivered_bytes run
    \<and> (case res of Inl _ \<Rightarrow> hr_reserved run' = hr_reserved run
       | Inr c \<Rightarrow> hr_reserved run' = hr_reserved run + 1 \<and> hr_reserved run' \<le> max_files (rg_limits r)
           \<and> hr_calls run' \<le> rg_max_calls r \<and> ac_framing c = framing)"
  using assms
  by (auto simp: admit_call_def Let_def split: if_splits tool_name.splits option.splits call_arguments.splits)

lemma begin_call_ok:
  assumes "framing \<ge> 0" and "begin_call r name args framing now run bodies = (x, bodies')"
  shows "balanced (0, 0) run x \<and> phase_ok r (fst x) \<and> (within_caps r run \<longrightarrow> within_caps r (snd x))"
proof -
  obtain res run1 where ad: "admit_call r name args framing run = (res, run1)" by fastforce
  note facts = admit_call_cases [OF ad]
  show ?thesis
  proof (cases res)
    case (Inl why)
    then have "x = conclude now (Refusal why) None run1" using assms(2) ad by (simp add: begin_call_def)
    with conclude_refusal [of run1 now why r] facts Inl show ?thesis
      by (auto simp: balanced_def within_caps_def split: prod.splits)
  next
    case (Inr c)
    have "balanced (1, 0) run1 x \<and> phase_ok r (fst x) \<and> (within_caps r run1 \<longrightarrow> within_caps r (snd x))"
    proof (cases "check_binding c")
      case (Some why)
      then have "x = refuse_admitted now why run1" using assms(2) ad Inr by (simp add: begin_call_def)
      with refuse_admitted_ok [of run1 now why r] show ?thesis by simp
    next
      case None
      have fr: "ac_framing c \<ge> 0" using facts Inr assms(1) by simp
      consider (enter) ident where "enter_body now c ident run1 bodies = (x, bodies')" | (mint) "x = (Minting c, run1)"
        using assms(2) ad Inr None by (auto simp: begin_call_def split: if_splits option.splits)
      then show ?thesis
      proof cases
        case enter
        then show ?thesis using enter_body_ok [OF fr] by blast
      next
        case mint
        then show ?thesis using fr by (simp add: balanced_def)
      qed
    qed
    with facts Inr show ?thesis by (auto simp: balanced_def within_caps_def split: prod.splits)
  qed
qed

lemma take_mint_lock_ok:
  assumes "ac_framing c \<ge> 0" and "take_mint_lock now c run bodies = (x, bodies')"
  shows "balanced (1, 0) run x \<and> phase_ok r (fst x) \<and> (within_caps r run \<longrightarrow> within_caps r (snd x))"
proof (cases "hr_closed run")
  case True
  then show ?thesis using assms(2) stopped_ok by (auto simp: take_mint_lock_def)
next
  case False
  show ?thesis
  proof (cases "hr_minted run")
    case None
    then have "x = (Asking c, run)" using False assms(2) by (simp add: take_mint_lock_def)
    then show ?thesis using assms(1) by (simp add: balanced_def)
  next
    case (Some ident)
    then have "enter_body now c (Some ident) run bodies = (x, bodies')" using False assms(2) by (simp add: take_mint_lock_def)
    then show ?thesis using enter_body_ok [OF assms(1)] by blast
  qed
qed

lemma minter_answers_ok:
  assumes "ac_framing c \<ge> 0" and "minter_answers now later answer c run bodies = (x, bodies')"
  shows "balanced (1, 0) run x \<and> phase_ok r (fst x) \<and> (within_caps r run \<longrightarrow> within_caps r (snd x))"
proof -
  consider (unusable) "x = refuse_admitted now (Mint_failed (ac_name c)) run"
    | (stopped) "x = (Finished Failed None, release_slot run)"
    | (late) "x = cancelled_call (now = Expired) None (release_slot run)"
    | (enter) ident where "enter_body later c (Some ident) (run\<lparr>hr_minted := Some ident\<rparr>) bodies = (x, bodies')"
    using assms(2) by (auto simp: minter_answers_def split: minted.splits if_splits)
  then show ?thesis
  proof cases
    case unusable
    then show ?thesis using refuse_admitted_ok [of run now _ r] by simp
  next
    case stopped
    then show ?thesis using stopped_ok by simp
  next
    case late
    then show ?thesis using cancelled_ok [of run "now = Expired" r] by simp
  next
    case enter
    from enter_body_ok [OF assms(1) this, of r] show ?thesis by (auto simp: balanced_def within_caps_def split: prod.splits)
  qed
qed

lemma conclude_value:
  assumes "0 < n" and "n \<le> max_bytes_per_file (rg_limits r)"
  shows "balanced (1, n) run (conclude now (Value text) (Some n) run) \<and> phase_ok r (fst (conclude now (Value text) (Some n) run))
    \<and> (within_caps r run \<longrightarrow> within_caps r (snd (conclude now (Value text) (Some n) run)))"
  using assms by (simp add: section_defs)

lemma body_ends_ok:
  assumes "ac_framing c \<ge> 0" and "e \<noteq> Returned (Some [])"
  shows "balanced (1, 0) run (body_ends r now later e c run) \<and> phase_ok r (fst (body_ends r now later e c run))
    \<and> (within_caps r run \<longrightarrow> within_caps r (snd (body_ends r now later e c run)))
    \<and> yet_to_run (fst (body_ends r now later e c run)) = 0"
proof (cases e)
  case Body_raised
  then show ?thesis using refuse_admitted_ok by (simp add: body_ends_def)
next
  case (Returned encoded)
  show ?thesis
  proof (cases "now = In_time")
    case False
    then show ?thesis using Returned cancelled_ok by (simp add: body_ends_def)
  next
    case True
    obtain res run1 where ad: "admit_response r c encoded run = (res, run1)" by fastforce
    show ?thesis
    proof (cases res)
      case (Inl why)
      then have "run1 = run" using ad by (auto simp: admit_response_def Let_def split: option.splits if_splits)
      then show ?thesis using Returned True ad Inl refuse_admitted_ok by (simp add: body_ends_def)
    next
      case (Inr b)
      let ?n = "int (length b) + ac_framing c"
      have facts: "b \<noteq> []" "?n \<le> max_bytes_per_file (rg_limits r)"
        "run1 = run\<lparr>hr_reserved_bytes := hr_reserved_bytes run + ?n\<rparr>"
        "hr_reserved_bytes run + ?n \<le> max_total_bytes (rg_limits r)"
        using ad Inr Returned assms(2) by (auto simp: admit_response_def Let_def split: option.splits if_splits)
      then have "0 < ?n" using assms(1) by (cases b) auto
      from conclude_value [OF this facts(2), of run1 later b] facts Returned True ad Inr show ?thesis
        by (auto simp: body_ends_def balanced_def within_caps_def conclude_def to_publish_def cancelled_call_def split: prod.splits if_splits)
    qed
  qed
qed

lemma published_ok:
  assumes "phase_ok r (Publishing outcome x)"
  shows "balanced (kept x) run (published accepted outcome x run) \<and> phase_ok r (fst (published accepted outcome x run))
    \<and> (within_caps r run \<longrightarrow> within_caps r (snd (published accepted outcome x run)))
    \<and> yet_to_run (fst (published accepted outcome x run)) = 0"
  using assms
  by (auto simp: published_def balanced_def kept_def within_caps_def close_run_def note_delivery_def crossing_ok_def split: option.splits)

lemma sum_list_update_int:
  fixes f :: "'a \<Rightarrow> int"
  assumes "n < length xs"
  shows "sum_list (map f (xs[n := y])) = sum_list (map f xs) - f (xs ! n) + f y"
  using assms by (induction xs arbitrary: n) (auto simp: less_Suc_eq_0_disj)

text \<open>The ledgers of a run are the sums of what its phases hold and have delivered.\<close>

definition ledgers :: "registry \<Rightarrow> host_calls \<Rightarrow> bool" where
  "ledgers r st \<longleftrightarrow>
     hr_reserved (hc_run st) = total_of (fst \<circ> held_by_phase) st
     \<and> hr_reserved_bytes (hc_run st) = total_of (snd \<circ> held_by_phase) st
     \<and> hr_delivered (hc_run st) = total_of (fst \<circ> sent_by_phase) st
     \<and> hr_delivered_bytes (hc_run st) = total_of (snd \<circ> sent_by_phase) st
     \<and> (\<forall>ph \<in> set (hc_phases st). phase_ok r ph)
     \<and> within_caps r (hc_run st)"

text \<open>A phase replaced by the outcome of a section that moved the ledgers by the difference.\<close>

lemma ledgers_set_phase:
  assumes "ledgers r st" and "n < length (hc_phases st)"
    and "sent_by_phase (hc_phases st ! n) = (0, 0)"
    and "balanced (held_by_phase (hc_phases st ! n)) (hc_run st) x \<and> phase_ok r (fst x)
      \<and> (within_caps r (hc_run st) \<longrightarrow> within_caps r (snd x))"
  shows "ledgers r (set_phase n (x, bodies) st)"
proof -
  obtain ph run where x: "x = (ph, run)" by (cases x)
  have "\<forall>q \<in> set ((hc_phases st)[n := ph]). phase_ok r q"
    using assms(1,4) x by (auto simp: ledgers_def dest!: set_update_subset_insert [THEN subsetD])
  then show ?thesis using assms x
    by (simp add: ledgers_def set_phase_def total_of_def balanced_def sum_list_update_int)
qed

lemma ledgers_begin:
  assumes "ledgers r st" and "balanced (0, 0) (hc_run st) (ph, run) \<and> phase_ok r ph \<and> (within_caps r (hc_run st) \<longrightarrow> within_caps r run)"
  shows "ledgers r (st\<lparr>hc_run := run, hc_phases := hc_phases st @ [ph], hc_bodies := bodies\<rparr>)"
  using assms by (auto simp: ledgers_def total_of_def balanced_def)

lemma ledgers_close: "ledgers r st \<Longrightarrow> ledgers r (st\<lparr>hc_run := close_run (hc_run st)\<rparr>)"
  by (simp add: ledgers_def total_of_def within_caps_def close_run_def)

text \<open>The steps of the machine, one by one.\<close>

lemma host_step_cases:
  obtains (idle) "host_step r ev st = st"
  | (starts) name args framing now ph run bodies where "ev = Begin name args framing now" "framing \<ge> 0" "\<not> hr_closed (hc_run st)"
      "begin_call r name args framing now (hc_run st) (hc_bodies st) = ((ph, run), bodies)"
      "host_step r ev st = st\<lparr>hc_run := run, hc_phases := hc_phases st @ [ph], hc_bodies := bodies\<rparr>"
  | (lock) n now c where "n < length (hc_phases st)" "hc_phases st ! n = Minting c" "\<not> asking st"
      "host_step r ev st = set_phase n (take_mint_lock now c (hc_run st) (hc_bodies st)) st"
  | (mint) n now later answer c where "n < length (hc_phases st)" "hc_phases st ! n = Asking c"
      "host_step r ev st = set_phase n (minter_answers now later answer c (hc_run st) (hc_bodies st)) st"
  | (ends) n now later e c i where "n < length (hc_phases st)" "hc_phases st ! n = In_body c i" "e \<noteq> Returned (Some [])"
      "host_step r ev st = set_phase n (body_ends r now later e c (hc_run st), hc_bodies st) st"
  | (publish) n accepted outcome crossing where "n < length (hc_phases st)" "hc_phases st ! n = Publishing outcome crossing"
      "host_step r ev st = set_phase n (published accepted outcome crossing (hc_run st), hc_bodies st) st"
  | (cancel) n timed c i where "n < length (hc_phases st)" "hc_phases st ! n \<in> {Minting c, Asking c, In_body c i}"
      "host_step r ev st = set_phase n (cancelled_call timed None (release_slot (hc_run st)), hc_bodies st) st"
  | (close) "host_step r ev st = st\<lparr>hc_run := close_run (hc_run st)\<rparr>"
proof (cases ev)
  case (Begin name args framing now)
  obtain ph run bodies where b: "begin_call r name args framing now (hc_run st) (hc_bodies st) = ((ph, run), bodies)"
    by (metis prod.exhaust)
  show ?thesis
  proof (cases "framing < 0 \<or> hr_closed (hc_run st)")
    case True
    then have "host_step r ev st = st" using Begin by (simp add: host_step_def)
    then show ?thesis by (rule idle)
  next
    case False
    then have "host_step r ev st = st\<lparr>hc_run := run, hc_phases := hc_phases st @ [ph], hc_bodies := bodies\<rparr>"
      using Begin b by (simp add: host_step_def)
    with False Begin b show ?thesis by (auto intro: starts)
  qed
next
  case (Mint_lock n now)
  then show ?thesis
    by (cases "n < length (hc_phases st)"; cases "hc_phases st ! n"; cases "asking st")
       (auto simp: host_step_def intro: idle lock [of n _ now] split: if_splits)
next
  case (Minter n now later answer)
  then show ?thesis
    by (cases "n < length (hc_phases st)"; cases "hc_phases st ! n")
       (auto simp: host_step_def intro: idle mint [of n _ now later answer] split: if_splits)
next
  case (Body n now later e)
  then show ?thesis
    by (cases "n < length (hc_phases st)"; cases "hc_phases st ! n"; cases "e = Returned (Some [])")
       (auto simp: host_step_def intro: idle ends [of n _ _ e now later] split: if_splits)
next
  case (Publish n accepted)
  then show ?thesis
    by (cases "n < length (hc_phases st)"; cases "hc_phases st ! n")
       (auto simp: host_step_def intro: idle publish [of n _ _ accepted] split: if_splits)
next
  case (Cancel n timed)
  then show ?thesis
    by (cases "n < length (hc_phases st)"; cases "hc_phases st ! n")
       (auto simp: host_step_def intro: idle cancel [of n _ _ timed] split: if_splits)
next
  case Close
  then show ?thesis using close by (simp add: host_step_def)
qed

text \<open>Every step keeps the ledgers.\<close>

lemma ledgers_step:
  assumes inv: "ledgers r st"
  shows "ledgers r (host_step r ev st)"
proof (cases r ev st rule: host_step_cases)
  case idle
  then show ?thesis using inv by simp
next
  case (starts name args framing now ph run bodies)
  from begin_call_ok [OF starts(2,4)] show ?thesis
    unfolding starts(5) by (intro ledgers_begin [OF inv]) simp
next
  case (lock n now c)
  obtain x bodies where s: "take_mint_lock now c (hc_run st) (hc_bodies st) = (x, bodies)" by fastforce
  have "ac_framing c \<ge> 0" using inv lock(1,2) by (force simp: ledgers_def in_set_conv_nth)
  from take_mint_lock_ok [OF this s, of r] show ?thesis
    unfolding lock(4) s by (intro ledgers_set_phase [OF inv lock(1)]) (simp_all add: lock(2))
next
  case (mint n now later answer c)
  obtain x bodies where s: "minter_answers now later answer c (hc_run st) (hc_bodies st) = (x, bodies)" by fastforce
  have "ac_framing c \<ge> 0" using inv mint(1,2) by (force simp: ledgers_def in_set_conv_nth)
  from minter_answers_ok [OF this s, of r] show ?thesis
    unfolding mint(3) s by (intro ledgers_set_phase [OF inv mint(1)]) (simp_all add: mint(2))
next
  case (ends n now later e c i)
  have "ac_framing c \<ge> 0" using inv ends(1,2) by (force simp: ledgers_def in_set_conv_nth)
  from body_ends_ok [OF this ends(3), of "hc_run st" r now later] show ?thesis
    unfolding ends(4) by (intro ledgers_set_phase [OF inv ends(1)]) (simp_all add: ends(2))
next
  case (publish n accepted outcome crossing)
  have "phase_ok r (Publishing outcome crossing)" using inv publish(1,2) by (metis ledgers_def nth_mem)
  from published_ok [OF this, of "hc_run st" accepted] show ?thesis
    unfolding publish(3) by (intro ledgers_set_phase [OF inv publish(1)]) (simp_all add: publish(2))
next
  case (cancel n timed c i)
  then have "held_by_phase (hc_phases st ! n) = (1, 0)" "sent_by_phase (hc_phases st ! n) = (0, 0)" by auto
  with cancelled_ok [of "hc_run st" timed r] show ?thesis
    unfolding cancel(3) by (intro ledgers_set_phase [OF inv cancel(1)]) simp_all
next
  case close
  then show ?thesis using inv ledgers_close by simp
qed

text \<open>Rule for invariants of an execution.\<close>

lemma host_execution_invariant:
  assumes "I fresh_calls" and "\<And>st ev. I st \<Longrightarrow> I (host_step r ev st)"
  shows "I (host_execution r evs)"
  by (induction evs rule: rev_induct) (simp_all add: host_execution_def assms)

text \<open>A registry as a host makes one: constructed, then registered with and aggregated in any order.\<close>

inductive built :: "registry_args \<Rightarrow> registry \<Rightarrow> bool" where
  constructed: "registry_init a = Inr r \<Longrightarrow> built a r"
| registered: "built a r \<Longrightarrow> register f name r = Inr r' \<Longrightarrow> built a r'"
| aggregated: "built a r \<Longrightarrow> built a (snd (aggregate r))"

lemma aggregate_registry: "snd (aggregate r) = r\<lparr>rg_sealed := True\<rparr>"
  by (simp add: aggregate_def Let_def)

lemma registerE:
  assumes "register f name r = Inr r'"
  obtains t where "\<not> rg_sealed r" "hf_callable f" "t \<noteq> []" "map_of (rg_tools r) t = None"
    "rg_require_declared r \<longrightarrow> declaration_of f \<noteq> None"
    "\<And>i. effective_identity (declaration_of f) = Some i \<Longrightarrow> i \<in> rg_allowed r"
    "r' = r\<lparr>rg_tools := rg_tools r @ [(t, f)], rg_declarations := rg_declarations r @ [(t, declaration_of f)]\<rparr>"
  using assms by (auto simp: register_def bindE_def raiseIf_def split: if_splits sum.splits tool_name.splits option.splits)

lemma built_limits:
  "built a r \<Longrightarrow> rg_max_calls r \<ge> 1 \<and> max_files (rg_limits r) \<ge> 1 \<and> max_total_bytes (rg_limits r) \<ge> 1
     \<and> max_bytes_per_file (rg_limits r) \<ge> 1"
proof (induction rule: built.induct)
  case (constructed a r)
  then show ?case
    by (auto simp: registry_init_def positive_count_def plain_count_def bindE_def raiseIf_def
        split: if_splits sum.splits count_arg.splits option.splits bool_arg.splits identities_arg.splits)
next
  case (registered a r f name r')
  then show ?case by (auto elim!: registerE)
qed (simp add: aggregate_registry)

lemma ledgers_fresh: "built a r \<Longrightarrow> ledgers r fresh_calls"
  using built_limits [of a r] by (simp add: ledgers_def fresh_calls_def fresh_run_def total_of_def within_caps_def)

lemma ledgers_execution: "built a r \<Longrightarrow> ledgers r (host_execution r evs)"
  by (rule host_execution_invariant) (simp_all add: ledgers_fresh ledgers_step)

text \<open>The sizes, framing included, of the responses a run has delivered.\<close>

fun delivered_size :: "phase \<Rightarrow> int list" where
  "delivered_size (Finished Delivered (Some n)) = [n]"
| "delivered_size _ = []"

definition delivered_sizes :: "host_calls \<Rightarrow> int list" where
  "delivered_sizes st = concat (map delivered_size (hc_phases st))"

lemma delivered_size_sent:
  "phase_ok r ph \<Longrightarrow> fst (sent_by_phase ph) = int (length (delivered_size ph))
     \<and> snd (sent_by_phase ph) = sum_list (delivered_size ph)"
  by (cases ph rule: sent_by_phase.cases; cases ph rule: delivered_size.cases)
     (auto simp: kept_def)

lemma sent_is_held:
  "phase_ok r ph \<Longrightarrow> fst (sent_by_phase ph) \<le> fst (held_by_phase ph) \<and> snd (sent_by_phase ph) \<le> snd (held_by_phase ph)"
  by (cases ph rule: sent_by_phase.cases) (auto simp: kept_def crossing_ok_def split: option.splits)

lemma delivered_sizes_sent:
  assumes "\<forall>ph \<in> set phs. phase_ok r ph"
  shows "sum_list (map (fst \<circ> sent_by_phase) phs) = int (length (concat (map delivered_size phs)))
    \<and> sum_list (map (snd \<circ> sent_by_phase) phs) = sum_list (concat (map delivered_size phs))"
  using assms by (induction phs) (simp_all add: delivered_size_sent [of r])

lemma delivered_size_ok:
  "phase_ok r ph \<Longrightarrow> n \<in> set (delivered_size ph) \<Longrightarrow> 0 < n \<and> n \<le> max_bytes_per_file (rg_limits r)"
  by (cases ph rule: delivered_size.cases) (auto simp: crossing_ok_def)

text \<open>
  C10: What a run delivers stays within the limits of its registry, however its calls overlap, end or
  are cancelled: the ledger of deliveries is the responses delivered, none of them larger than the
  cap of one response, and their number and total within what is reserved, which never
  passes the caps.
\<close>

theorem responses_stay_within_the_limits:
  assumes "built a r"
  shows "let st = host_execution r evs; run = hc_run st; sizes = delivered_sizes st; limits = rg_limits r
    in hr_delivered run = int (length sizes) \<and> hr_delivered_bytes run = sum_list sizes
       \<and> list_all (\<lambda>n. 0 < n \<and> n \<le> max_bytes_per_file limits) sizes
       \<and> hr_delivered run \<le> hr_reserved run \<and> hr_reserved run \<le> max_files limits
       \<and> hr_delivered_bytes run \<le> hr_reserved_bytes run \<and> hr_reserved_bytes run \<le> max_total_bytes limits"
proof -
  define st where "st = host_execution r evs"
  have l: "ledgers r st" unfolding st_def by (rule ledgers_execution [OF assms])
  then have ok: "\<forall>ph \<in> set (hc_phases st). phase_ok r ph" by (simp add: ledgers_def)
  then have le: "total_of (fst \<circ> sent_by_phase) st \<le> total_of (fst \<circ> held_by_phase) st"
    "total_of (snd \<circ> sent_by_phase) st \<le> total_of (snd \<circ> held_by_phase) st"
    using sent_is_held [of r] unfolding total_of_def by (auto intro!: sum_list_mono)
  have "list_all (\<lambda>n. 0 < n \<and> n \<le> max_bytes_per_file (rg_limits r)) (delivered_sizes st)"
    using ok by (auto simp: list_all_iff delivered_sizes_def dest: delivered_size_ok)
  then show ?thesis
    using l le delivered_sizes_sent [OF ok]
    by (simp add: Let_def st_def [symmetric] ledgers_def within_caps_def total_of_def delivered_sizes_def)
qed

subsection \<open>Bodies\<close>

text \<open>What the first section of a call has established once the call is admitted.\<close>

definition acts_as_user :: "registry \<Rightarrow> string \<Rightarrow> bool" where
  "acts_as_user r t = (case declaration_for r t of None \<Rightarrow> False | Some d \<Rightarrow> fd_identity d = Some USER)"

definition served :: "registry \<Rightarrow> admitted_call \<Rightarrow> bool" where
  "served r c \<longleftrightarrow>
     \<not> rg_require_fides r \<and> resolve r (ac_name c) = Some (ac_function c)
     \<and> (rg_require_declared r \<longrightarrow> declaration_for r (ac_name c) \<noteq> None)
     \<and> ac_user c = acts_as_user r (ac_name c)
     \<and> (ac_user c \<longrightarrow> rg_mints r \<and> user_identity_parameter \<notin> fst ` set (ac_arguments c))
     \<and> check_binding c = None"

fun call_of :: "phase \<Rightarrow> admitted_call option" where
  "call_of (Minting c) = Some c"
| "call_of (Asking c) = Some c"
| "call_of (In_body c _) = Some c"
| "call_of _ = None"

text \<open>The note of a body that was started for an admitted call.\<close>

definition noted :: "admitted_call \<Rightarrow> string option \<Rightarrow> body_start" where
  "noted c ident = \<lparr>bs_name = ac_name c, bs_function = ac_function c, bs_arguments = ac_arguments c, bs_identity = ident\<rparr>"

text \<open>
  How a section of a call \<open>c\<close> moves the log of bodies: it may start one body, that of \<open>c\<close>, with the
  identity of the run when \<open>c\<close> acts as the user, and only in a run that is open.
\<close>

definition section_of :: "admitted_call \<Rightarrow> host_run \<Rightarrow> body_start list \<Rightarrow> (phase \<times> host_run) \<times> body_start list \<Rightarrow> bool" where
  "section_of c run bodies res \<longleftrightarrow> (case res of ((ph, run'), bodies') \<Rightarrow>
     hr_calls run' = hr_calls run \<and> hr_closed run' = hr_closed run
     \<and> (call_of ph = None \<or> call_of ph = Some c) \<and> (yet_to_run ph \<noteq> 0 \<longrightarrow> ac_user c \<and> bodies' = bodies)
     \<and> (hr_minted run' = hr_minted run \<or> hr_minted run = None \<and> \<not> hr_closed run)
     \<and> (bodies' = bodies
        \<or> (\<exists>ident. bodies' = bodies @ [noted c ident] \<and> \<not> hr_closed run
             \<and> (if ac_user c then ident \<noteq> None \<and> ident = hr_minted run' else ident = None)
             \<and> hr_minted run' \<in> {hr_minted run, ident})))"

lemmas run_defs = release_slot_def refund_def give_back_def to_publish_def cancelled_call_def conclude_def refuse_admitted_def

lemma enter_body_section:
  assumes "if ac_user c then ident \<noteq> None \<and> ident = hr_minted run else ident = None"
  shows "section_of c run bodies (enter_body now c ident run bodies)"
  using assms by (auto simp: section_of_def enter_body_def noted_def run_defs)

lemma take_mint_lock_section:
  assumes "ac_user c"
  shows "section_of c run bodies (take_mint_lock now c run bodies)"
  using assms enter_body_section [of c "hr_minted run" run bodies now]
  by (auto simp: take_mint_lock_def section_of_def run_defs split: option.splits)

lemma minter_answers_section:
  assumes "ac_user c" and "hr_minted run = None"
  shows "section_of c run bodies (minter_answers now later answer c run bodies)"
  using assms
  by (cases answer) (auto simp: minter_answers_def section_of_def enter_body_def noted_def run_defs)

lemma body_ends_section: "section_of c run bodies (body_ends r now later e c run, bodies)"
  by (auto simp: body_ends_def section_of_def admit_response_def Let_def run_defs
      split: body_end.splits option.splits prod.splits if_splits)

lemma cancelled_section: "section_of c run bodies (cancelled_call timed None (release_slot run), bodies)"
  by (simp add: section_of_def run_defs)

lemma admit_call_served:
  assumes "admit_call r name args framing run = (Inr c, run')"
  shows "(check_binding c = None \<longrightarrow> served r c)"
  using assms
  by (auto simp: admit_call_def served_def acts_as_user_def Let_def
      split: if_splits tool_name.splits option.splits call_arguments.splits)

lemma begin_call_section:
  assumes "begin_call r name args framing now run bodies = ((ph, run'), bodies')"
  shows "(bodies' = bodies \<and> call_of ph = None \<and> hr_calls run' = hr_calls run + 1
      \<and> hr_closed run' = hr_closed run \<and> hr_minted run' = hr_minted run)
    \<or> (\<exists>c run1. served r c \<and> hr_calls run1 = hr_calls run + 1 \<and> hr_calls run1 \<le> rg_max_calls r
      \<and> hr_closed run1 = hr_closed run \<and> hr_minted run1 = hr_minted run
      \<and> section_of c run1 bodies ((ph, run'), bodies') \<and> (\<forall>c. ph \<noteq> Asking c)
      \<and> hr_minted run' = hr_minted run1)"
proof -
  obtain res run1 where ad: "admit_call r name args framing run = (res, run1)" by fastforce
  note facts = admit_call_cases [OF ad]
  show ?thesis
  proof (cases res)
    case (Inl why)
    then show ?thesis using assms ad facts by (auto simp: begin_call_def run_defs split: if_splits)
  next
    case (Inr c)
    show ?thesis
    proof (cases "check_binding c")
      case (Some why)
      then show ?thesis using assms ad facts Inr by (auto simp: begin_call_def run_defs split: if_splits)
    next
      case None
      then have sv: "served r c" using admit_call_served ad Inr by blast
      have "section_of c run1 bodies ((ph, run'), bodies') \<and> (\<forall>c. ph \<noteq> Asking c) \<and> hr_minted run' = hr_minted run1"
        using assms ad Inr None enter_body_section [of c None run1 bodies now] enter_body_section [of c "hr_minted run1" run1 bodies now]
        by (auto simp: begin_call_def enter_body_def run_defs section_of_def noted_def split: if_splits option.splits)
      with sv facts Inr show ?thesis
        by (intro disjI2 exI [where x = c] exI [where x = run1]) simp
    qed
  qed
qed

text \<open>
  The log of a run: every body was started for a call the registry serves, admitted calls and
  started bodies are within the calls counted and the cap, the identity of the run is the one given
  to every body that acts as the user, and one call at most asks the host for it.
\<close>

definition number_of :: "(phase \<Rightarrow> nat) \<Rightarrow> host_calls \<Rightarrow> nat" where
  "number_of f st = sum_list (map f (hc_phases st))"

fun is_asking :: "phase \<Rightarrow> nat" where
  "is_asking (Asking _) = 1"
| "is_asking _ = 0"

definition body_ok :: "registry \<Rightarrow> body_start \<Rightarrow> bool" where
  "body_ok r b \<longleftrightarrow> (\<exists>c ident. served r c \<and> b = noted c ident \<and> (ac_user c \<longleftrightarrow> ident \<noteq> None))"

lemma body_okI: "served r c \<Longrightarrow> ac_user c \<longleftrightarrow> ident \<noteq> None \<Longrightarrow> body_ok r (noted c ident)"
  by (auto simp: body_ok_def)

definition identities_agree :: "host_run \<Rightarrow> body_start list \<Rightarrow> bool" where
  "identities_agree run bodies \<longleftrightarrow>
     (\<exists>m. (\<forall>b \<in> set bodies. bs_identity b \<in> {None, m}) \<and> (hr_closed run \<or> m \<in> {None, hr_minted run}))"

definition log_ok :: "registry \<Rightarrow> host_calls \<Rightarrow> bool" where
  "log_ok r st \<longleftrightarrow>
     (\<forall>ph \<in> set (hc_phases st). \<forall>c. call_of ph = Some c \<longrightarrow> served r c \<and> (yet_to_run ph \<noteq> 0 \<longrightarrow> ac_user c))
     \<and> (\<forall>b \<in> set (hc_bodies st). body_ok r b)
     \<and> int (length (hc_bodies st) + number_of yet_to_run st) \<le> min (hr_calls (hc_run st)) (rg_max_calls r)
     \<and> identities_agree (hc_run st) (hc_bodies st)
     \<and> number_of is_asking st \<le> 1
     \<and> (number_of is_asking st = 1 \<longrightarrow> hr_minted (hc_run st) = None)"

lemma sum_list_update_nat:
  fixes f :: "'a \<Rightarrow> nat"
  assumes "n < length xs"
  shows "sum_list (map f (xs[n := y])) + f (xs ! n) = sum_list (map f xs) + f y"
  using assms by (induction xs arbitrary: n) (auto simp: less_Suc_eq_0_disj)

lemma is_asking_none: "\<not> asking st \<longleftrightarrow> number_of is_asking st = 0"
proof -
  have "\<not> (case ph of Asking x \<Rightarrow> True | _ \<Rightarrow> False) \<longleftrightarrow> is_asking ph = 0" for ph by (cases ph) simp_all
  then show ?thesis by (auto simp: asking_def number_of_def)
qed

lemma identities_agree_open:
  "\<not> hr_closed run \<Longrightarrow> identities_agree run bodies \<longleftrightarrow> (\<forall>b \<in> set bodies. bs_identity b \<in> {None, hr_minted run})"
  by (auto simp: identities_agree_def)

lemma identities_agree_section:
  assumes "identities_agree run bodies" and sec: "section_of c run bodies ((ph, run'), bodies')"
  shows "identities_agree run' bodies'"
proof (cases "hr_closed run")
  case True
  with sec have "bodies' = bodies" "hr_closed run'" by (auto simp: section_of_def)
  with assms(1) True show ?thesis by (simp add: identities_agree_def)
next
  case False
  then have before: "\<forall>b \<in> set bodies. bs_identity b \<in> {None, hr_minted run}"
    using assms(1) identities_agree_open by blast
  have op: "\<not> hr_closed run'" and keeps: "hr_minted run' = hr_minted run \<or> hr_minted run = None"
    using sec False by (auto simp: section_of_def)
  have old: "\<forall>b \<in> set bodies. bs_identity b \<in> {None, hr_minted run'}"
    using before keeps by (cases "hr_minted run' = hr_minted run") auto
  have "bodies' = bodies \<or> (\<exists>ident. bodies' = bodies @ [noted c ident] \<and> ident \<in> {None, hr_minted run'})"
    using sec unfolding section_of_def by (auto split: if_splits)
  then have "\<forall>b \<in> set bodies'. bs_identity b \<in> {None, hr_minted run'}"
    using old by (auto simp: noted_def)
  with identities_agree_open [OF op] show ?thesis by blast
qed

lemma log_set_phase:
  assumes inv: "log_ok r st" and n: "n < length (hc_phases st)"
    and ids: "identities_agree run' bodies'" and calls: "hr_calls run' = hr_calls (hc_run st)"
    and ph: "\<And>c. call_of ph = Some c \<Longrightarrow> served r c \<and> (yet_to_run ph \<noteq> 0 \<longrightarrow> ac_user c)"
    and bodies: "\<forall>b \<in> set bodies'. body_ok r b"
    and count: "length bodies' + yet_to_run ph \<le> length (hc_bodies st) + yet_to_run (hc_phases st ! n)"
    and mint: "is_asking ph \<le> is_asking (hc_phases st ! n) \<or> \<not> asking st \<and> hr_minted run' = None"
    and minted: "hr_minted run' \<in> {hr_minted (hc_run st), None} \<or> is_asking (hc_phases st ! n) = 1 \<and> is_asking ph = 0"
  shows "log_ok r (set_phase n ((ph, run'), bodies') st)"
proof -
  let ?st = "set_phase n ((ph, run'), bodies') st"
  have yet: "number_of yet_to_run ?st + yet_to_run (hc_phases st ! n) = number_of yet_to_run st + yet_to_run ph"
    and ask: "number_of is_asking ?st + is_asking (hc_phases st ! n) = number_of is_asking st + is_asking ph"
    using sum_list_update_nat [OF n] by (simp_all add: number_of_def set_phase_def)
  have "\<forall>q \<in> set (hc_phases ?st). \<forall>c. call_of q = Some c \<longrightarrow> served r c \<and> (yet_to_run q \<noteq> 0 \<longrightarrow> ac_user c)"
    using inv ph set_update_subset_insert [of "hc_phases st" n ph] by (auto simp: log_ok_def set_phase_def)
  moreover have "int (length bodies' + number_of yet_to_run ?st) \<le> min (hr_calls run') (rg_max_calls r)"
    using inv yet count calls by (simp add: log_ok_def)
  moreover have "is_asking (hc_phases st ! n) \<le> 1" "is_asking ph \<le> 1" by (cases "hc_phases st ! n"; cases ph; simp)+
  then have "number_of is_asking ?st \<le> 1 \<and> (number_of is_asking ?st = 1 \<longrightarrow> hr_minted run' = None)"
    using inv ask mint minted is_asking_none [of st] by (auto simp: log_ok_def)
  ultimately show ?thesis using ids bodies by (simp add: log_ok_def set_phase_def)
qed

text \<open>A section of a call that runs at position \<open>n\<close>.\<close>

lemma log_section:
  assumes inv: "log_ok r st" and n: "n < length (hc_phases st)" and c: "call_of (hc_phases st ! n) = Some c"
    and sec: "section_of c (hc_run st) (hc_bodies st) ((ph, run'), bodies')"
    and count: "length bodies' + yet_to_run ph \<le> length (hc_bodies st) + yet_to_run (hc_phases st ! n)"
    and mint: "is_asking ph \<le> is_asking (hc_phases st ! n) \<or> \<not> asking st \<and> hr_minted run' = None"
    and minted: "hr_minted run' \<in> {hr_minted (hc_run st), None} \<or> is_asking (hc_phases st ! n) = 1 \<and> is_asking ph = 0"
  shows "log_ok r (set_phase n ((ph, run'), bodies') st)"
proof (rule log_set_phase [OF inv n _ _ _ _ count mint minted])
  have "hc_phases st ! n \<in> set (hc_phases st)" using n by simp
  then have srv: "served r c" using inv c unfolding log_ok_def by blast
  show "identities_agree run' bodies'"
    using identities_agree_section [OF _ sec] inv by (simp add: log_ok_def)
  show "hr_calls run' = hr_calls (hc_run st)" using sec by (simp add: section_of_def)
  show "\<And>c. call_of ph = Some c \<Longrightarrow> served r c \<and> (yet_to_run ph \<noteq> 0 \<longrightarrow> ac_user c)"
    using sec srv by (auto simp: section_of_def)
  have "bodies' = hc_bodies st \<or> (\<exists>ident. bodies' = hc_bodies st @ [noted c ident] \<and> (ac_user c \<longleftrightarrow> ident \<noteq> None))"
    using sec unfolding section_of_def by (auto split: if_splits)
  moreover have "\<forall>b \<in> set (hc_bodies st). body_ok r b"
    using inv unfolding log_ok_def by blast
  ultimately show "\<forall>b \<in> set bodies'. body_ok r b"
    using body_okI [OF srv] by auto
qed

text \<open>What the sections do to the counts.\<close>

lemma enter_body_counts:
  "enter_body now c ident run bodies = ((ph, run'), bodies') \<Longrightarrow>
     length bodies' + yet_to_run ph \<le> Suc (length bodies) \<and> is_asking ph = 0 \<and> hr_minted run' = hr_minted run"
  by (auto simp: enter_body_def run_defs split: if_splits)

lemma take_mint_lock_counts:
  assumes "take_mint_lock now c run bodies = ((ph, run'), bodies')"
  shows "length bodies' + yet_to_run ph \<le> Suc (length bodies) \<and> hr_minted run' = hr_minted run
    \<and> (is_asking ph \<noteq> 0 \<longrightarrow> hr_minted run' = None)"
  using assms enter_body_counts [of now c "hr_minted run" run bodies]
  by (auto simp: take_mint_lock_def run_defs split: if_splits option.splits)

lemma minter_answers_counts:
  assumes "minter_answers now later answer c run bodies = ((ph, run'), bodies')"
  shows "length bodies' + yet_to_run ph \<le> Suc (length bodies) \<and> is_asking ph = 0"
  using assms
  by (auto simp: minter_answers_def run_defs enter_body_def split: if_splits minted.splits)

lemma quiet_counts:
  "yet_to_run (fst (cancelled_call timed x run)) = 0 \<and> is_asking (fst (cancelled_call timed x run)) = 0
     \<and> hr_minted (snd (cancelled_call timed x run)) = hr_minted run"
  "yet_to_run (fst (body_ends r now later e c run)) = 0 \<and> is_asking (fst (body_ends r now later e c run)) = 0
     \<and> hr_minted (snd (body_ends r now later e c run)) = hr_minted run"
  by (auto simp: body_ends_def run_defs admit_response_def Let_def
      split: body_end.splits option.splits prod.splits if_splits)

lemma log_close: "log_ok r st \<Longrightarrow> log_ok r (st\<lparr>hc_run := close_run (hc_run st)\<rparr>)"
  by (auto simp: log_ok_def close_run_def identities_agree_def number_of_def)

lemma identities_agree_published:
  "identities_agree run bodies \<Longrightarrow> identities_agree (snd (published accepted outcome x run)) bodies"
  by (auto simp: published_def identities_agree_def close_run_def note_delivery_def split: option.splits)

lemma published_quiet:
  "call_of (fst (published accepted outcome x run)) = None \<and> yet_to_run (fst (published accepted outcome x run)) = 0
   \<and> is_asking (fst (published accepted outcome x run)) = 0
   \<and> hr_calls (snd (published accepted outcome x run)) = hr_calls run
   \<and> hr_minted (snd (published accepted outcome x run)) \<in> {hr_minted run, None}"
  by (auto simp: published_def close_run_def note_delivery_def split: option.splits)

lemma log_begin:
  assumes inv: "log_ok r st"
    and b: "begin_call r name args framing now (hc_run st) (hc_bodies st) = ((ph, run'), bodies')"
  shows "log_ok r (st\<lparr>hc_run := run', hc_phases := hc_phases st @ [ph], hc_bodies := bodies'\<rparr>)"
  using begin_call_section [OF b]
proof (elim disjE exE conjE)
  assume "bodies' = hc_bodies st" "call_of ph = None" "hr_calls run' = hr_calls (hc_run st) + 1"
    "hr_closed run' = hr_closed (hc_run st)" "hr_minted run' = hr_minted (hc_run st)"
  moreover from this(2) have "yet_to_run ph = 0" "is_asking ph = 0" by (cases ph; simp)+
  ultimately show ?thesis
    using inv by (auto simp: log_ok_def number_of_def identities_agree_def)
next
  fix c run1
  assume srv: "served r c" and calls: "hr_calls run1 = hr_calls (hc_run st) + 1" "hr_calls run1 \<le> rg_max_calls r"
    and same: "hr_closed run1 = hr_closed (hc_run st)" "hr_minted run1 = hr_minted (hc_run st)"
    and sec: "section_of c run1 (hc_bodies st) ((ph, run'), bodies')" and quiet: "\<forall>c. ph \<noteq> Asking c"
    and kept: "hr_minted run' = hr_minted run1"
  have "identities_agree run1 (hc_bodies st)" using inv same by (simp add: log_ok_def identities_agree_def)
  then have ids: "identities_agree run' bodies'" by (rule identities_agree_section [OF _ sec])
  have cs: "hr_calls run' = hr_calls (hc_run st) + 1" using sec calls by (simp add: section_of_def)
  have ask: "is_asking ph = 0" using quiet by (cases ph) auto
  have one: "yet_to_run ph \<le> 1" by (cases ph) auto
  have "bodies' = hc_bodies st \<or> (\<exists>ident. bodies' = hc_bodies st @ [noted c ident] \<and> yet_to_run ph = 0 \<and> (ac_user c \<longleftrightarrow> ident \<noteq> None))"
    using sec unfolding section_of_def by (auto split: if_splits)
  then have bs: "\<forall>b \<in> set bodies'. body_ok r b" and "length bodies' + yet_to_run ph \<le> Suc (length (hc_bodies st))"
    using inv body_okI [OF srv] one by (auto simp: log_ok_def)
  then have "int (length bodies' + (number_of yet_to_run st + yet_to_run ph)) \<le> min (hr_calls run') (rg_max_calls r)"
    using inv calls cs by (simp add: log_ok_def)
  moreover have "call_of ph = Some d \<Longrightarrow> served r d \<and> (yet_to_run ph \<noteq> 0 \<longrightarrow> ac_user d)" for d
    using sec srv by (auto simp: section_of_def)
  moreover have "hr_minted run' = None" if "number_of is_asking st = 1"
    using that inv kept same by (simp add: log_ok_def)
  ultimately show ?thesis
    using inv ids bs ask by (auto simp: log_ok_def number_of_def)
qed

lemma log_step:
  assumes inv: "log_ok r st"
  shows "log_ok r (host_step r ev st)"
proof (cases r ev st rule: host_step_cases)
  case idle
  then show ?thesis using inv by simp
next
  case (starts name args framing now ph run bodies)
  then show ?thesis using log_begin [OF inv starts(4)] by simp
next
  case (lock n now c)
  obtain ph run' bodies' where s: "take_mint_lock now c (hc_run st) (hc_bodies st) = ((ph, run'), bodies')" by (metis prod.exhaust)
  have "ac_user c" using inv lock(1,2) by (force simp: log_ok_def in_set_conv_nth)
  from take_mint_lock_section [OF this, of "hc_run st" "hc_bodies st" now] take_mint_lock_counts [OF s] lock(3) show ?thesis
    unfolding lock(4) s by (intro log_section [OF inv lock(1)]) (auto simp: lock(2))
next
  case (mint n now later answer c)
  obtain ph run' bodies' where s: "minter_answers now later answer c (hc_run st) (hc_bodies st) = ((ph, run'), bodies')" by (metis prod.exhaust)
  have user: "ac_user c" using inv mint(1,2) by (force simp: log_ok_def in_set_conv_nth)
  have "Asking c \<in> set (hc_phases st)" using mint(1,2) by (metis nth_mem)
  then have "asking st" by (force simp: asking_def)
  then have "number_of is_asking st = 1" using inv is_asking_none [of st] by (simp add: log_ok_def)
  then have "hr_minted (hc_run st) = None" using inv by (simp add: log_ok_def)
  from minter_answers_section [OF user this, of "hc_bodies st" now later answer] minter_answers_counts [OF s] show ?thesis
    unfolding mint(3) s by (intro log_section [OF inv mint(1)]) (auto simp: mint(2))
next
  case (ends n now later e c i)
  obtain ph run' where s: "body_ends r now later e c (hc_run st) = (ph, run')" by fastforce
  from body_ends_section [of c "hc_run st" "hc_bodies st" r now later e] quiet_counts(2) [of r now later e c "hc_run st"] show ?thesis
    unfolding ends(4) s by (intro log_section [OF inv ends(1)]) (auto simp: ends(2))
next
  case (publish n accepted outcome crossing)
  obtain ph run' where s: "published accepted outcome crossing (hc_run st) = (ph, run')" by fastforce
  have "identities_agree run' (hc_bodies st)"
    using identities_agree_published [of "hc_run st" "hc_bodies st" accepted outcome crossing] inv s by (simp add: log_ok_def)
  moreover have "\<forall>b \<in> set (hc_bodies st). body_ok r b" using inv by (simp add: log_ok_def)
  ultimately show ?thesis
    using published_quiet [of accepted outcome crossing "hc_run st"]
    unfolding publish(3) s by (intro log_set_phase [OF inv publish(1)]) (auto simp: publish(2))
next
  case (cancel n timed c i)
  obtain ph run' where s: "cancelled_call timed None (release_slot (hc_run st)) = (ph, run')" by fastforce
  have "call_of (hc_phases st ! n) = Some c" using cancel(2) by auto
  from log_section [OF inv cancel(1) this, of ph run' "hc_bodies st"] cancelled_section [of c "hc_run st" "hc_bodies st" timed]
    quiet_counts(1) [of timed None "release_slot (hc_run st)"]
  show ?thesis unfolding cancel(3) s by (simp add: run_defs)
next
  case close
  then show ?thesis using log_close [OF inv] by simp
qed

lemma log_execution: "rg_max_calls r \<ge> 1 \<Longrightarrow> log_ok r (host_execution r evs)"
  by (rule host_execution_invariant)
     (auto simp: log_step, simp add: log_ok_def fresh_calls_def fresh_run_def identities_agree_def number_of_def)

subsection \<open>What the registry answers for\<close>

text \<open>The gates of \<open>register\<close>, as they stand for a tool that passed them.\<close>

definition gated :: "registry \<Rightarrow> host_function \<Rightarrow> bool" where
  "gated r f \<longleftrightarrow> hf_callable f \<and> (rg_require_declared r \<longrightarrow> declaration_of f \<noteq> None)
     \<and> (case effective_identity (declaration_of f) of None \<Rightarrow> True | Some i \<Rightarrow> i \<in> rg_allowed r)"

lemma gated_same [simp]:
  "gated (r\<lparr>rg_tools := ts, rg_declarations := ds\<rparr>) f = gated r f"
  "gated (r\<lparr>rg_sealed := b\<rparr>) f = gated r f"
  by (simp_all add: gated_def split: option.splits)

definition registry_ok :: "registry \<Rightarrow> bool" where
  "registry_ok r \<longleftrightarrow> rg_declarations r = map (\<lambda>(t, f). (t, declaration_of f)) (rg_tools r)
     \<and> distinct (map fst (rg_tools r)) \<and> (\<forall>(t, f) \<in> set (rg_tools r). t \<noteq> [] \<and> gated r f)"

lemma built_ok: "built a r \<Longrightarrow> registry_ok r"
proof (induction rule: built.induct)
  case (constructed a r)
  then have "rg_tools r = []" "rg_declarations r = []" by (auto simp: registry_init_def bindE_eq_Inr)
  then show ?case by (simp add: registry_ok_def)
next
  case (registered a r f name r')
  from registered.hyps(2) show ?case
  proof (rule registerE)
    fix t
    assume t: "hf_callable f" "t \<noteq> []" "map_of (rg_tools r) t = None" "rg_require_declared r \<longrightarrow> declaration_of f \<noteq> None"
      "\<And>i. effective_identity (declaration_of f) = Some i \<Longrightarrow> i \<in> rg_allowed r"
      "r' = r\<lparr>rg_tools := rg_tools r @ [(t, f)], rg_declarations := rg_declarations r @ [(t, declaration_of f)]\<rparr>"
    have "t \<notin> set (map fst (rg_tools r))" using t(3) by (simp add: map_of_eq_None_iff)
    moreover have "gated r f" using t(1,4,5) by (auto simp: gated_def split: option.splits)
    ultimately show ?thesis using registered.IH t(2,6) by (auto simp: registry_ok_def)
  qed
next
  case (aggregated a r)
  then show ?case by (simp add: aggregate_registry registry_ok_def)
qed

lemma resolve_declaration:
  assumes "registry_ok r" and "resolve r t = Some f"
  shows "declaration_for r t = declaration_of f \<and> (t, f) \<in> set (rg_tools r) \<and> (t, declaration_of f) \<in> set (rg_declarations r)
    \<and> gated r f"
proof -
  have mem: "(t, f) \<in> set (rg_tools r)" using assms(2) by (simp add: resolve_def map_of_SomeD)
  have decls: "rg_declarations r = map (\<lambda>(t, f). (t, declaration_of f)) (rg_tools r)" using assms(1) by (simp add: registry_ok_def)
  have "map_of (rg_declarations r) t = map_option declaration_of (map_of (rg_tools r) t)" unfolding decls using map_of_map [of declaration_of "rg_tools r"] by simp
  with assms mem decls show ?thesis by (auto simp: declaration_for_def resolve_def registry_ok_def)
qed

text \<open>
  C9: A guest starts only what the host registered, on the host's terms: every body a run has started
  is the function that stands under its name, declared where the host wants declarations, with an
  authority the host allows, called with arguments its signature takes; it gets an identity
  exactly if its declaration is the user's, never one the guest sent; and the run has
  started no more bodies than its cap.
\<close>

theorem only_admitted_bodies_run:
  assumes "built a r" and "b \<in> set (hc_bodies (host_execution r evs))"
  shows "\<not> rg_require_fides r \<and> resolve r (bs_name b) = Some (bs_function b)
    \<and> (rg_require_declared r \<longrightarrow> declaration_of (bs_function b) \<noteq> None)
    \<and> (case effective_identity (declaration_of (bs_function b)) of None \<Rightarrow> True | Some i \<Rightarrow> i \<in> rg_allowed r)
    \<and> (bs_identity b \<noteq> None \<longleftrightarrow> map_option fd_identity (declaration_of (bs_function b)) = Some (Some USER))
    \<and> (bs_identity b \<noteq> None \<longrightarrow> rg_mints r \<and> user_identity_parameter \<notin> fst ` set (bs_arguments b))
    \<and> (\<exists>ps. hf_signature (bs_function b) = Some ps \<and>
        binds ps (fst ` set (bs_arguments b) \<union> (if bs_identity b = None then {} else {user_identity_parameter})))
    \<and> int (length (hc_bodies (host_execution r evs))) \<le> rg_max_calls r"
proof -
  have log: "log_ok r (host_execution r evs)" using log_execution built_limits [OF assms(1)] by blast
  then have cap: "int (length (hc_bodies (host_execution r evs))) \<le> rg_max_calls r" by (simp add: log_ok_def)
  have "body_ok r b" using log assms(2) by (simp add: log_ok_def)
  then obtain c ident where srv: "served r c" and b: "b = noted c ident" and user: "ac_user c \<longleftrightarrow> ident \<noteq> None"
    unfolding body_ok_def by blast
  have f: "resolve r (ac_name c) = Some (ac_function c)" using srv by (simp add: served_def)
  note d = resolve_declaration [OF built_ok [OF assms(1)] f]
  have bound: "\<exists>ps. hf_signature (ac_function c) = Some ps \<and>
      binds ps (fst ` set (ac_arguments c) \<union> (if ac_user c then {user_identity_parameter} else {}))"
    using srv by (auto simp: served_def check_binding_def split: option.splits if_splits)
  have who: "ac_user c \<longleftrightarrow> map_option fd_identity (declaration_of (ac_function c)) = Some (Some USER)"
    using srv d by (auto simp: served_def acts_as_user_def split: option.splits)
  show ?thesis
    using srv d bound who user cap f
    by (auto simp: b noted_def served_def gated_def)
qed


text \<open>A section in a closed run starts no body and publishes nothing.\<close>

fun is_publishing :: "phase \<Rightarrow> bool" where
  "is_publishing (Publishing _ _) = True"
| "is_publishing _ = False"

lemma closed_sections:
  assumes "hr_closed run"
  shows "\<not> is_publishing (fst (fst (take_mint_lock now c run bodies))) \<and> snd (take_mint_lock now c run bodies) = bodies
      \<and> hr_closed (snd (fst (take_mint_lock now c run bodies)))"
    "\<not> is_publishing (fst (fst (minter_answers now later answer c run bodies))) \<and> snd (minter_answers now later answer c run bodies) = bodies
      \<and> hr_closed (snd (fst (minter_answers now later answer c run bodies)))"
    "\<not> is_publishing (fst (body_ends r now later e c run)) \<and> hr_closed (snd (body_ends r now later e c run))"
    "\<not> is_publishing (fst (cancelled_call timed x (release_slot run))) \<and> hr_closed (snd (cancelled_call timed x (release_slot run)))"
    "\<not> is_publishing (fst (published accepted outcome x run)) \<and> hr_closed (snd (published accepted outcome x run))"
proof -
  show "\<not> is_publishing (fst (fst (take_mint_lock now c run bodies))) \<and> snd (take_mint_lock now c run bodies) = bodies
      \<and> hr_closed (snd (fst (take_mint_lock now c run bodies)))"
    using assms by (simp add: take_mint_lock_def run_defs)
  show "\<not> is_publishing (fst (fst (minter_answers now later answer c run bodies))) \<and> snd (minter_answers now later answer c run bodies) = bodies
      \<and> hr_closed (snd (fst (minter_answers now later answer c run bodies)))"
    using assms by (simp add: minter_answers_def run_defs split: minted.split)
  show "\<not> is_publishing (fst (body_ends r now later e c run)) \<and> hr_closed (snd (body_ends r now later e c run))"
    using assms by (auto simp: body_ends_def run_defs admit_response_def Let_def
        split: body_end.splits option.splits prod.splits if_splits)
  show "\<not> is_publishing (fst (cancelled_call timed x (release_slot run))) \<and> hr_closed (snd (cancelled_call timed x (release_slot run)))"
    using assms by (auto simp: run_defs split: option.splits)
  show "\<not> is_publishing (fst (published accepted outcome x run)) \<and> hr_closed (snd (published accepted outcome x run))"
    using assms by (auto simp: published_def close_run_def note_delivery_def split: option.splits)
qed

definition silent :: "host_calls \<Rightarrow> host_calls \<Rightarrow> bool" where
  "silent st st' \<longleftrightarrow> hr_closed (hc_run st') \<and> hc_bodies st' = hc_bodies st \<and> length (hc_phases st') = length (hc_phases st)
     \<and> (\<forall>n < length (hc_phases st). is_publishing (hc_phases st' ! n) \<longrightarrow> hc_phases st' ! n = hc_phases st ! n)"

lemma silent_set_phase:
  "hr_closed run' \<Longrightarrow> \<not> is_publishing ph \<Longrightarrow> bodies = hc_bodies st \<Longrightarrow> silent st (set_phase n ((ph, run'), bodies) st)"
  by (cases "n < length (hc_phases st)") (auto simp: silent_def set_phase_def nth_list_update split: if_splits)

lemma silent_step:
  assumes "hr_closed (hc_run st)"
  shows "silent st (host_step r ev st)"
proof (cases r ev st rule: host_step_cases)
  case idle
  then show ?thesis using assms by (simp add: silent_def)
next
  case (starts name args framing now ph run bodies)
  then show ?thesis using assms by simp
next
  case (lock n now c)
  then show ?thesis
    using silent_set_phase closed_sections(1) [OF assms, of now c "hc_bodies st"]
    by (cases "take_mint_lock now c (hc_run st) (hc_bodies st)") (metis fst_conv prod.collapse snd_conv)
next
  case (mint n now later answer c)
  then show ?thesis
    using silent_set_phase closed_sections(2) [OF assms, of now later answer c "hc_bodies st"]
    by (cases "minter_answers now later answer c (hc_run st) (hc_bodies st)") (metis fst_conv prod.collapse snd_conv)
next
  case (ends n now later e c i)
  then show ?thesis using silent_set_phase closed_sections(3) [OF assms] by (metis prod.collapse)
next
  case (publish n accepted outcome crossing)
  then show ?thesis using silent_set_phase closed_sections(5) [OF assms] by (metis prod.collapse)
next
  case (cancel n timed c i)
  then show ?thesis using silent_set_phase closed_sections(4) [OF assms] by (metis prod.collapse)
next
  case close
  then show ?thesis by (simp add: silent_def close_run_def)
qed

lemma silent_trans: "silent st st' \<Longrightarrow> silent st' st'' \<Longrightarrow> silent st st''"
  unfolding silent_def by metis

text \<open>
  A closed run is silent: whatever happens afterwards, the run stays closed, no call joins it, no
  body starts, and nothing goes to the transport that was not already with it.
\<close>

theorem closed_run_is_silent:
  assumes "hr_closed (hc_run (host_execution r evs))"
  shows "silent (host_execution r evs) (host_execution r (evs @ after))"
proof (induction after rule: rev_induct)
  case Nil
  then show ?case using assms by (simp add: silent_def)
next
  case (snoc ev after)
  then have "hr_closed (hc_run (host_execution r (evs @ after)))" by (simp add: silent_def)
  from silent_step [OF this, of r ev] snoc show ?case
    using silent_trans by (simp add: host_execution_def)
qed

text \<open>The weakest of several sources, as \<open>min\<close> finds it.\<close>

lemma foldl_least:
  fixes rank :: "'a \<Rightarrow> nat"
  shows "rank (foldl (\<lambda>w x. if rank x < rank w then x else w) s xs) \<le> rank s
    \<and> (\<forall>x \<in> set xs. rank (foldl (\<lambda>w x. if rank x < rank w then x else w) s xs) \<le> rank x)"
proof (induction xs arbitrary: s)
  case (Cons x xs)
  from Cons [of "if rank x < rank s then x else s"] show ?case by (auto split: if_splits)
qed simp

definition sources_of :: "registry \<Rightarrow> source_integrity list" where
  "sources_of r =
     concat (map (\<lambda>d. case fd_source d of None \<Rightarrow> [] | Some s \<Rightarrow> [s])
       (concat (map (\<lambda>(n, d). case d of None \<Rightarrow> [] | Some x \<Rightarrow> [x]) (rg_declarations r))))
     @ (if \<exists>(n, d) \<in> set (rg_declarations r). d = None then [UNTRUSTED] else [])"

lemma aggregate_integrity:
  assumes "aggregate r = (Inr g, r')" and "s \<in> set (sources_of r)"
  shows "\<exists>w. result_integrity g = Some w \<and> integrity_rank w \<le> integrity_rank s"
proof -
  have "result_integrity g = (case sources_of r of [] \<Rightarrow> None
      | s # rest \<Rightarrow> Some (foldl (\<lambda>w x. if integrity_rank x < integrity_rank w then x else w) s rest))"
    using assms(1) by (auto simp: aggregate_def sources_of_def Let_def split: if_splits)
  then show ?thesis using assms(2) foldl_least [of integrity_rank] by (cases "sources_of r") auto
qed

definition declared_in :: "registry \<Rightarrow> flow_declaration list" where
  "declared_in r = concat (map (\<lambda>(n, d). case d of None \<Rightarrow> [] | Some x \<Rightarrow> [x]) (rg_declarations r))"

lemma aggregate_fields:
  assumes "aggregate r = (Inr g, r')"
  shows "agg_identities g = registered_identities r" "requires_approval g \<longleftrightarrow> USER \<in> registered_identities r"
    "has_undeclared g \<longleftrightarrow> (\<exists>(n, d) \<in> set (rg_declarations r). d = None)"
    "outbound_caps g = set (concat (map (\<lambda>d. case fd_sink d of None \<Rightarrow> [] | Some c \<Rightarrow> [c]) (declared_in r)))"
    "tool_names g = fst ` set (rg_tools r)"
  using assms unfolding aggregate_def Let_def declared_in_def
  by (cases "rg_require_fides r \<and> rg_tools r \<noteq> []", simp, (simp only: if_False prod.inject sum.inject, elim conjE, hypsubst, simp))+

lemma aggregate_sets:
  assumes "aggregate r = (Inr g, r')" and d: "(t, d) \<in> set (rg_declarations r)"
  shows "(case effective_identity d of None \<Rightarrow> True | Some i \<Rightarrow> i \<in> agg_identities g \<and> (i = USER \<longrightarrow> requires_approval g))
    \<and> (d = None \<longrightarrow> has_undeclared g) \<and> (\<forall>x k. d = Some x \<longrightarrow> fd_sink x = Some k \<longrightarrow> k \<in> outbound_caps g)
    \<and> (d = None \<longrightarrow> UNTRUSTED \<in> set (sources_of r))
    \<and> (\<forall>x s. d = Some x \<longrightarrow> fd_source x = Some s \<longrightarrow> s \<in> set (sources_of r))"
proof -
  note fields = aggregate_fields [OF assms(1)]
  have ids: "effective_identity d = Some i \<Longrightarrow> i \<in> registered_identities r" for i
    using d by (force simp: registered_identities_def)
  have mem: "x \<in> set (declared_in r)" if "d = Some x" for x
    using d that unfolding declared_in_def by force
  have sink: "k \<in> outbound_caps g" if "d = Some x" "fd_sink x = Some k" for x k
    unfolding fields(4) using mem [OF that(1)] that(2) by force
  have source: "s \<in> set (sources_of r)" if "d = Some x" "fd_source x = Some s" for x s
    unfolding sources_of_def declared_in_def [symmetric] using mem [OF that(1)] that(2) by force
  have "\<exists>(n, d) \<in> set (rg_declarations r). d = None" if "d = None" using d that by blast
  then have "d = None \<longrightarrow> has_undeclared g \<and> UNTRUSTED \<in> set (sources_of r)" unfolding fields(3) sources_of_def by simp
  moreover have "case effective_identity d of None \<Rightarrow> True | Some i \<Rightarrow> i \<in> agg_identities g \<and> (i = USER \<longrightarrow> requires_approval g)"
    unfolding fields(1,2) using ids by (simp split: option.split)
  ultimately show ?thesis using sink source by blast
qed


subsection \<open>A run of two overlapping calls\<close>

definition reader_tool :: host_function where
  "reader_tool = \<lparr>hf_id = 0, hf_callable = True, hf_name = Text ''mail'',
     hf_stamp = Stamped \<lparr>fd_source = Some UNTRUSTED, fd_sink = Some ''team'', fd_identity = Some USER\<rparr>,
     hf_signature = Some [\<lparr>p_name = ''user_identity'', p_kind = KEYWORD_ONLY, p_default = False\<rparr>]\<rparr>"

definition office_args :: registry_args where
  "office_args = \<lparr>ra_require_declared = True, ra_require_fides = Bool False, ra_allowed = Members {APP, USER}, ra_max_calls = Count 3,
     ra_limits = Some (Count 8, Count 10, Count 2), ra_mint = Callback, ra_calls_observer = No_callback\<rparr>"

definition office :: registry where
  "office = \<lparr>rg_require_declared = True, rg_require_fides = False, rg_allowed = {APP, USER}, rg_max_calls = 3,
     rg_limits = \<lparr>max_bytes_per_file = 8, max_total_bytes = 10, max_files = 2\<rparr>, rg_mints = True,
     rg_tools = [(''mail'', reader_tool)], rg_declarations = [(''mail'', declaration_of reader_tool)], rg_sealed = False\<rparr>"

lemma office_built: "built office_args office"
proof -
  have "registry_init office_args = Inr (office\<lparr>rg_tools := [], rg_declarations := []\<rparr>)"
    by (simp add: registry_init_def office_args_def positive_count_def plain_count_def raiseIf_def office_def)
  then have empty: "built office_args (office\<lparr>rg_tools := [], rg_declarations := []\<rparr>)" by (rule constructed)
  have "register reader_tool None (office\<lparr>rg_tools := [], rg_declarations := []\<rparr>) = Inr office"
    by (simp add: register_def office_def reader_tool_def raiseIf_def declaration_of_def effective_identity_def
        accepts_user_identity_def user_identity_parameter_def)
  from registered [OF empty this] show ?thesis .
qed

text \<open>Two calls of the tool; the second waits for the identity the first one asks for.\<close>

definition office_events :: "host_event list" where
  "office_events =
     [Begin (Text ''mail'') No_arguments 1 In_time, Mint_lock 0 In_time, Begin (Text ''mail'') (Object []) 1 In_time,
      Mint_lock 1 In_time, Minter 0 In_time In_time (Usable ''ada''), Mint_lock 1 In_time,
      Body 1 In_time In_time (Returned (Some ''true'')), Body 0 In_time In_time (Returned (Some ''false'')),
      Publish 1 True, Publish 0 True, Close]"

lemmas run_eval = host_execution_def host_step_def begin_call_def admit_call_def check_binding_def binds_def resolve_def
  declaration_for_def take_mint_lock_def minter_answers_def enter_body_def body_ends_def admit_response_def conclude_def
  to_publish_def refuse_admitted_def cancelled_call_def release_slot_def give_back_def refund_def published_def note_delivery_def
  close_run_def set_phase_def asking_def fresh_calls_def fresh_run_def office_def reader_tool_def declaration_of_def
  user_identity_parameter_def office_events_def

lemma office_run:
  "host_execution office office_events =
     \<lparr>hc_run = \<lparr>hr_calls = 2, hr_reserved = 1, hr_reserved_bytes = 5, hr_delivered = 1, hr_delivered_bytes = 5, hr_closed = True,
        hr_minted = None\<rparr>,
      hc_phases = [Finished Refused_end None, Finished Delivered (Some 5)],
      hc_bodies = [\<lparr>bs_name = ''mail'', bs_function = reader_tool, bs_arguments = [], bs_identity = Some ''ada''\<rparr>,
                   \<lparr>bs_name = ''mail'', bs_function = reader_tool, bs_arguments = [], bs_identity = Some ''ada''\<rparr>]\<rparr>"
  by (simp add: run_eval)

theorem responses_stay_within_the_limits_witness:
  "delivered_sizes (host_execution office office_events) = [5]
   \<and> hr_delivered_bytes (hc_run (host_execution office office_events)) = 5
   \<and> hr_reserved_bytes (hc_run (host_execution office office_events)) \<le> 10"
  using responses_stay_within_the_limits [OF office_built, of office_events]
  by (simp add: Let_def office_run delivered_sizes_def)

theorem only_admitted_bodies_run_witness:
  "resolve office ''mail'' = Some reader_tool
   \<and> int (length (hc_bodies (host_execution office office_events))) \<le> rg_max_calls office"
  using only_admitted_bodies_run [OF office_built,
      of "\<lparr>bs_name = ''mail'', bs_function = reader_tool, bs_arguments = [], bs_identity = Some ''ada''\<rparr>" office_events]
  by (simp add: office_run)


theorem closed_run_is_silent_witness:
  "silent (host_execution office office_events) (host_execution office (office_events @ [Begin (Text ''mail'') No_arguments 1 In_time]))"
  by (rule closed_run_is_silent) (simp add: office_run)

definition office_aggregate :: host_tool_aggregate where
  "office_aggregate = \<lparr>result_integrity = Some UNTRUSTED, outbound_caps = {''team''}, agg_identities = {USER},
     requires_approval = True, has_undeclared = False,
     response_limits = \<lparr>max_bytes_per_file = 8, max_total_bytes = 10, max_files = 2\<rparr>,
     max_host_tool_calls_per_run = 3, tool_names = {''mail''}\<rparr>"

lemma office_aggregates: "aggregate office = (Inr office_aggregate, office\<lparr>rg_sealed := True\<rparr>)"
  by (simp add: aggregate_def office_aggregate_def office_def declaration_of_def reader_tool_def registered_identities_def
      effective_identity_def Let_def)

lemma sealed_office_run:
  "hc_bodies (host_execution (office\<lparr>rg_sealed := True\<rparr>) office_events) = hc_bodies (host_execution office office_events)"
  unfolding office_run by (simp add: run_eval)


end
