(* ===== verification/Decimals.thy ===== *)
theory Decimals
  imports Maf_Prelude
begin

text \<open>Natural numbers in decimal digits, as Python's \<open>str\<close> and format strings write them.\<close>

definition digit_of :: "nat \<Rightarrow> char" where
  "digit_of d = char_of (48 + d)"

fun decimal :: "nat \<Rightarrow> string" where
  "decimal n = (if n < 10 then [digit_of n] else decimal (n div 10) @ [digit_of (n mod 10)])"

declare decimal.simps [simp del]

text \<open>The value of a run of digits; leading zeros do not count.\<close>

definition undecimal :: "string \<Rightarrow> nat" where
  "undecimal s = foldl (\<lambda>a c. 10 * a + (of_char c - 48)) 0 s"

lemma undecimal_decimal [simp]: "undecimal (decimal n) = n"
proof (induction n rule: decimal.induct)
  case (1 n)
  have digit: "d < 10 \<Longrightarrow> of_char (digit_of d) - 48 = d" for d by (simp add: digit_of_def)
  show ?case
  proof (cases "n < 10")
    case True
    then show ?thesis by (subst decimal.simps) (simp add: undecimal_def digit)
  next
    case False
    from 1 [OF False] show ?thesis
      by (subst decimal.simps) (simp add: False undecimal_def digit)
  qed
qed

text \<open>Python's format \<open>04d\<close>: at least four digits, zeros in front.\<close>

definition padded :: "nat \<Rightarrow> string" where
  "padded n = replicate (4 - length (decimal n)) (CHR ''0'') @ decimal n"

lemma undecimal_zeros: "undecimal (replicate k (CHR ''0'') @ s) = undecimal s"
  by (induction k) (simp_all add: undecimal_def)

lemma undecimal_padded [simp]: "undecimal (padded n) = n"
  by (simp add: padded_def undecimal_zeros)

lemma padded_inj [simp]: "padded m = padded n \<longleftrightarrow> m = n"
  by (metis undecimal_padded)

lemma decimal_digits: "c \<in> set (decimal n) \<Longrightarrow> \<exists>d<10. c = digit_of d"
proof (induction n rule: decimal.induct)
  case (1 n)
  show ?case
  proof (cases "n < 10")
    case True
    then show ?thesis using 1(2) by (subst (asm) decimal.simps) auto
  next
    case False
    then have "c \<in> set (decimal (n div 10)) \<or> c = digit_of (n mod 10)"
      using 1(2) by (subst (asm) decimal.simps) auto
    then show ?thesis using 1(1) [OF False] by (auto intro: exI [of _ "n mod 10"])
  qed
qed

lemma decimal_nonempty [simp]: "decimal n \<noteq> []"
  by (subst decimal.simps) simp

lemma padded_digits: "c \<in> set (padded n) \<Longrightarrow> \<exists>d<10. c = digit_of d"
proof -
  assume "c \<in> set (padded n)"
  moreover have "CHR ''0'' = digit_of 0" by code_simp
  ultimately show ?thesis
    using decimal_digits [of c n] by (auto simp: padded_def split: if_splits intro: exI [of _ 0])
qed

end
