(* ===== verification/Guest_Runs.thy ===== *)
theory Guest_Runs
  imports Guest_Paths Sandbox_Spec Decimals
begin

text \<open>
  Where one run of a guest program lives (\<open>_host_tools_over_exec.py\<close>): the limits a run adds to a
  workload's own, the layout of its files, the launcher that starts it, what the launcher says, and
  what may be removed afterwards.  A character stands for a byte, so the size of a text is its length.
\<close>

subsection \<open>Limits\<close>

definition launcher_ceiling :: int where "launcher_ceiling = 64 * 1024"
definition start_gate_bytes :: int where "start_gate_bytes = 33"
definition marker_ceiling :: int where "marker_ceiling = 32"
definition marker_files :: int where "marker_files = 3"
definition refusal_ceiling :: int where "refusal_ceiling = 1024"

definition serving_bound :: "host_tool_aggregate \<Rightarrow> int" where
  "serving_bound surface = max_host_tool_calls_per_run surface + 1"

definition request_cap :: "host_tool_aggregate \<Rightarrow> int" where
  "request_cap surface = max_bytes_per_file (response_limits surface)"

definition output_cap :: "host_tool_aggregate \<Rightarrow> int option \<Rightarrow> int" where
  "output_cap surface limit =
     (case limit of Some n \<Rightarrow> n | None \<Rightarrow> max_total_bytes (response_limits surface))"

definition fold_host_tool_call_transfer_limits ::
  "transfer_limits \<Rightarrow> transfer_limits \<Rightarrow> host_tool_aggregate \<Rightarrow> sandbox_limits" where
  "fold_host_tool_call_transfer_limits f_in f_out surface =
     (let serves = max_host_tool_calls_per_run surface + 1; responses = response_limits surface
      in \<lparr>limits_in =
            \<lparr>max_bytes_per_file = max (max (max_bytes_per_file f_in) (max_bytes_per_file responses))
                                      (max launcher_ceiling refusal_ceiling),
             max_total_bytes = max_total_bytes f_in + launcher_ceiling + start_gate_bytes
                               + max_total_bytes responses + serves * refusal_ceiling,
             max_files = max_files f_in + 2 + serves\<rparr>,
          limits_out =
            \<lparr>max_bytes_per_file = max (max (max_bytes_per_file f_out) (max_total_bytes responses))
                                      (max (max_bytes_per_file responses) marker_ceiling),
             max_total_bytes = max_total_bytes f_out + max_total_bytes responses
                               + serves * max_bytes_per_file responses + marker_files * marker_ceiling,
             max_files = max_files f_out + 1 + serves + marker_files\<rparr>\<rparr>)"

subsection \<open>Names\<close>

definition calls_directory :: string where "calls_directory = ''host_tool_calls''"
definition output_file :: string where "output_file = ''program_output.txt''"
definition exit_file :: string where "exit_file = ''program_exit_code''"
definition pid_file :: string where "pid_file = ''program_pid''"
definition session_file :: string where "session_file = ''program_session''"
definition session_made :: string where "session_made = ''maf-host-tools: session''"
definition shim_module :: string where "shim_module = ''maf_host_tools.py''"
definition launcher_file :: string where "launcher_file = ''run_program.sh''"
definition work_directory :: string where "work_directory = ''work''"
definition transport_directory :: string where "transport_directory = ''host_tools''"

definition staged :: "string \<Rightarrow> string" where "staged name = name @ ''.part''"
definition start_gate :: "string \<Rightarrow> string" where "start_gate name = name @ ''.start''"

definition transport_filenames :: "string list" where
  "transport_filenames =
     [shim_module, launcher_file, start_gate launcher_file, output_file, exit_file, staged exit_file,
      pid_file, staged pid_file, session_file, staged session_file, calls_directory]"

definition startup_stems :: "string list" where
  "startup_stems =
     [''encodings'', ''site'', ''sitecustomize'', ''usercustomize'', ''abc'', ''codecs'', ''genericpath'',
      ''io'', ''posixpath'', ''stat'', ''_collections_abc'', ''_sitebuiltins'', ''_bootlocale'']"

definition shim_stems :: "string list" where
  "shim_stems = [''json'', ''os'', ''time'']"

text \<open>Python's \<open>partition\<close> at the first dot; the flag says whether there is one.\<close>

definition cut_at_dot :: "string \<Rightarrow> string \<times> bool \<times> string" where
  "cut_at_dot s = (takeWhile (\<lambda>c. c \<noteq> CHR ''.'') s, CHR ''.'' \<in> set s, tl (dropWhile (\<lambda>c. c \<noteq> CHR ''.'') s))"

definition shim_module_stem :: string where
  "shim_module_stem = fst (cut_at_dot shim_module)"

definition loader_suffixes :: "string list" where
  "loader_suffixes = [''py'', ''pyc'', ''pyw'', ''so'', ''pyd'']"

definition module_a_program_answers_to :: "string \<Rightarrow> string option" where
  "module_a_program_answers_to prog =
     (case cut_at_dot prog of (stem, dotted, sufx) \<Rightarrow>
        if \<not> dotted then None
        else if CHR ''.'' \<in> set sufx then (if suffix ''.so'' sufx \<or> suffix ''.pyd'' sufx then Some stem else None)
        else if sufx \<in> set loader_suffixes then Some stem else None)"

subsection \<open>The layout\<close>

record run_layout =
  ly_directory :: string
  ly_work :: string
  ly_program :: string
  ly_shim :: string
  ly_launcher :: string
  ly_calls :: string
  ly_output :: string
  ly_exit_code :: string
  ly_pid :: string
  ly_session :: string

definition basename :: "string \<Rightarrow> string" where
  "basename p = rev (takeWhile (\<lambda>c. c \<noteq> slash) (rev p))"

text \<open>The checks on the run directory: it comes back normalised.\<close>

definition run_directory_for :: "string \<Rightarrow> string result" where
  "run_directory_for given =
     bindE (if isabs given then Inr given
            else bindE (confine_resolve_guest_path given dot) (\<lambda>d. if d = dot then Inl ValueError else Inr d)) (\<lambda>d.
     if CHR '':'' \<in> set d then Inl ValueError
     else if isabs d then confine_resolve_guest_path d d else Inr d)"

definition check_program_name :: "string \<Rightarrow> unit result" where
  "check_program_name prog =
     (let stem = module_a_program_answers_to prog
      in raiseIf (prog \<noteq> basename prog \<or> prog \<in> {[], dot, dotdot}
           \<or> prog \<in> set transport_filenames
           \<or> stem = Some shim_module_stem
           \<or> stem \<in> set (map Some shim_stems)
           \<or> stem \<in> set (map Some startup_stems)) ValueError)"

definition lay_out :: "string \<Rightarrow> string \<Rightarrow> run_layout" where
  "lay_out d prog =
     (let served = path_join d transport_directory
      in \<lparr>ly_directory = d, ly_work = path_join d work_directory,
          ly_program = path_join served prog, ly_shim = path_join served shim_module,
          ly_launcher = path_join served launcher_file, ly_calls = path_join served calls_directory,
          ly_output = path_join served output_file, ly_exit_code = path_join served exit_file,
          ly_pid = path_join served pid_file, ly_session = path_join served session_file\<rparr>)"

definition guest_run_layout :: "string \<Rightarrow> string \<Rightarrow> run_layout result" where
  "guest_run_layout run_directory prog =
     bindE (run_directory_for run_directory) (\<lambda>d.
     bindE (check_program_name prog) (\<lambda>_. Inr (lay_out d prog)))"

definition layout_path :: "run_layout \<Rightarrow> string \<Rightarrow> string result" where
  "layout_path l path =
     (if isabs path then Inr path
      else (case guest_path_relative_to path (ly_directory l) of
          None \<Rightarrow> Inl ValueError
        | Some r \<Rightarrow> Inr (if r = [] then dot else r)))"

subsection \<open>The launcher\<close>

abbreviation nl :: string where "nl \<equiv> [CHR 0x0A]"
abbreviation backslash_n :: string where "backslash_n \<equiv> CHR 0x5C # ''n''"

text \<open>Text between apostrophes, and between double quotes.\<close>

definition sq :: "string \<Rightarrow> string" where "sq t = CHR 0x27 # t @ [CHR 0x27]"
definition dq :: "string \<Rightarrow> string" where "dq t = CHR 0x22 # t @ [CHR 0x22]"

definition quote :: "string \<Rightarrow> string" where
  "quote t = sq (concat (map (\<lambda>c. if c = CHR 0x27 then [CHR 0x27, CHR 0x5C, CHR 0x27, CHR 0x27] else [c]) t))"

definition relative_run :: "run_layout \<Rightarrow> bool" where
  "relative_run l \<longleftrightarrow> \<not> isabs (ly_directory l)"

definition quote_path :: "run_layout \<Rightarrow> bool \<Rightarrow> string \<Rightarrow> string result" where
  "quote_path l outer path =
     (if \<not> relative_run l then Inr (quote path)
      else bindE (layout_path l path) (\<lambda>r. Inr ((if outer then dq ''$maf_run_root'' else dq ''$0'') @ ''/'' @ quote r)))"

text \<open>
  What waits at the gate before the program, what reports the process and what waits until the
  control stream is closed; all three are empty for a launcher without a token.
\<close>

definition gate_wait :: "string \<Rightarrow> string \<Rightarrow> string \<Rightarrow> string \<Rightarrow> string" where
  "gate_wait var gate token status =
     ''while ! { IFS= read -r '' @ var @ '' < '' @ gate @ ''; [ '' @ dq (CHR ''$'' # var) @ '' = '' @ quote token
     @ '' ]; } 2>/dev/null; do sleep .01 || exit '' @ status @ ''; done''"

definition gated_program :: "bool \<Rightarrow> string \<Rightarrow> string option \<Rightarrow> string \<Rightarrow> string" where
  "gated_program relative gate token prog =
     (case token of None \<Rightarrow> prog
      | Some t \<Rightarrow> ''sh -c '' @ quote (gate_wait ''maf_start'' gate t ''125'' @ ''; unset maf_start; exec '' @ prog)
                  @ (if relative then '' '' @ dq ''$0'' else []))"

definition closing_token :: "string \<Rightarrow> string" where
  "closing_token t = ''closed-'' @ t"

definition receipt_line :: "string option \<Rightarrow> string" where
  "receipt_line token =
     (case token of None \<Rightarrow> []
      | Some _ \<Rightarrow> ''printf '' @ sq (''maf-host-tools: process-v1 %s %s'' @ backslash_n) @ '' '' @ dq ''$maf_pid'' @ '' ''
                  @ dq ''$maf_group'' @ ''; '')"

definition inner_script ::
  "string option \<Rightarrow> string \<Rightarrow> string \<Rightarrow> string \<Rightarrow> string \<Rightarrow> string \<Rightarrow> string \<Rightarrow> string \<Rightarrow> string" where
  "inner_script token gate prog output staged_pid pid staged_exit exit_path =
     ''PYTHONUNBUFFERED=1 PYTHONNOUSERSITE=1 '' @ prog @ '' > '' @ output @ '' 2>&1 & ''
     @ ''printf %s $! > '' @ staged_pid @ ''; mv '' @ staged_pid @ '' '' @ pid @ ''; maf_pid=$!; '' @ receipt_line token
     @ ''exec >/dev/null 2>&1; ''
     @ (case token of None \<Rightarrow> []
        | Some t \<Rightarrow> ''printf '' @ sq (''%s'' @ backslash_n) @ '' '' @ quote (closing_token t) @ '' > '' @ gate @ ''; '')
     @ ''wait $maf_pid; printf %s $? > '' @ staged_exit @ ''; mv '' @ staged_exit @ '' '' @ exit_path"

definition launcher_text ::
  "bool \<Rightarrow> string option \<Rightarrow> string \<Rightarrow> string \<Rightarrow> string \<Rightarrow> string \<Rightarrow> string \<Rightarrow> string \<Rightarrow> string" where
  "launcher_text relative token work importable enclosing outer_gate record_session inner =
     ''#!/bin/sh'' @ nl
     @ (if relative
        then ''unset maf_run_root'' @ nl @ ''maf_run_root=$(pwd -P) || exit 1'' @ nl
             @ ''case '' @ dq ''$maf_run_root'' @ '' in *:*) exit 1;; esac'' @ nl
        else [])
     @ ''mkdir -p '' @ work @ '' && cd '' @ work @ '' || exit 1'' @ nl
     @ ''maf_kept='' @ sq [] @ nl @ ''set -f'' @ nl @ ''IFS=:'' @ nl
     @ ''for maf_entry in ${PYTHONPATH:-}; do'' @ nl
     @ ''  case '' @ dq ''$maf_entry'' @ '' in'' @ nl
     @ ''    */./*|*/../*|*//*|*/.|*/..) ;;'' @ nl
     @ ''    '' @ enclosing @ ''|'' @ enclosing @ ''/*) ;;'' @ nl
     @ ''    /*) maf_kept='' @ dq ''${maf_kept:+$maf_kept:}$maf_entry'' @ '' ;;'' @ nl
     @ ''  esac'' @ nl @ ''done'' @ nl @ ''unset IFS'' @ nl @ ''set +f'' @ nl
     @ ''PYTHONPATH='' @ importable @ dq ''${maf_kept:+:$maf_kept}'' @ nl
     @ ''export PYTHONPATH'' @ nl @ ''unset maf_kept maf_entry'' @ nl
     @ ''if command -v setsid >/dev/null 2>&1; then'' @ nl
     @ ''  setsid nohup sh -c '' @ quote (''maf_group=$$; '' @ record_session @ inner)
     @ (if relative then '' '' @ dq ''$maf_run_root'' else []) @ '' </dev/null 2>/dev/null &'' @ nl
     @ ''  printf '' @ sq (''%s'' @ backslash_n) @ '' '' @ quote session_made @ nl
     @ ''else'' @ nl
     @ ''  nohup sh -c '' @ quote (''maf_group=0; '' @ inner)
     @ (if relative then '' '' @ dq ''$maf_run_root'' else []) @ '' </dev/null 2>/dev/null &'' @ nl
     @ ''fi'' @ nl
     @ (case token of None \<Rightarrow> []
        | Some t \<Rightarrow> gate_wait ''maf_closed'' outer_gate (closing_token t) ''1'' @ nl)"

definition launcher_script :: "run_layout \<Rightarrow> string \<Rightarrow> string option \<Rightarrow> string result" where
  "launcher_script l interpreter token =
     (let gate_path = start_gate (ly_launcher l); relative = relative_run l
      in bindE (quote_path l True (ly_work l)) (\<lambda>work.
         bindE (quote_path l True (dirname (ly_shim l))) (\<lambda>importable.
         bindE (if token = None then Inr [] else quote_path l True gate_path) (\<lambda>outer_gate.
         bindE (if token = None then Inr [] else quote_path l False gate_path) (\<lambda>gate.
         bindE (quote_path l False (ly_program l)) (\<lambda>prog.
         bindE (quote_path l False (ly_output l)) (\<lambda>output.
         bindE (quote_path l False (staged (ly_pid l))) (\<lambda>staged_pid.
         bindE (quote_path l False (ly_pid l)) (\<lambda>pid.
         bindE (quote_path l False (staged (ly_exit_code l))) (\<lambda>staged_exit.
         bindE (quote_path l False (ly_exit_code l)) (\<lambda>exit_path.
         bindE (if ly_session l = [] then Inr []
                else bindE (quote_path l False (staged (ly_session l))) (\<lambda>staged_session.
                     bindE (quote_path l False (ly_session l)) (\<lambda>session.
                       Inr (''printf %s $$ > '' @ staged_session @ ''; mv '' @ staged_session @ '' '' @ session @ ''; ''))))
           (\<lambda>record_session.
         let run = gated_program relative gate token (quote interpreter @ '' '' @ prog);
             enclosing = (if relative then dq ''$maf_run_root'' else quote (rstrip_slash (ly_directory l)));
             script = launcher_text relative token work importable enclosing outer_gate record_session
                        (inner_script token gate run output staged_pid pid staged_exit exit_path)
         in if int (length script) > launcher_ceiling then Inl ValueError else Inr script))))))))))))"


subsection \<open>What the launcher says\<close>

text \<open>
  The receipt on the launcher's output: one line with the process and its group, the session line
  before it or after it.  A group of 0 stands for a program without a session of its own.
\<close>

definition is_digit_char :: "char \<Rightarrow> bool" where
  "is_digit_char c \<longleftrightarrow> 48 \<le> (of_char c :: nat) \<and> (of_char c :: nat) \<le> 57"

definition short_number :: "string \<Rightarrow> (nat \<times> string) option" where
  "short_number s =
     (let ds = takeWhile is_digit_char s
      in if 1 \<le> length ds \<and> length ds \<le> 10 then Some (undecimal ds, dropWhile is_digit_char s) else None)"

definition after :: "string \<Rightarrow> string \<Rightarrow> string option" where
  "after start s = (if prefix start s then Some (drop (length start) s) else None)"

definition session_line :: string where "session_line = session_made @ nl"

definition receipt_numbers :: "string \<Rightarrow> (nat \<times> nat) option" where
  "receipt_numbers said =
     (case after ''maf-host-tools: process-v1 '' (case after session_line said of Some rest \<Rightarrow> rest | None \<Rightarrow> said) of
        None \<Rightarrow> None
      | Some rest \<Rightarrow>
          (case short_number rest of None \<Rightarrow> None | Some (pid, rest) \<Rightarrow>
             (case after '' '' rest of None \<Rightarrow> None | Some rest \<Rightarrow>
                (case short_number rest of None \<Rightarrow> None | Some (pgid, rest) \<Rightarrow>
                   (if rest = nl \<or> rest = nl @ session_line then Some (pid, pgid) else None)))))"

definition max_process_id :: int where "max_process_id = 2147483647"

text \<open>The process and the group the host keeps, if the receipt can be used.\<close>

definition process_receipt :: "string \<Rightarrow> (nat \<times> nat option) option" where
  "process_receipt said =
     (case receipt_numbers said of
        None \<Rightarrow> None
      | Some (pid, pgid) \<Rightarrow>
          if 1 < pid \<and> int pid \<le> max_process_id \<and> (pgid = 0 \<or> 1 < pgid \<and> int pgid \<le> max_process_id)
          then Some (pid, if pgid = 0 then None else Some pgid) else None)"

subsection \<open>Removal\<close>

definition removable :: "string \<Rightarrow> bool" where
  "removable d \<longleftrightarrow>
     dotdot \<notin> set (split_on slash d) \<and> CHR 0x5C \<notin> set d
     \<and> (if isabs d then length (filter (\<lambda>s. s \<noteq> []) (split_on slash (normpath d))) \<ge> 2
        else normpath d \<notin> {dot, []})"

text \<open>
  \<open>_remove_tree\<close>: the directory and the working directory handed to the sandbox's \<open>reclaim\<close>, or
  nothing when the removal is refused.
\<close>

definition remove_tree :: "string \<Rightarrow> string option \<Rightarrow> (string \<times> string) option" where
  "remove_tree d inside =
     (if (case inside of Some base \<Rightarrow> guest_path_relative_to d base = None | None \<Rightarrow> False) then None
      else if \<not> removable d then None
      else Some (d, if isabs d then (if dirname d = [] then ''/'' else dirname d) else dot))"

datatype seconds = Finite rat | Odd_number

definition positive_seconds :: "seconds \<Rightarrow> bool" where
  "positive_seconds t = (case t of Finite n \<Rightarrow> 0 < n | Odd_number \<Rightarrow> False)"

definition transport_paths :: "run_layout \<Rightarrow> string list" where
  "transport_paths l =
     [ly_launcher l, ly_calls l, ly_output l, ly_exit_code l, ly_pid l]
     @ (if ly_session l \<noteq> [] then [ly_session l] else [])"

definition reclaim_run :: "run_layout \<Rightarrow> seconds \<Rightarrow> (string \<times> string) option result" where
  "reclaim_run l timeout =
     (if \<not> positive_seconds timeout then Inl ValueError
      else if \<exists>path \<in> set ([ly_work l, ly_program l, ly_shim l] @ transport_paths l).
                guest_path_relative_to path (ly_directory l) = None then Inr None
      else Inr (remove_tree (ly_directory l) None))"

definition reclaim_the_transports_own :: "run_layout \<Rightarrow> (string \<times> string) option" where
  "reclaim_the_transports_own l =
     (let served = normpath (dirname (ly_shim l))
      in if \<exists>path \<in> set (ly_program l # transport_paths l). normpath (dirname path) \<noteq> served then None
         else if guest_path_relative_to served (ly_work l) \<noteq> None \<or> guest_path_relative_to (ly_work l) served \<noteq> None
                 \<or> guest_path_relative_to served (ly_directory l) = Some [] then None
         else remove_tree served (Some (ly_directory l)))"

end
