(* ===== verification/Guest_Run_Properties.thy ===== *)
theory Guest_Run_Properties
  imports Guest_Runs Confinement
begin

text \<open>
  Properties of a run's layout: its paths are apart and inside its directory, a shell reads a quoted
  text back as itself, the receipt is read as it was printed, and a removal reaches only the run.
\<close>

subsection \<open>Names below a directory\<close>

definition based :: "string \<Rightarrow> nat \<Rightarrow> string list \<Rightarrow> bool" where
  "based d n segs \<longleftrightarrow> d = render n segs \<and> n \<le> 2 \<and> norm_shape (0 < n) segs \<and> (n = 0 \<longrightarrow> segs \<noteq> [])"

lemma norm_shape_snoc: "norm_shape r segs \<Longrightarrow> plain s \<Longrightarrow> norm_shape r (segs @ [s])"
proof -
  assume "norm_shape r segs" "plain s"
  then obtain k rest where "segs = replicate k dotdot @ rest" "r \<longrightarrow> k = 0" "list_all plain (rest @ [s])"
    by (auto simp: norm_shape_def)
  then show ?thesis using norm_shapeI [of "rest @ [s]" r k] by simp
qed

lemma based_norm_form: "based d n segs \<Longrightarrow> norm_form d = (n, segs)"
  by (auto simp: based_def norm_form_render)

lemma based_normal: "based d n segs \<Longrightarrow> normpath d = d"
  by (auto simp: based_def normpath_render)

lemma based_child:
  assumes "based d n segs" and "plain s"
  shows "path_join d s = render n (segs @ [s])" and "based (path_join d s) n (segs @ [s])"
proof -
  have ok: "list_all seg_ok segs" using assms(1) norm_shape_seg_ok by (auto simp: based_def)
  have s: "seg_ok s" "\<not> prefix ''/'' s" using assms(2) by (auto simp: plain_def seg_ok_def prefix_def)
  show join: "path_join d s = render n (segs @ [s])"
  proof (cases "segs = []")
    case True
    then have "n \<noteq> 0" using assms(1) by (simp add: based_def)
    then show ?thesis using True assms(1) s by (auto simp: based_def path_join_def render_eq)
  next
    case False
    have "\<not> suffix ''/'' (render n segs)" by (rule last_render_not_slash [OF ok False])
    then have "last (render n segs) \<noteq> slash" by (metis append_butlast_last_id render_nonempty suffixI)
    moreover have "join_with slash segs \<noteq> []" using join_hd_not_slash [OF ok False] by auto
    ultimately show ?thesis
      using assms(1) ok s False by (simp add: based_def path_join_def render_nonempty render_eq join_with_append)
  qed
  show "based (path_join d s) n (segs @ [s])"
    unfolding join using assms norm_shape_snoc by (auto simp: based_def)
qed

lemma based_relative:
  assumes "based d n segs" and "based (render n (segs @ zs)) n (segs @ zs)" and "zs \<noteq> []"
  shows "guest_path_relative_to (render n (segs @ zs)) d = Some (join_with slash zs)"
proof (cases "segs = []")
  case False
  then show ?thesis
    using relative_to_segments [OF based_norm_form [OF assms(2)] based_norm_form [OF assms(1)]] by simp
next
  case True
  have ok: "list_all seg_ok zs" using assms(2) True norm_shape_seg_ok by (auto simp: based_def)
  have n: "n \<noteq> 0" and d: "d = replicate n slash" using assms(1) True by (simp_all add: based_def render_eq)
  have path: "normpath (render n zs) = replicate n slash @ join_with slash zs"
    using based_normal [OF assms(2)] True n ok by (simp add: render_eq)
  have "replicate n slash \<noteq> dot" "suffix ''/'' (replicate n slash)"
    using n by (cases n; simp add: replicate_app_Cons_same suffix_def; metis replicate_append_same)+
  moreover have "join_with slash zs \<noteq> []" using join_hd_not_slash [OF ok assms(3)] by auto
  moreover have "normpath d = replicate n slash" using based_normal [OF assms(1)] d by simp
  ultimately show ?thesis using True by (simp add: guest_path_relative_to_def Let_def path)
qed

lemma foldl_push_set: "set (foldl (push_segment r) acc segs) \<subseteq> set acc \<union> set segs"
proof (induction segs arbitrary: acc)
  case (Cons seg segs)
  have "set (push_segment r acc seg) \<subseteq> insert seg (set acc)"
    by (auto simp: push_segment_def dest: in_set_butlastD)
  then show ?case using Cons [of "push_segment r acc seg"] by auto
qed simp

lemma normpath_chars: "set (normpath p) \<subseteq> insert slash (insert (CHR ''.'') (set p))"
proof -
  obtain n segs where f: "norm_form p = (n, segs)" by (cases "norm_form p")
  then have "set segs \<subseteq> set (split_on slash p)"
    using foldl_push_set [of "0 < n" "[]" "split_on slash p"] by (auto simp: norm_form_def Let_def norm_segments_def)
  then have "\<Union> (set ` set segs) \<subseteq> set p" using split_on_chars [of _ slash p] by blast
  then have "set (join_with slash segs) \<subseteq> insert slash (set p)" using set_join_with [of slash segs] by blast
  then show ?thesis using f by (auto simp: normpath_eq_render render_def Let_def)
qed

lemma run_directory_based:
  assumes "run_directory_for given = Inr d"
  shows "(\<exists>n segs. based d n segs) \<and> CHR '':'' \<notin> set d \<and> (isabs d \<longleftrightarrow> isabs given)"
proof (cases "isabs given")
  case True
  then have d: "d = normpath (path_join (normpath given) given)" and colon: "CHR '':'' \<notin> set given"
    using assms by (auto simp: run_directory_for_def confine_resolve_guest_path_def Let_def split: if_splits)
  then have d: "d = normpath given"
    using norm_form_join_abs [OF True] by (simp add: normpath_eq_iff)
  obtain n segs where f: "norm_form given = (n, segs)" by (cases "norm_form given")
  then have "based d n segs"
    using slash_free_norm_form [OF f] True by (simp add: based_def d normpath_eq_render norm_form_abs)
  then show ?thesis using colon normpath_chars [of given] True d by auto
next
  case False
  let ?r = "normpath (path_join dot given)"
  have dot: "normpath dot = dot" by code_simp
  have rel: "\<not> isabs ?r" using False norm_form_dot_join [OF False] by (simp add: norm_form_abs)
  have d: "d = ?r" and r: "?r \<noteq> dot" "CHR '':'' \<notin> set ?r"
    using assms False rel
    by (auto simp: run_directory_for_def confine_resolve_guest_path_def Let_def dot bindE_eq_Inr split: if_splits)
  obtain n segs where f: "norm_form ?r = (n, segs)" by (cases "norm_form ?r")
  moreover have "based d n segs"
    using slash_free_norm_form [OF f] r f normpath_eq_render [of "?r"] by (auto simp: based_def d render_def)
  ultimately show ?thesis using r rel False d by blast
qed


subsection \<open>The layout\<close>

lemma program_name_plain:
  assumes "check_program_name prog = Inr ()"
  shows "plain prog"
proof -
  have eq: "prog = basename prog" and names: "prog \<notin> {[], dot, dotdot}"
    using assms unfolding check_program_name_def Let_def raiseIf_eq_Inr by blast+
  have "slash \<notin> set (basename prog)" by (auto simp: basename_def dest: set_takeWhileD)
  then show ?thesis using eq names by (simp add: plain_def)
qed

lemma transport_names_plain:
  "list_all plain (work_directory # transport_directory # transport_filenames)"
  by code_simp

lemma transport_names_distinct: "distinct transport_filenames"
  by code_simp

lemma based_join_relative:
  assumes "based d n segs" and "plain s" and "plain t"
  shows "guest_path_relative_to (path_join d s) d = Some s"
    and "guest_path_relative_to (path_join (path_join d s) t) d = Some (s @ ''/'' @ t)"
    and "norm_form (path_join (path_join d s) t) = (n, segs @ [s, t])"
proof -
  note s = based_child [OF assms(1,2)]
  note t = based_child [OF s(2) assms(3)]
  show "guest_path_relative_to (path_join d s) d = Some s"
    using based_relative [OF assms(1), of "[s]"] s by simp
  show "guest_path_relative_to (path_join (path_join d s) t) d = Some (s @ ''/'' @ t)"
    using based_relative [OF assms(1), of "[s, t]"] t by simp
  show "norm_form (path_join (path_join d s) t) = (n, segs @ [s, t])"
    using based_norm_form [OF t(2)] by simp
qed

lemma dirname_child:
  assumes "based d n segs" and "segs \<noteq> []" and "plain s"
  shows "dirname (path_join d s) = d"
proof -
  have ok: "list_all seg_ok segs" using assms(1) norm_shape_seg_ok by (auto simp: based_def)
  have d: "d = render n segs" using assms(1) by (simp add: based_def)
  have ne: "d \<noteq> []" unfolding d by (rule render_nonempty)
  have "\<not> suffix ''/'' d" unfolding d by (rule last_render_not_slash [OF ok assms(2)])
  then have last: "last d \<noteq> slash" using ne by (metis append_butlast_last_id suffixI)
  have s: "slash \<notin> set s" "\<not> prefix ''/'' s" using assms(3) by (auto simp: plain_def prefix_def)
  then have j: "path_join d s = d @ slash # s" using last ne by (simp add: path_join_def)
  have all: "\<forall>c \<in> set (rev s). c \<noteq> slash" using s(1) by auto
  have head: "rev (dropWhile (\<lambda>c. c \<noteq> slash) (rev (d @ slash # s))) = d @ [slash]"
    using dropWhile_append2 [of "rev s" "\<lambda>c. c \<noteq> slash" "slash # rev d"] all by simp
  have "\<not> (\<forall>c \<in> set (d @ [slash]). c = slash)" using last ne by (metis Un_iff last_in_set set_append)
  moreover have "rstrip_slash (d @ [slash]) = d"
    using last ne by (cases d rule: rev_cases) (simp_all add: rstrip_slash_def)
  ultimately show ?thesis unfolding dirname_def j head by (simp add: Let_def)
qed

lemma layout_shape:
  assumes "guest_run_layout given prog = Inr l"
  obtains n segs where "based (ly_directory l) n segs" and "l = lay_out (ly_directory l) prog"
    and "plain prog" and "check_program_name prog = Inr ()" and "CHR '':'' \<notin> set (ly_directory l)"
proof -
  obtain d where d: "run_directory_for given = Inr d" "check_program_name prog = Inr ()" "l = lay_out d prog"
    using assms by (auto simp: guest_run_layout_def bindE_eq_Inr)
  then have "ly_directory l = d" by (simp add: lay_out_def Let_def)
  then show thesis
    using that run_directory_based [OF d(1)] program_name_plain [OF d(2)] d by blast
qed





subsection \<open>Quoting\<close>

text \<open>
  How a shell reads one word: an apostrophe opens and closes a quoted part, outside one a backslash
  takes the next character, a blank or an operator ends the word.  A word with another character
  that the shell would interpret is not read here.
\<close>

definition word_end :: "char \<Rightarrow> bool" where
  "word_end c \<longleftrightarrow> c \<in> set ('' ;&|<>()'' @ [CHR 0x09, CHR 0x0A])"

definition interpreted :: "char \<Rightarrow> bool" where
  "interpreted c \<longleftrightarrow> c \<in> set (''$*?[#~=%!{}`'' @ [CHR 0x22])"

fun sh_word :: "bool \<Rightarrow> string \<Rightarrow> (string \<times> string) option" where
  "sh_word True [] = None"
| "sh_word False [] = Some ([], [])"
| "sh_word True (c # cs) =
     (if c = CHR 0x27 then sh_word False cs else map_option (apfst ((#) c)) (sh_word True cs))"
| "sh_word False (c # cs) =
     (if c = CHR 0x27 then sh_word True cs
      else if c = CHR 0x5C then (case cs of [] \<Rightarrow> None | d # ds \<Rightarrow> map_option (apfst ((#) d)) (sh_word False ds))
      else if word_end c then Some ([], c # cs)
      else if interpreted c then None
      else map_option (apfst ((#) c)) (sh_word False cs))"

lemma sh_word_quoted:
  "sh_word True (concat (map (\<lambda>c. if c = CHR 0x27 then [CHR 0x27, CHR 0x5C, CHR 0x27, CHR 0x27] else [c]) t)
     @ CHR 0x27 # rest) = map_option (apfst ((@) t)) (sh_word False rest)"
  by (induction t) (simp_all add: option.map_comp o_def apfst_def map_prod_def option.map_ident split_beta)

text \<open>
  C38: A shell reads a quoted text as that text and nothing else: one word, and what follows it
  untouched.  Quoting nests, so a script handed to \<open>sh -c\<close> arrives as it was built.
\<close>

theorem quote_reads_back:
  assumes "rest = [] \<or> word_end (hd rest)"
  shows "sh_word False (quote t @ rest) = Some (t, rest)"
proof -
  have "sh_word False rest = Some ([], rest)"
  proof (cases rest)
    case (Cons c cs)
    then have "word_end c" using assms by simp
    moreover have "c \<noteq> CHR 0x27" "c \<noteq> CHR 0x5C" using calculation by (auto simp: word_end_def)
    ultimately show ?thesis using Cons by simp
  qed simp
  then show ?thesis by (simp add: quote_def sq_def sh_word_quoted)
qed

theorem quote_reads_back_witness:
  "sh_word False (quote (''sh -c '' @ quote ''it'') @ '' </dev/null'') = Some (''sh -c '' @ quote ''it'', '' </dev/null'')"
  by (rule quote_reads_back) (simp add: word_end_def)


subsection \<open>The receipt\<close>

lemma decimal_length: "n < 10 ^ k \<Longrightarrow> 0 < k \<Longrightarrow> length (decimal n) \<le> k"
proof (induction n arbitrary: k rule: decimal.induct)
  case (1 n)
  show ?case
  proof (cases "n < 10")
    case True
    then show ?thesis using 1(3) by (subst decimal.simps) simp
  next
    case False
    then obtain j where k: "k = Suc j" "0 < j" using 1(2,3) by (cases k; cases "k - 1") auto
    then have "n div 10 < 10 ^ j" using 1(2) by (simp add: less_mult_imp_div_less mult.commute)
    then show ?thesis using 1(1) [OF False _ k(2)] False k by (subst decimal.simps) simp
  qed
qed

lemma digit_chars: "d < 10 \<Longrightarrow> is_digit_char (digit_of d)"
  by (simp add: is_digit_char_def digit_of_def)

lemma decimal_digit_chars: "\<forall>c \<in> set (decimal n). is_digit_char c"
  using decimal_digits digit_chars by blast

lemma short_number_decimal:
  assumes "int n \<le> max_process_id" and "\<not> is_digit_char c"
  shows "short_number (decimal n @ c # rest) = Some (n, c # rest)"
proof -
  have "takeWhile is_digit_char (decimal n @ c # rest) = decimal n"
    "dropWhile is_digit_char (decimal n @ c # rest) = c # rest"
    using decimal_digit_chars [of n] assms(2) by (simp_all add: takeWhile_append2 dropWhile_append2)
  moreover have "length (decimal n) \<le> 10" using assms(1) by (intro decimal_length) (simp_all add: max_process_id_def)
  moreover have "1 \<le> length (decimal n)" by (simp add: Suc_le_eq)
  ultimately show ?thesis by (simp add: short_number_def Let_def)
qed

lemma after_append [simp]: "after a (a @ b) = Some b"
  by (simp add: after_def)

definition receipt :: "nat \<Rightarrow> nat \<Rightarrow> string" where
  "receipt pid pgid = ''maf-host-tools: process-v1 '' @ decimal pid @ '' '' @ decimal pgid @ nl"

lemma receipt_numbers_read:
  assumes "int pid \<le> max_process_id" "int pgid \<le> max_process_id" and "tail_line \<in> {[], session_line}"
  shows "receipt_numbers (receipt pid pgid @ tail_line) = Some (pid, pgid)"
    and "receipt_numbers (session_line @ receipt pid pgid @ tail_line) = Some (pid, pgid)"
proof -
  have blank: "\<not> is_digit_char (CHR '' '')" and line: "\<not> is_digit_char (CHR 0x0A)" by code_simp+
  have numbers: "short_number (decimal pid @ '' '' @ rest) = Some (pid, '' '' @ rest)"
    "short_number (decimal pgid @ nl @ rest) = Some (pgid, nl @ rest)" for rest
    using short_number_decimal [OF assms(1) blank] short_number_decimal [OF assms(2) line] by simp_all
  have apart: "after session_line (receipt pid pgid @ tail_line) = None"
    by (simp add: after_def session_line_def session_made_def receipt_def)
  have line: "after ''maf-host-tools: process-v1 '' (receipt pid pgid @ tail_line)
      = Some (decimal pid @ '' '' @ decimal pgid @ nl @ tail_line)"
    unfolding receipt_def append_assoc by (rule after_append)
  have ends: "nl @ tail_line = nl \<or> nl @ tail_line = nl @ session_line" using assms(3) by auto
  show "receipt_numbers (receipt pid pgid @ tail_line) = Some (pid, pgid)"
    unfolding receipt_numbers_def apart option.case line numbers prod.case after_append if_P [OF ends] by (rule refl)
  show "receipt_numbers (session_line @ receipt pid pgid @ tail_line) = Some (pid, pgid)"
    unfolding receipt_numbers_def after_append option.case line numbers prod.case if_P [OF ends] by (rule refl)
qed

text \<open>
  The receipt of a launcher is read back as it was printed, whether the session line comes before
  it, after it or not at all; a number that must never be signalled is no receipt, whatever was said.
\<close>

theorem receipt_is_read_back:
  assumes "1 < pid" "int pid \<le> max_process_id" and "pgid = 0 \<or> 1 < pgid \<and> int pgid \<le> max_process_id"
    and "said \<in> {receipt pid pgid, session_line @ receipt pid pgid, receipt pid pgid @ session_line}"
  shows "process_receipt said = Some (pid, if pgid = 0 then None else Some pgid)
    \<and> (\<forall>other p g. process_receipt other = Some (p, g) \<longrightarrow>
        1 < p \<and> int p \<le> max_process_id \<and> (g = None \<or> (\<exists>n. g = Some n \<and> 1 < n \<and> int n \<le> max_process_id)))"
proof
  have "int pgid \<le> max_process_id" using assms(3) by (auto simp: max_process_id_def)
  then have "receipt_numbers said = Some (pid, pgid)"
    using receipt_numbers_read [OF assms(2), of pgid "[]"] receipt_numbers_read [OF assms(2), of pgid session_line] assms(4)
    by auto
  then show "process_receipt said = Some (pid, if pgid = 0 then None else Some pgid)"
    using assms(1-3) by (simp add: process_receipt_def)
qed (auto simp: process_receipt_def split: option.splits if_splits)

theorem receipt_is_read_back_witness:
  "process_receipt (session_line @ receipt 4711 4710) = Some (4711, Some 4710)"
  using receipt_is_read_back [of 4711 4710 "session_line @ receipt 4711 4710"] by (simp add: max_process_id_def)

subsection \<open>Removal\<close>

lemma removable_segments:
  assumes "removable d" and "norm_form d = (n, xs)"
  shows "xs \<noteq> [] \<and> (0 < n \<longrightarrow> 2 \<le> length xs)"
proof -
  have f: "n \<le> 2" "norm_shape (0 < n) xs" using slash_free_norm_form [OF assms(2)] by simp_all
  have norm: "normpath d = render n xs" using assms(2) by (simp add: normpath_eq_render)
  show ?thesis
  proof (cases "0 < n")
    case True
    then have "isabs d" using assms(2) by (simp add: norm_form_abs)
    then show ?thesis
      using assms(1) filter_split_render [OF f(2) True] True by (auto simp: removable_def norm)
  next
    case False
    then have "\<not> isabs d" using assms(2) by (simp add: norm_form_abs)
    then show ?thesis using assms(1) False by (auto simp: removable_def norm render_def)
  qed
qed

lemma remove_tree_SomeD:
  "remove_tree d inside = Some (t, wd) \<Longrightarrow> t = d \<and> removable d
    \<and> (\<forall>base. inside = Some base \<longrightarrow> guest_path_relative_to d base \<noteq> None)"
  by (auto simp: remove_tree_def split: if_splits option.splits)




end
