(* ===== verification/Json_Values.thy ===== *)
theory Json_Values
  imports Decimals
begin

text \<open>
  JSON as the host reads and writes it: the values \<open>json.loads\<close> makes, and the text \<open>json.dumps\<close>
  makes of a Python string, which is a list of code points here; and which bytes are UTF-8.
\<close>

datatype json =
    JNull
  | JBool bool
  | JInt int
  | JFloat string
  | JText string
  | JList "json list"
  | JObject "(string \<times> json) list"

text \<open>\<open>dict.get\<close>; the members of an object have distinct names.\<close>

definition item :: "(string \<times> json) list \<Rightarrow> string \<Rightarrow> json option" where
  "item members = map_of members"

subsection \<open>Writing a string\<close>

definition hex_digit :: "nat \<Rightarrow> char" where
  "hex_digit d = (if d < 10 then char_of (48 + d) else char_of (87 + d))"

definition unicode_escape :: "nat \<Rightarrow> string" where
  "unicode_escape u =
     [CHR 0x5C, CHR ''u'', hex_digit (u div 4096 mod 16), hex_digit (u div 256 mod 16),
      hex_digit (u div 16 mod 16), hex_digit (u mod 16)]"

text \<open>
  One code point under \<open>ensure_ascii\<close>: printable ASCII as itself, the six short escapes, a pair of
  surrogates above the basic plane.
\<close>

definition escape :: "nat \<Rightarrow> string" where
  "escape u =
     (if u = 0x22 \<or> u = 0x5C then [CHR 0x5C, char_of u]
      else if u = 0x0A then [CHR 0x5C, CHR ''n''] else if u = 0x0D then [CHR 0x5C, CHR ''r'']
      else if u = 0x09 then [CHR 0x5C, CHR ''t''] else if u = 0x0C then [CHR 0x5C, CHR ''f'']
      else if u = 0x08 then [CHR 0x5C, CHR ''b'']
      else if 0x20 \<le> u \<and> u \<le> 0x7E then [char_of u]
      else if u < 0x10000 then unicode_escape u
      else unicode_escape (0xD800 + (u - 0x10000) div 1024 mod 1024) @ unicode_escape (0xDC00 + (u - 0x10000) mod 1024))"

definition json_text :: "nat list \<Rightarrow> string" where
  "json_text us = [CHR 0x22] @ concat (map escape us) @ [CHR 0x22]"

text \<open>The code points of an ASCII text.\<close>

definition points :: "string \<Rightarrow> nat list" where
  "points s = map of_char s"

subsection \<open>UTF-8\<close>

definition continuation :: "nat \<Rightarrow> bool" where
  "continuation b \<longleftrightarrow> 0x80 \<le> b \<and> b \<le> 0xBF"

text \<open>Strict UTF-8: no overlong form, no surrogate, nothing above the last code point.\<close>

fun utf8_ok :: "nat list \<Rightarrow> bool" where
  "utf8_ok [] = True"
| "utf8_ok (b # bs) =
     (if b < 0x80 then utf8_ok bs
      else (case bs of
          c # cs \<Rightarrow>
            if 0xC2 \<le> b \<and> b \<le> 0xDF then continuation c \<and> utf8_ok cs
            else (case cs of
                d # ds \<Rightarrow>
                  if 0xE0 \<le> b \<and> b \<le> 0xEF
                  then (if b = 0xE0 then 0xA0 \<le> c \<and> c \<le> 0xBF else if b = 0xED then 0x80 \<le> c \<and> c \<le> 0x9F else continuation c)
                       \<and> continuation d \<and> utf8_ok ds
                  else (case ds of
                      e # es \<Rightarrow> 0xF0 \<le> b \<and> b \<le> 0xF4
                        \<and> (if b = 0xF0 then 0x90 \<le> c \<and> c \<le> 0xBF else if b = 0xF4 then 0x80 \<le> c \<and> c \<le> 0x8F else continuation c)
                        \<and> continuation d \<and> continuation e \<and> utf8_ok es
                    | [] \<Rightarrow> False)
              | [] \<Rightarrow> False)
        | [] \<Rightarrow> False))"

end
