(* ===== verification/Processes.thy ===== *)
theory Processes
  imports Guest_Runs Json_Values "HOL-Library.AList"
begin

text \<open>
  What the host observes of a guest's processes around a run (\<open>_processes.py\<close>, \<open>_process_info.py\<close>)
  and how it stops a program (\<open>_stop_recorded_processes\<close> of \<open>_host_tools_over_exec.py\<close>).  The
  observer and the log are left out; of a process only the fields that are read again are kept.
\<close>

subsection \<open>Processes\<close>

datatype attribution = Program | Descendant | Group

record process_info =
  pi_pid :: nat
  pi_ppid :: nat
  pi_pgid :: nat
  pi_sid :: nat
  pi_start :: nat
  pi_state :: string

text \<open>A process is told apart from a later one under the same number by when it started.\<close>

datatype proc_id = Proc_id (id_pid: nat) (id_start: nat)

definition identity_of :: "process_info \<Rightarrow> proc_id" where
  "identity_of p = Proc_id (pi_pid p) (pi_start p)"

definition running :: "process_info \<Rightarrow> bool" where
  "running p \<longleftrightarrow> pi_state p \<notin> set [''Z'', ''X'', ''x'']"

subsection \<open>Reading a snapshot\<close>

definition max_snapshot_bytes :: int where "max_snapshot_bytes = 1024 * 1024"
definition max_processes :: nat where "max_processes = 256"

definition allowed_fields :: "string list" where
  "allowed_fields =
     [''pid'', ''ppid'', ''pgid'', ''sid'', ''start_ticks'', ''state'', ''name'', ''uid'', ''effective_uid'', ''gid'',
      ''effective_gid'', ''groups'', ''username'', ''argv'', ''command'', ''executable'', ''cwd'', ''threads'',
      ''user_ticks'', ''system_ticks'', ''rss_bytes'', ''virtual_bytes'', ''unavailable'', ''truncated'']"

definition natural_item :: "(string \<times> json) list \<Rightarrow> string \<Rightarrow> nat result" where
  "natural_item data key =
     (case item data key of Some (JInt n) \<Rightarrow> if n < 0 then Inl ValueError else Inr (nat n) | _ \<Rightarrow> Inl ValueError)"

definition list_item_ok :: "(json \<Rightarrow> bool) \<Rightarrow> json option \<Rightarrow> bool" where
  "list_item_ok fits v =
     (case v of None \<Rightarrow> True | Some (JList vs) \<Rightarrow> length vs \<le> 256 \<and> list_all fits vs | Some _ \<Rightarrow> False)"

definition is_int :: "json \<Rightarrow> bool" where "is_int v = (case v of JInt _ \<Rightarrow> True | _ \<Rightarrow> False)"
definition is_text :: "json \<Rightarrow> bool" where "is_text v = (case v of JText _ \<Rightarrow> True | _ \<Rightarrow> False)"
definition is_bool :: "json \<Rightarrow> bool" where "is_bool v = (case v of JBool _ \<Rightarrow> True | _ \<Rightarrow> False)"

definition optional_ok :: "(json \<Rightarrow> bool) \<Rightarrow> json option \<Rightarrow> bool" where
  "optional_ok fits v = (case v of None \<Rightarrow> True | Some x \<Rightarrow> x = JNull \<or> fits x)"

definition decode_process :: "json \<Rightarrow> process_info result" where
  "decode_process entry =
     (case entry of
        JObject data \<Rightarrow>
          bindE (raiseIf (\<not> list_all (\<lambda>(k, _). k \<in> set allowed_fields) data) ValueError) (\<lambda>_.
          bindE (natural_item data ''pid'') (\<lambda>pid.
          bindE (natural_item data ''ppid'') (\<lambda>ppid.
          bindE (natural_item data ''pgid'') (\<lambda>pgid.
          bindE (natural_item data ''sid'') (\<lambda>sid.
          bindE (natural_item data ''start_ticks'') (\<lambda>start.
          bindE (case item data ''state'' of Some (JText s) \<Rightarrow> if pid < 1 then Inl ValueError else Inr s | _ \<Rightarrow> Inl ValueError)
            (\<lambda>state.
          bindE (raiseIf (\<not> (list_item_ok is_int (item data ''groups'') \<and> list_item_ok is_text (item data ''argv'')
                           \<and> list_item_ok is_text (item data ''unavailable''))) ValueError) (\<lambda>_.
          bindE (raiseIf (\<not> list_all (\<lambda>k. optional_ok is_text (item data k))
                   [''name'', ''username'', ''command'', ''executable'', ''cwd'']) ValueError) (\<lambda>_.
          bindE (raiseIf (\<not> list_all (\<lambda>k. optional_ok is_int (item data k))
                   [''uid'', ''effective_uid'', ''gid'', ''effective_gid'', ''threads'', ''user_ticks'', ''system_ticks'',
                    ''rss_bytes'', ''virtual_bytes'']) ValueError) (\<lambda>_.
          bindE (raiseIf (\<not> (case item data ''truncated'' of None \<Rightarrow> True | Some v \<Rightarrow> is_bool v)) ValueError) (\<lambda>_.
            Inr \<lparr>pi_pid = pid, pi_ppid = ppid, pi_pgid = pgid, pi_sid = sid, pi_start = start, pi_state = state\<rparr>)))))))))))
      | _ \<Rightarrow> Inl ValueError)"

text \<open>\<open>_decode\<close>; the output is its bytes, \<open>loads\<close> is \<open>json.loads\<close>, nothing for a text it refuses.\<close>

definition decode_snapshot :: "(string \<Rightarrow> json option) \<Rightarrow> string \<Rightarrow> (process_info list \<times> bool) result" where
  "decode_snapshot loads stdout =
     (if int (length stdout) > max_snapshot_bytes then Inl ValueError
      else (case loads stdout of
          Some (JObject payload) \<Rightarrow>
            (case item payload ''processes'' of
               Some (JList raw) \<Rightarrow>
                 if length raw > max_processes then Inl ValueError
                 else bindE (mapE decode_process raw) (\<lambda>ps.
                   if \<not> distinct (map pi_pid ps) then Inl ValueError
                   else (case item payload ''incomplete'' of Some (JBool b) \<Rightarrow> Inr (ps, b) | _ \<Rightarrow> Inl ValueError))
             | _ \<Rightarrow> Inl ValueError)
        | _ \<Rightarrow> Inl ValueError))"

subsection \<open>The tracker\<close>

datatype snapshot_phase = Before_launch | After_launch | Before_cleanup | After_cleanup

record tracker =
  tk_pid :: "nat option"
  tk_pgid :: "nat option"
  tk_baseline :: "proc_id list"
  tk_known :: "(proc_id \<times> attribution) list"
  tk_observed :: "(proc_id \<times> process_info) list"
  tk_latest :: "process_info list option"
  tk_incomplete :: bool
  tk_ever_incomplete :: bool
  tk_phase :: "snapshot_phase option"

definition fresh_tracker :: tracker where
  "fresh_tracker = \<lparr>tk_pid = None, tk_pgid = None, tk_baseline = [], tk_known = [], tk_observed = [], tk_latest = None,
     tk_incomplete = True, tk_ever_incomplete = False, tk_phase = None\<rparr>"

definition known_pid :: "(proc_id \<times> attribution) list \<Rightarrow> nat \<Rightarrow> bool" where
  "known_pid known pid \<longleftrightarrow> (\<exists>i \<in> fst ` set known. id_pid i = pid)"

definition is_known :: "(proc_id \<times> attribution) list \<Rightarrow> process_info \<Rightarrow> bool" where
  "is_known known p \<longleftrightarrow> identity_of p \<in> fst ` set known"

text \<open>The first pass of \<open>attribute\<close>: the program and its group.\<close>

definition recognise ::
  "tracker \<Rightarrow> process_info \<Rightarrow> (proc_id \<times> attribution) list \<Rightarrow> (proc_id \<times> attribution) list" where
  "recognise tk p known =
     (if identity_of p \<in> set (tk_baseline tk) \<or> known_pid known (pi_pid p) then known
      else if tk_pid tk = Some (pi_pid p) then known @ [(identity_of p, Program)]
      else if tk_pgid tk = Some (pi_pgid p) then known @ [(identity_of p, Group)]
      else known)"

text \<open>One pass of the loop that follows parents.\<close>

definition parent_of :: "process_info list \<Rightarrow> process_info \<Rightarrow> process_info option" where
  "parent_of ps p = find (\<lambda>q. pi_pid q = pi_ppid p) (rev ps)"

definition inherit ::
  "tracker \<Rightarrow> process_info list \<Rightarrow> process_info \<Rightarrow> (proc_id \<times> attribution) list \<Rightarrow> (proc_id \<times> attribution) list"
where
  "inherit tk ps p known =
     (case parent_of ps p of
        None \<Rightarrow> known
      | Some parent \<Rightarrow>
          if \<not> is_known known p \<and> identity_of p \<notin> set (tk_baseline tk) \<and> is_known known parent
             \<and> pi_start parent \<le> pi_start p
          then known @ [(identity_of p, Descendant)] else known)"

definition inherit_pass ::
  "tracker \<Rightarrow> process_info list \<Rightarrow> (proc_id \<times> attribution) list \<Rightarrow> (proc_id \<times> attribution) list" where
  "inherit_pass tk ps known = fold (inherit tk ps) ps known"

lemma inherit_known: "is_known known q \<Longrightarrow> is_known (inherit tk ps p known) q"
  by (auto simp: inherit_def is_known_def split: option.splits)

lemma fold_inherit_known: "is_known known q \<Longrightarrow> is_known (fold (inherit tk ps) qs known) q"
  by (induction qs arbitrary: known) (simp_all add: inherit_known)

lemma inherit_grows: "inherit tk ps p known \<noteq> known \<Longrightarrow> \<not> is_known known p \<and> is_known (inherit tk ps p known) p"
  by (auto simp: inherit_def is_known_def split: option.splits if_splits)

lemma fold_inherit_grows:
  "fold (inherit tk ps) qs known \<noteq> known \<Longrightarrow> \<exists>p \<in> set qs. \<not> is_known known p \<and> is_known (fold (inherit tk ps) qs known) p"
proof (induction qs arbitrary: known)
  case (Cons p qs)
  show ?case
  proof (cases "inherit tk ps p known = known")
    case True
    then show ?thesis using Cons by auto
  next
    case False
    from inherit_grows [OF this] show ?thesis
      using fold_inherit_known [of "inherit tk ps p known" p tk ps qs] by auto
  qed
qed simp

function inherit_loop ::
  "tracker \<Rightarrow> process_info list \<Rightarrow> (proc_id \<times> attribution) list \<Rightarrow> (proc_id \<times> attribution) list" where
  "inherit_loop tk ps known =
     (if inherit_pass tk ps known = known then known else inherit_loop tk ps (inherit_pass tk ps known))"
  by pat_completeness auto

termination
proof (relation "measure (\<lambda>(tk, ps, known). length (filter (\<lambda>p. \<not> is_known known p) ps))", goal_cases)
  case (2 tk ps known)
  let ?next = "inherit_pass tk ps known"
  obtain p where p: "p \<in> set ps" "\<not> is_known known p" "is_known ?next p"
    using fold_inherit_grows 2 unfolding inherit_pass_def by blast
  have "filter (\<lambda>p. \<not> is_known ?next p) ps = filter (\<lambda>p. \<not> is_known ?next p) (filter (\<lambda>p. \<not> is_known known p) ps)"
    using fold_inherit_known unfolding inherit_pass_def filter_filter by (intro filter_cong) blast+
  moreover have "length (filter (\<lambda>p. \<not> is_known ?next p) (filter (\<lambda>p. \<not> is_known known p) ps))
      < length (filter (\<lambda>p. \<not> is_known known p) ps)"
    using p by (intro length_filter_less [of p]) auto
  ultimately show ?case by simp
qed simp

declare inherit_loop.simps [simp del]

definition attribute :: "tracker \<Rightarrow> process_info list \<Rightarrow> tracker" where
  "attribute tk ps =
     (let known = inherit_loop tk ps (fold (recognise tk) ps (tk_known tk))
      in tk\<lparr>tk_known := known,
            tk_observed := fold (\<lambda>p obs. if is_known known p then AList.update (identity_of p) p obs else obs) ps (tk_observed tk)\<rparr>)"


text \<open>
  One look at the guest: whether the sandbox is still the instance it was and can bound an
  execution, and what the collector answered; a failure of any other kind is \<open>Exec_failed\<close>.
\<close>

datatype exec_reply = Exec_said int string | Exec_failed

record glimpse =
  gl_same_instance :: bool
  gl_bounded :: bool
  gl_reply :: exec_reply

definition seen_processes :: "(string \<Rightarrow> json option) \<Rightarrow> glimpse \<Rightarrow> (process_info list \<times> bool) option" where
  "seen_processes loads g =
     (if \<not> gl_same_instance g \<or> \<not> gl_bounded g then None
      else (case gl_reply g of
          Exec_failed \<Rightarrow> None
        | Exec_said status out \<Rightarrow>
            if status \<noteq> 0 then None
            else (case decode_snapshot loads out of Inl _ \<Rightarrow> None | Inr x \<Rightarrow> Some x)))"

definition snapshot :: "(string \<Rightarrow> json option) \<Rightarrow> snapshot_phase \<Rightarrow> glimpse \<Rightarrow> tracker \<Rightarrow> tracker" where
  "snapshot loads phase g tk0 =
     (let tk = tk0\<lparr>tk_phase := Some phase\<rparr>
      in case seen_processes loads g of
           None \<Rightarrow> tk\<lparr>tk_latest := None, tk_ever_incomplete := True, tk_incomplete := True\<rparr>
         | Some (ps, partial) \<Rightarrow>
             (let tk = (if phase = Before_launch then tk\<lparr>tk_baseline := map identity_of ps\<rparr> else tk);
                  bad = tk_ever_incomplete tk \<or> partial
              in (attribute tk ps)\<lparr>tk_latest := Some ps, tk_ever_incomplete := bad, tk_incomplete := bad\<rparr>))"

definition replaced :: "bool \<Rightarrow> tracker \<Rightarrow> bool" where
  "replaced same_instance tk \<longleftrightarrow>
     \<not> same_instance \<or>
     (case tk_latest tk of None \<Rightarrow> False
      | Some ps \<Rightarrow> \<exists>p \<in> set ps. (tk_pid tk = Some (pi_pid p) \<or> tk_pgid tk = Some (pi_pid p))
          \<and> (identity_of p \<in> set (tk_baseline tk)
             \<or> (\<exists>i \<in> fst ` set (tk_known tk). id_pid i = pi_pid p \<and> id_start i \<noteq> pi_start p)))"

definition survivors :: "tracker \<Rightarrow> process_info list" where
  "survivors tk = (case tk_latest tk of None \<Rightarrow> [] | Some ps \<Rightarrow> filter (\<lambda>p. running p \<and> is_known (tk_known tk) p) ps)"

subsection \<open>Stopping descendants\<close>

definition descendant_targets :: "tracker \<Rightarrow> process_info list" where
  "descendant_targets tk =
     filter (\<lambda>p. running p \<and> tk_pid tk \<noteq> Some (pi_pid p) \<and> tk_pgid tk \<noteq> Some (pi_pgid p)) (map snd (tk_observed tk))"

function chunks :: "nat \<Rightarrow> 'a list \<Rightarrow> 'a list list" where
  "chunks n xs = (if xs = [] \<or> n = 0 then [] else take n xs # chunks n (drop n xs))"
  by pat_completeness auto
termination by (relation "measure (\<lambda>(n, xs). length xs)") auto

declare chunks.simps [simp del]

text \<open>
  What a signalling run reported, row by row.  A row that does not fit is passed over; an outcome that
  is a list or an object raises where it is looked up in a set, which ends the reading.
\<close>

datatype row = Reported "int \<times> int" string | Passed_over | Raises

definition read_row :: "json \<Rightarrow> row" where
  "read_row r =
     (case r of
        JObject data \<Rightarrow>
          (case (item data ''pid'', item data ''start_ticks'') of
             (Some (JInt pid), Some (JInt start)) \<Rightarrow>
               (case item data ''outcome'' of
                  Some (JText t) \<Rightarrow>
                    if t \<in> set [''sent'', ''absent'', ''replaced'', ''refused''] then Reported (pid, start) t else Passed_over
                | Some (JList _) \<Rightarrow> Raises
                | Some (JObject _) \<Rightarrow> Raises
                | _ \<Rightarrow> Passed_over)
           | _ \<Rightarrow> Passed_over)
      | _ \<Rightarrow> Passed_over)"

fun read_rows :: "json list \<Rightarrow> ((int \<times> int) \<times> string) list \<Rightarrow> ((int \<times> int) \<times> string) list \<times> bool" where
  "read_rows [] known = (known, False)"
| "read_rows (r # rs) known =
     (case read_row r of
        Raises \<Rightarrow> (known, True)
      | Passed_over \<Rightarrow> read_rows rs known
      | Reported i t \<Rightarrow> read_rows rs (AList.update i t known))"

text \<open>
  The batches in order, each with what the sandbox was and answered: an exception ends the signalling
  and keeps what is known.  The second component is what was sent to be signalled.
\<close>

fun signal_batches ::
  "(string \<Rightarrow> json option) \<Rightarrow> process_info list list \<Rightarrow> glimpse list \<Rightarrow> ((int \<times> int) \<times> string) list \<Rightarrow>
   ((int \<times> int) \<times> string) list \<times> proc_id list list" where
  "signal_batches loads [] gs outcomes = (outcomes, [])"
| "signal_batches loads (b # bs) [] outcomes = (outcomes, [])"
| "signal_batches loads (b # bs) (g # gs) outcomes =
     (if \<not> gl_same_instance g then (outcomes, [])
      else (case gl_reply g of
          Exec_failed \<Rightarrow> (outcomes, [map identity_of b])
        | Exec_said status out \<Rightarrow>
            (let continue = (\<lambda>known. apsnd ((#) (map identity_of b)) (signal_batches loads bs gs known))
             in if status = 0 \<and> int (length out) \<le> max_snapshot_bytes
                then (case loads out of
                    None \<Rightarrow> (outcomes, [map identity_of b])
                  | Some (JList rows) \<Rightarrow>
                      (case read_rows rows outcomes of (known, raised) \<Rightarrow>
                         if raised then (known, [map identity_of b]) else continue known)
                  | Some _ \<Rightarrow> continue outcomes)
                else continue outcomes)))"

definition stop_descendants ::
  "(string \<Rightarrow> json option) \<Rightarrow> bool \<Rightarrow> glimpse list \<Rightarrow> tracker \<Rightarrow> bool \<times> proc_id list list" where
  "stop_descendants loads bounded gs tk =
     (let targets = descendant_targets tk
      in if targets = [] then (True, [])
         else (case (if bounded then signal_batches loads (chunks max_processes targets) gs [] else ([], [])) of
             (outcomes, sent) \<Rightarrow>
               (list_all (\<lambda>p. map_of outcomes (int (pi_pid p), int (pi_start p)) \<in> {Some ''sent'', Some ''absent''}) targets,
                sent)))"

subsection \<open>Stopping the program\<close>

datatype fate = Sent | Refused_fate | Absent | Unrecorded | Unknown_fate
datatype reach = Reached_group | Reached_program | Reached_nothing
datatype kill_target = To_group nat | To_process nat
datatype unclean_note = Descendants_remain | Verification_incomplete | Survivors_seen | Not_stopped

record stop_world =
  sw_after_launch :: glimpse
  sw_before_cleanup :: glimpse
  sw_same_instance :: bool
  sw_in_time :: bool
  sw_kill :: exec_reply
  sw_bounded :: bool
  sw_batches :: "glimpse list"
  sw_after_cleanup :: glimpse
  sw_same_at_end :: bool

record stop_outcome =
  so_fate :: fate
  so_reach :: reach
  so_target :: "kill_target option"
  so_batches :: "proc_id list list"
  so_notes :: "unclean_note list"
  so_tracker :: tracker

definition signal_program :: "stop_world \<Rightarrow> tracker \<Rightarrow> fate \<times> reach \<times> kill_target option" where
  "signal_program w tk =
     (if replaced (sw_same_instance w) tk then (Refused_fate, Reached_nothing, None)
      else (case tk_pid tk of
          None \<Rightarrow> (Unrecorded, Reached_nothing, None)
        | Some pid \<Rightarrow>
            if \<not> sw_in_time w then (Unknown_fate, Reached_nothing, None)
            else (let target = (case tk_pgid tk of Some g \<Rightarrow> To_group g | None \<Rightarrow> To_process pid)
                  in case sw_kill w of
                       Exec_said status _ \<Rightarrow>
                         if status = 0 then (Sent, if tk_pgid tk = None then Reached_program else Reached_group, Some target)
                         else (Refused_fate, Reached_nothing, Some target)
                     | Exec_failed \<Rightarrow> (Refused_fate, Reached_nothing, Some target))))"

definition stop_recorded_processes :: "(string \<Rightarrow> json option) \<Rightarrow> stop_world \<Rightarrow> tracker \<Rightarrow> stop_outcome" where
  "stop_recorded_processes loads w tk0 =
     (let tk1 = (if tk_phase tk0 = Some Before_launch then snapshot loads After_launch (sw_after_launch w) tk0 else tk0);
          tk2 = snapshot loads Before_cleanup (sw_before_cleanup w) tk1
      in case signal_program w tk2 of (fate, reach, target) \<Rightarrow>
         (case stop_descendants loads (sw_bounded w) (sw_batches w) tk2 of (settled, batches) \<Rightarrow>
           (let tk3 = snapshot loads After_cleanup (sw_after_cleanup w) tk2;
                clear = (tk_latest tk3 \<noteq> None \<and> \<not> tk_incomplete tk3 \<and> survivors tk3 = []);
                final = (if clear \<and> fate = Refused_fate \<and> tk_pid tk3 \<noteq> None \<and> \<not> replaced (sw_same_at_end w) tk3
                         then Absent else fate)
            in \<lparr>so_fate = final, so_reach = reach, so_target = target, so_batches = batches,
                so_notes = (if settled then [] else [Descendants_remain])
                           @ (if tk_incomplete tk3 then [Verification_incomplete] else [])
                           @ (if survivors tk3 \<noteq> [] then [Survivors_seen] else []),
                so_tracker = tk3\<rparr>)))"

definition note_unclean_stop :: "fate \<Rightarrow> unclean_note list" where
  "note_unclean_stop fate = (if fate \<in> {Absent, Sent} then [] else [Not_stopped])"

definition nothing_is_proven :: "fate \<Rightarrow> fate" where
  "nothing_is_proven fate = (if fate \<in> {Absent, Unrecorded} then Unknown_fate else fate)"

end
