(* ===== verification/Process_Properties.thy ===== *)
theory Process_Properties
  imports Processes
begin

text \<open>
  What the observation of processes is good for: a signal reaches only the program the launcher
  reported and processes that descend from it, and a stop that notes nothing has looked and found
  nothing left.
\<close>

subsection \<open>Processes of the run\<close>

text \<open>
  The lineage the tracker may rely on, over all the lists it has seen: the reported process, a member
  of the reported group, a child that is no older than its parent; never a process of the baseline.
\<close>

inductive of_run ::
  "process_info list set \<Rightarrow> proc_id set \<Rightarrow> nat option \<Rightarrow> nat option \<Rightarrow> proc_id \<Rightarrow> bool"
  for seen base pid pgid where
  the_program: "ps \<in> seen \<Longrightarrow> p \<in> set ps \<Longrightarrow> identity_of p \<notin> base \<Longrightarrow> pid = Some (pi_pid p) \<Longrightarrow>
    of_run seen base pid pgid (identity_of p)"
| in_group: "ps \<in> seen \<Longrightarrow> p \<in> set ps \<Longrightarrow> identity_of p \<notin> base \<Longrightarrow> pgid = Some (pi_pgid p) \<Longrightarrow>
    of_run seen base pid pgid (identity_of p)"
| child: "ps \<in> seen \<Longrightarrow> p \<in> set ps \<Longrightarrow> q \<in> set ps \<Longrightarrow> pi_pid q = pi_ppid p \<Longrightarrow> pi_start q \<le> pi_start p \<Longrightarrow>
    identity_of p \<notin> base \<Longrightarrow> of_run seen base pid pgid (identity_of q) \<Longrightarrow> of_run seen base pid pgid (identity_of p)"

lemma of_run_mono:
  "of_run seen base pid pgid i \<Longrightarrow> seen \<subseteq> seen' \<Longrightarrow> of_run seen' base pid pgid i"
  by (induction rule: of_run.induct) (blast intro: of_run.intros)+

lemma of_run_not_base: "of_run seen base pid pgid i \<Longrightarrow> i \<notin> base"
  by (induction rule: of_run.induct) simp_all

definition lineage_ok :: "process_info list set \<Rightarrow> tracker \<Rightarrow> (proc_id \<times> attribution) list \<Rightarrow> bool" where
  "lineage_ok seen tk known \<longleftrightarrow>
     (\<forall>i \<in> fst ` set known. of_run seen (set (tk_baseline tk)) (tk_pid tk) (tk_pgid tk) i)"

definition observations_ok :: "proc_id set \<Rightarrow> (proc_id \<times> process_info) list \<Rightarrow> bool" where
  "observations_ok keys obs \<longleftrightarrow> (\<forall>x \<in> set obs. fst x = identity_of (snd x) \<and> fst x \<in> keys)"

definition tracker_ok :: "process_info list set \<Rightarrow> tracker \<Rightarrow> bool" where
  "tracker_ok seen tk \<longleftrightarrow> lineage_ok seen tk (tk_known tk)
     \<and> observations_ok (fst ` set (tk_known tk)) (tk_observed tk)"

lemma recognise_ok:
  "lineage_ok seen tk known \<Longrightarrow> ps \<in> seen \<Longrightarrow> p \<in> set ps \<Longrightarrow> lineage_ok seen tk (recognise tk p known)"
  by (auto simp: lineage_ok_def recognise_def intro: of_run.intros)

lemma inherit_ok:
  assumes "lineage_ok seen tk known" "ps \<in> seen" "p \<in> set ps"
  shows "lineage_ok seen tk (inherit tk ps p known)"
proof (cases "inherit tk ps p known = known")
  case False
  then obtain q where q: "parent_of ps p = Some q" "is_known known q" "pi_start q \<le> pi_start p"
      "identity_of p \<notin> set (tk_baseline tk)" "inherit tk ps p known = known @ [(identity_of p, Descendant)]"
    by (auto simp: inherit_def split: option.splits if_splits)
  have parent: "q \<in> set ps" "pi_pid q = pi_ppid p" using find_SomeD q(1) unfolding parent_of_def by force+
  have "of_run seen (set (tk_baseline tk)) (tk_pid tk) (tk_pgid tk) (identity_of q)"
    using assms(1) q(2) unfolding lineage_ok_def is_known_def by blast
  from of_run.child [OF assms(2,3) parent q(3,4) this]
  have "of_run seen (set (tk_baseline tk)) (tk_pid tk) (tk_pgid tk) (identity_of p)" .
  then show ?thesis using assms(1) q(5) by (auto simp: lineage_ok_def)
qed (use assms in simp)

lemma fold_keeps: "(\<And>x s. x \<in> set xs \<Longrightarrow> P s \<Longrightarrow> P (f x s)) \<Longrightarrow> P s \<Longrightarrow> P (fold f xs s)"
  by (induction xs arbitrary: s) auto

lemma inherit_loop_ok:
  assumes "lineage_ok seen tk known" "ps \<in> seen"
  shows "lineage_ok seen tk (inherit_loop tk ps known)"
  using assms
proof (induction tk ps known rule: inherit_loop.induct)
  case (1 tk ps known)
  have "lineage_ok seen tk (inherit_pass tk ps known)"
    unfolding inherit_pass_def using 1(2,3) by (intro fold_keeps [where P = "lineage_ok seen tk"] inherit_ok)
  then show ?case using 1 by (cases "inherit_pass tk ps known = known") (simp_all add: inherit_loop.simps [of tk ps known])
qed

lemma recognise_known: "set known \<subseteq> set (recognise tk p known)"
  by (auto simp: recognise_def)

lemma fold_recognise_known: "set known \<subseteq> set (fold (recognise tk) ps known)"
proof (induction ps arbitrary: known)
  case (Cons p ps)
  show ?case using recognise_known [of known tk p] Cons [of "recognise tk p known"] by auto
qed simp

lemma inherit_superset: "set known \<subseteq> set (inherit tk ps p known)"
  by (auto simp: inherit_def split: option.splits)

lemma fold_inherit_superset: "set known \<subseteq> set (fold (inherit tk ps) qs known)"
proof (induction qs arbitrary: known)
  case (Cons p qs)
  show ?case using inherit_superset [of known tk ps p] Cons [of "inherit tk ps p known"] by auto
qed simp

lemma inherit_loop_superset: "set known \<subseteq> set (inherit_loop tk ps known)"
proof (induction tk ps known rule: inherit_loop.induct)
  case (1 tk ps known)
  have "set known \<subseteq> set (inherit_pass tk ps known)" unfolding inherit_pass_def by (rule fold_inherit_superset)
  then show ?case using 1 by (cases "inherit_pass tk ps known = known") (auto simp: inherit_loop.simps [of tk ps known])
qed

lemma update_entries: "x \<in> set (AList.update k v xs) \<Longrightarrow> x = (k, v) \<or> x \<in> set xs"
  by (induction xs) (auto split: if_splits)

lemma observation_ok:
  "observations_ok (fst ` set known) obs \<Longrightarrow>
   observations_ok (fst ` set known) (if is_known known p then AList.update (identity_of p) p obs else obs)"
proof (cases "is_known known p")
  case True
  assume ok: "observations_ok (fst ` set known) obs"
  have "fst x = identity_of (snd x) \<and> fst x \<in> fst ` set known"
    if "x \<in> set (AList.update (identity_of p) p obs)" for x
    using update_entries [OF that] ok True unfolding observations_ok_def is_known_def by (metis fst_conv snd_conv)
  then show ?thesis unfolding observations_ok_def if_P [OF True] by blast
qed simp

lemma observed_fold:
  "observations_ok (fst ` set known) obs \<Longrightarrow> observations_ok (fst ` set known)
     (fold (\<lambda>p obs. if is_known known p then AList.update (identity_of p) p obs else obs) ps obs)"
  by (rule fold_keeps [where P = "observations_ok (fst ` set known)"]) (rule observation_ok)

lemma attribute_fields [simp]:
  "tk_baseline (attribute tk ps) = tk_baseline tk" "tk_pid (attribute tk ps) = tk_pid tk"
  "tk_pgid (attribute tk ps) = tk_pgid tk" "tk_phase (attribute tk ps) = tk_phase tk"
  by (simp_all add: attribute_def Let_def)

lemma attribute_ok:
  assumes "tracker_ok seen tk" "ps \<in> seen"
  shows "tracker_ok seen (attribute tk ps)"
proof -
  let ?known = "inherit_loop tk ps (fold (recognise tk) ps (tk_known tk))"
  have "lineage_ok seen tk (fold (recognise tk) ps (tk_known tk))"
    using assms unfolding tracker_ok_def by (intro fold_keeps [where P = "lineage_ok seen tk"] recognise_ok) blast+
  then have known: "lineage_ok seen tk ?known" using assms(2) by (intro inherit_loop_ok)
  have "set (tk_known tk) \<subseteq> set ?known"
    using fold_recognise_known inherit_loop_superset by (metis subset_trans)
  then have "observations_ok (fst ` set ?known) (tk_observed tk)"
    using assms(1) unfolding tracker_ok_def observations_ok_def by blast
  from observed_fold [OF this] known show ?thesis
    unfolding tracker_ok_def attribute_def Let_def lineage_ok_def by simp
qed

lemma tracker_ok_mono: "tracker_ok seen tk \<Longrightarrow> seen \<subseteq> seen' \<Longrightarrow> tracker_ok seen' tk"
  unfolding tracker_ok_def lineage_ok_def using of_run_mono by blast


subsection \<open>The looks of a run\<close>

definition lists_seen :: "(string \<Rightarrow> json option) \<Rightarrow> glimpse list \<Rightarrow> process_info list set" where
  "lists_seen loads gs = {ps. \<exists>g \<in> set gs. \<exists>partial. seen_processes loads g = Some (ps, partial)}"

lemma snapshot_ok:
  assumes "tracker_ok seen tk" "phase \<noteq> Before_launch"
  shows "tracker_ok (seen \<union> lists_seen loads [g]) (snapshot loads phase g tk)"
    and "tk_baseline (snapshot loads phase g tk) = tk_baseline tk" "tk_pid (snapshot loads phase g tk) = tk_pid tk"
    and "tk_pgid (snapshot loads phase g tk) = tk_pgid tk"
proof -
  have "tracker_ok (seen \<union> lists_seen loads [g]) (snapshot loads phase g tk)
    \<and> tk_baseline (snapshot loads phase g tk) = tk_baseline tk \<and> tk_pid (snapshot loads phase g tk) = tk_pid tk
    \<and> tk_pgid (snapshot loads phase g tk) = tk_pgid tk"
  proof (cases "seen_processes loads g")
    case None
    then show ?thesis
      using tracker_ok_mono [OF assms(1), of "seen \<union> lists_seen loads [g]"]
      by (simp add: snapshot_def tracker_ok_def lineage_ok_def)
  next
    case (Some x)
    obtain ps partial where x: "x = (ps, partial)" by (rule prod.exhaust)
    let ?tk = "tk\<lparr>tk_phase := Some phase\<rparr>"
    have "tracker_ok (seen \<union> lists_seen loads [g]) ?tk"
      using tracker_ok_mono [OF assms(1), of "seen \<union> lists_seen loads [g]"] by (simp add: tracker_ok_def lineage_ok_def)
    moreover have "ps \<in> seen \<union> lists_seen loads [g]" using Some x unfolding lists_seen_def by auto
    ultimately have "tracker_ok (seen \<union> lists_seen loads [g]) (attribute ?tk ps)" by (rule attribute_ok)
    then show ?thesis using Some x assms(2) by (simp add: snapshot_def Let_def tracker_ok_def lineage_ok_def)
  qed
  then show "tracker_ok (seen \<union> lists_seen loads [g]) (snapshot loads phase g tk)"
    "tk_baseline (snapshot loads phase g tk) = tk_baseline tk" "tk_pid (snapshot loads phase g tk) = tk_pid tk"
    "tk_pgid (snapshot loads phase g tk) = tk_pgid tk" by simp_all
qed

text \<open>
  A tracker as the supervisor builds it: a look before the launch, the receipt, then looks of other
  phases.
\<close>

definition launched_tracker :: "(string \<Rightarrow> json option) \<Rightarrow> glimpse \<Rightarrow> (nat \<times> nat option) option \<Rightarrow> tracker" where
  "launched_tracker loads first receipt =
     (snapshot loads Before_launch first fresh_tracker)
       \<lparr>tk_pid := map_option fst receipt, tk_pgid := (case receipt of None \<Rightarrow> None | Some r \<Rightarrow> snd r)\<rparr>"

definition tracked ::
  "(string \<Rightarrow> json option) \<Rightarrow> glimpse \<Rightarrow> (nat \<times> nat option) option \<Rightarrow> (snapshot_phase \<times> glimpse) list \<Rightarrow> tracker" where
  "tracked loads first receipt looks =
     fold (\<lambda>look. snapshot loads (fst look) (snd look)) looks (launched_tracker loads first receipt)"

definition baseline_of :: "(string \<Rightarrow> json option) \<Rightarrow> glimpse \<Rightarrow> proc_id set" where
  "baseline_of loads first = (case seen_processes loads first of None \<Rightarrow> {} | Some x \<Rightarrow> identity_of ` set (fst x))"

definition watching ::
  "(string \<Rightarrow> json option) \<Rightarrow> glimpse \<Rightarrow> (nat \<times> nat option) option \<Rightarrow> process_info list set \<Rightarrow> tracker \<Rightarrow> bool" where
  "watching loads first receipt seen tk \<longleftrightarrow> tracker_ok seen tk \<and> set (tk_baseline tk) = baseline_of loads first
     \<and> tk_pid tk = map_option fst receipt \<and> tk_pgid tk = (case receipt of None \<Rightarrow> None | Some r \<Rightarrow> snd r)"

lemma watching_snapshot:
  assumes "watching loads first receipt seen tk" "phase \<noteq> Before_launch"
  shows "watching loads first receipt (seen \<union> lists_seen loads [g]) (snapshot loads phase g tk)"
  using assms(1) snapshot_ok [OF _ assms(2), of seen tk] unfolding watching_def by auto

lemma inherit_loop_nil: "inherit_loop tk ps [] = []"
proof -
  have "fold (inherit tk ps) qs [] = []" for qs
    by (induction qs) (simp_all add: inherit_def is_known_def split: option.splits)
  then show ?thesis by (simp add: inherit_loop.simps inherit_pass_def)
qed

lemma launched_watching: "watching loads first receipt {} (launched_tracker loads first receipt)"
proof (cases "seen_processes loads first")
  case None
  then show ?thesis
    by (simp add: watching_def launched_tracker_def snapshot_def fresh_tracker_def tracker_ok_def lineage_ok_def
        observations_ok_def baseline_of_def)
next
  case (Some x)
  obtain ps partial where x: "x = (ps, partial)" by (rule prod.exhaust)
  let ?tk = "fresh_tracker\<lparr>tk_phase := Some Before_launch, tk_baseline := map identity_of ps\<rparr>"
  have "fold (recognise ?tk) qs [] = []" for qs
    by (induction qs) (simp_all add: recognise_def fresh_tracker_def)
  then have known: "inherit_loop ?tk ps (fold (recognise ?tk) ps (tk_known ?tk)) = []"
    using inherit_loop_nil by (simp add: fresh_tracker_def)
  have "fold (\<lambda>p obs. if is_known [] p then AList.update (identity_of p) p obs else obs) qs [] = []" for qs
    by (induction qs) (simp_all add: is_known_def)
  then have "tk_known (attribute ?tk ps) = []" "tk_observed (attribute ?tk ps) = []"
    unfolding attribute_def Let_def known by (simp_all add: fresh_tracker_def)
  then show ?thesis
    using Some x by (simp add: watching_def launched_tracker_def snapshot_def Let_def tracker_ok_def lineage_ok_def
        observations_ok_def baseline_of_def)
qed

lemma watching_mono: "watching loads first receipt seen tk \<Longrightarrow> seen \<subseteq> seen' \<Longrightarrow> watching loads first receipt seen' tk"
  unfolding watching_def using tracker_ok_mono by blast

lemma tracked_watching:
  assumes "\<forall>look \<in> set looks. fst look \<noteq> Before_launch"
  shows "watching loads first receipt (lists_seen loads (map snd looks)) (tracked loads first receipt looks)"
proof -
  have "watching loads first receipt (seen \<union> lists_seen loads (map snd looks))
      (fold (\<lambda>look. snapshot loads (fst look) (snd look)) looks tk)"
    if "watching loads first receipt seen tk" for seen tk
    using assms that
  proof (induction looks arbitrary: seen tk)
    case Nil
    then show ?case by (simp add: lists_seen_def)
  next
    case (Cons look looks)
    have "watching loads first receipt (seen \<union> lists_seen loads [snd look]) (snapshot loads (fst look) (snd look) tk)"
      using Cons.prems by (intro watching_snapshot) auto
    from Cons.IH [OF _ this] Cons.prems(1)
    have "watching loads first receipt (seen \<union> lists_seen loads [snd look] \<union> lists_seen loads (map snd looks))
        (fold (\<lambda>look. snapshot loads (fst look) (snd look)) (look # looks) tk)" by simp
    then show ?case by (rule watching_mono) (auto simp: lists_seen_def)
  qed
  from this [OF launched_watching] show ?thesis by (simp add: tracked_def)
qed


subsection \<open>What a stop signals\<close>

lemma chunks_facts:
  "0 < n \<Longrightarrow> concat (chunks n xs) = xs \<and> (\<forall>c \<in> set (chunks n xs). c \<noteq> [] \<and> length c \<le> n)"
proof (induction n xs rule: chunks.induct)
  case (1 n xs)
  then show ?case by (cases "xs = []") (simp_all add: chunks.simps [of n xs] chunks.simps [of n "[]"])
qed

lemma signal_batches_sent:
  "sent \<in> set (snd (signal_batches loads bs gs outcomes)) \<Longrightarrow> \<exists>b \<in> set bs. sent = map identity_of b"
proof (induction loads bs gs outcomes rule: signal_batches.induct)
  case (3 loads b bs g gs outcomes)
  then show ?case by (auto simp: Let_def split: if_splits exec_reply.splits option.splits json.splits prod.splits)
qed auto

lemma stop_descendants_sent:
  assumes "sent \<in> set (snd (stop_descendants loads bounded gs tk))"
  shows "sent \<noteq> [] \<and> length sent \<le> max_processes \<and> set sent \<subseteq> identity_of ` set (descendant_targets tk)"
proof -
  have pos: "0 < max_processes" by (simp add: max_processes_def)
  have "sent \<in> set (snd (signal_batches loads (chunks max_processes (descendant_targets tk)) gs []))"
    using assms by (auto simp: stop_descendants_def Let_def split: if_splits prod.splits)
  then obtain b where b: "b \<in> set (chunks max_processes (descendant_targets tk))" "sent = map identity_of b"
    using signal_batches_sent by blast
  have "set b \<subseteq> set (concat (chunks max_processes (descendant_targets tk)))" using b(1) by auto
  then have "set b \<subseteq> set (descendant_targets tk)" using chunks_facts [OF pos] by metis
  moreover have "b \<noteq> [] \<and> length b \<le> max_processes" using chunks_facts [OF pos] b(1) by blast
  ultimately show ?thesis using b(2) by auto
qed

lemma signal_program_target:
  assumes "signal_program w tk = (fate, reach, target)"
  shows "(target = None \<or> (\<exists>pid. tk_pid tk = Some pid
        \<and> target = Some (case tk_pgid tk of Some g \<Rightarrow> To_group g | None \<Rightarrow> To_process pid)
        \<and> \<not> replaced (sw_same_instance w) tk \<and> sw_in_time w))
    \<and> (fate = Sent \<longleftrightarrow> target \<noteq> None \<and> (\<exists>out. sw_kill w = Exec_said 0 out)) \<and> fate \<noteq> Absent"
  using assms by (auto simp: signal_program_def Let_def split: if_splits option.splits exec_reply.splits)

definition stop_looks :: "snapshot_phase option \<Rightarrow> stop_world \<Rightarrow> glimpse list" where
  "stop_looks phase w = (if phase = Some Before_launch then [sw_after_launch w] else []) @ [sw_before_cleanup w]"

lemma snapshot_incomplete:
  "tk_ever_incomplete (snapshot loads phase g tk) \<longleftrightarrow>
     tk_ever_incomplete tk \<or> \<not> (\<exists>ps. seen_processes loads g = Some (ps, False))"
  "tk_incomplete (snapshot loads phase g tk) = tk_ever_incomplete (snapshot loads phase g tk)"
proof -
  have "tk_ever_incomplete (attribute tk ps) = tk_ever_incomplete tk" for tk ps
    by (simp add: attribute_def Let_def)
  then show "tk_ever_incomplete (snapshot loads phase g tk) \<longleftrightarrow>
     tk_ever_incomplete tk \<or> \<not> (\<exists>ps. seen_processes loads g = Some (ps, False))"
    by (auto simp: snapshot_def Let_def split: option.splits)
  show "tk_incomplete (snapshot loads phase g tk) = tk_ever_incomplete (snapshot loads phase g tk)"
    by (auto simp: snapshot_def Let_def split: option.splits)
qed

lemma stop_parts:
  assumes "watching loads first receipt seen tk"
  obtains tk2 fate reach target settled batches where
    "watching loads first receipt (seen \<union> lists_seen loads (stop_looks (tk_phase tk) w)) tk2"
    and "signal_program w tk2 = (fate, reach, target)"
    and "stop_descendants loads (sw_bounded w) (sw_batches w) tk2 = (settled, batches)"
    and "so_target (stop_recorded_processes loads w tk) = target" "so_batches (stop_recorded_processes loads w tk) = batches"
    and "tk_latest tk2 = map_option fst (seen_processes loads (sw_before_cleanup w))"
    and "so_tracker (stop_recorded_processes loads w tk) = snapshot loads After_cleanup (sw_after_cleanup w) tk2"
    and "\<not> tk_ever_incomplete tk2 \<longrightarrow> \<not> tk_ever_incomplete tk
      \<and> (\<exists>qs. seen_processes loads (sw_before_cleanup w) = Some (qs, False))"
    and "so_notes (stop_recorded_processes loads w tk) =
      (if settled then [] else [Descendants_remain])
      @ (if tk_incomplete (so_tracker (stop_recorded_processes loads w tk)) then [Verification_incomplete] else [])
      @ (if survivors (so_tracker (stop_recorded_processes loads w tk)) \<noteq> [] then [Survivors_seen] else [])"
proof -
  let ?tk1 = "if tk_phase tk = Some Before_launch then snapshot loads After_launch (sw_after_launch w) tk else tk"
  let ?tk2 = "snapshot loads Before_cleanup (sw_before_cleanup w) ?tk1"
  let ?tk3 = "snapshot loads After_cleanup (sw_after_cleanup w) ?tk2"
  let ?s1 = "seen \<union> (if tk_phase tk = Some Before_launch then lists_seen loads [sw_after_launch w] else {})"
  have "watching loads first receipt ?s1 ?tk1" using watching_snapshot [OF assms] assms by simp
  from watching_snapshot [OF this, of Before_cleanup "sw_before_cleanup w"]
  have w2: "watching loads first receipt (seen \<union> lists_seen loads (stop_looks (tk_phase tk) w)) ?tk2"
    by (rule watching_mono) (auto simp: lists_seen_def stop_looks_def)
  obtain fate reach target where sp: "signal_program w ?tk2 = (fate, reach, target)" by (metis prod.exhaust)
  obtain settled batches where sd: "stop_descendants loads (sw_bounded w) (sw_batches w) ?tk2 = (settled, batches)"
    by (rule prod.exhaust)
  have latest: "tk_latest ?tk2 = map_option fst (seen_processes loads (sw_before_cleanup w))"
    by (simp add: snapshot_def Let_def split: option.splits prod.splits)
  have ever: "\<not> tk_ever_incomplete ?tk2 \<longrightarrow> \<not> tk_ever_incomplete tk
      \<and> (\<exists>qs. seen_processes loads (sw_before_cleanup w) = Some (qs, False))"
    by (simp add: snapshot_incomplete)
  have run: "stop_recorded_processes loads w tk =
      \<lparr>so_fate = (if (tk_latest ?tk3 \<noteq> None \<and> \<not> tk_incomplete ?tk3 \<and> survivors ?tk3 = []) \<and> fate = Refused_fate
                     \<and> tk_pid ?tk3 \<noteq> None \<and> \<not> replaced (sw_same_at_end w) ?tk3 then Absent else fate),
       so_reach = reach, so_target = target, so_batches = batches,
       so_notes = (if settled then [] else [Descendants_remain])
         @ (if tk_incomplete ?tk3 then [Verification_incomplete] else [])
         @ (if survivors ?tk3 \<noteq> [] then [Survivors_seen] else []),
       so_tracker = ?tk3\<rparr>"
    unfolding stop_recorded_processes_def Let_def sp sd prod.case by (rule refl)
  show thesis by (rule that [OF w2 sp sd _ _ latest _ ever]) (simp_all add: run)
qed

text \<open>
  C12: A stop signals the run and nothing else.  The kill goes to the process of the host's own receipt,
  or to its group where it leads one, and not once the last look shows that number on a process that
  was there before the launch; every further process signalled was seen to descend from the program
  and was not there before it.
\<close>

theorem stop_reaches_only_the_run:
  assumes "\<forall>look \<in> set looks. fst look \<noteq> Before_launch" and "tk = tracked loads first receipt looks"
    and "stop = stop_recorded_processes loads w tk"
  shows "(so_target stop = None \<or> (\<exists>pid group. receipt = Some (pid, group)
        \<and> so_target stop = Some (case group of Some g \<Rightarrow> To_group g | None \<Rightarrow> To_process pid)
        \<and> (\<forall>ps partial p. seen_processes loads (sw_before_cleanup w) = Some (ps, partial) \<and> p \<in> set ps
             \<and> (pi_pid p = pid \<or> group = Some (pi_pid p)) \<longrightarrow> identity_of p \<notin> baseline_of loads first)))
    \<and> (\<forall>batch \<in> set (so_batches stop). batch \<noteq> [] \<and> length batch \<le> max_processes
        \<and> (\<forall>i \<in> set batch. map_option fst receipt \<noteq> Some (id_pid i)
             \<and> of_run (lists_seen loads (map snd looks @ stop_looks (tk_phase tk) w)) (baseline_of loads first)
                  (map_option fst receipt) (case receipt of None \<Rightarrow> None | Some r \<Rightarrow> snd r) i))"
    (is "?kill \<and> ?batches")
proof -
  let ?seen = "lists_seen loads (map snd looks @ stop_looks (tk_phase tk) w)"
  have "watching loads first receipt (lists_seen loads (map snd looks)) tk"
    using tracked_watching [OF assms(1)] assms(2) by simp
  from stop_parts [OF this, of w] obtain tk2 fate reach target settled batches where
    w2: "watching loads first receipt (lists_seen loads (map snd looks) \<union> lists_seen loads (stop_looks (tk_phase tk) w)) tk2"
    and sp: "signal_program w tk2 = (fate, reach, target)"
    and sd: "stop_descendants loads (sw_bounded w) (sw_batches w) tk2 = (settled, batches)"
    and o: "so_target stop = target" "so_batches stop = batches"
    and latest: "tk_latest tk2 = map_option fst (seen_processes loads (sw_before_cleanup w))"
    unfolding assms(3) by metis
  have w2: "watching loads first receipt ?seen tk2"
    by (rule watching_mono [OF w2]) (auto simp: lists_seen_def)
  then have fields: "tk_pid tk2 = map_option fst receipt" "tk_pgid tk2 = (case receipt of None \<Rightarrow> None | Some r \<Rightarrow> snd r)"
      "set (tk_baseline tk2) = baseline_of loads first" and ok: "tracker_ok ?seen tk2"
    by (simp_all add: watching_def)
  have ?kill
  proof (cases "target = None")
    case False
    then obtain pid where pid: "tk_pid tk2 = Some pid"
        "target = Some (case tk_pgid tk2 of Some g \<Rightarrow> To_group g | None \<Rightarrow> To_process pid)"
        "\<not> replaced (sw_same_instance w) tk2"
      using signal_program_target [OF sp] by blast
    then obtain group where r: "receipt = Some (pid, group)" using fields(1) by (cases receipt) auto
    have "identity_of p \<notin> baseline_of loads first"
      if "seen_processes loads (sw_before_cleanup w) = Some (ps, partial)" "p \<in> set ps"
        "pi_pid p = pid \<or> group = Some (pi_pid p)" for ps partial p
      using that pid(1,3) latest fields r unfolding replaced_def by auto
    moreover have "so_target stop = Some (case group of Some g \<Rightarrow> To_group g | None \<Rightarrow> To_process pid)"
      using o(1) pid(2) fields(2) r by simp
    ultimately show ?thesis using r by blast
  qed (simp add: o)
  moreover have ?batches
  proof (rule ballI)
    fix batch assume "batch \<in> set (so_batches stop)"
    then have b: "batch \<noteq> []" "length batch \<le> max_processes" "set batch \<subseteq> identity_of ` set (descendant_targets tk2)"
      using stop_descendants_sent [of batch loads "sw_bounded w" "sw_batches w" tk2] by (simp_all add: sd o)
    have "map_option fst receipt \<noteq> Some (id_pid i)
        \<and> of_run ?seen (baseline_of loads first) (map_option fst receipt) (case receipt of None \<Rightarrow> None | Some r \<Rightarrow> snd r) i"
      if i: "i \<in> set batch" for i
    proof -
      obtain p where p: "p \<in> set (descendant_targets tk2)" "i = identity_of p" using b(3) i by blast
      then obtain x where x: "x \<in> set (tk_observed tk2)" "p = snd x" by (auto simp: descendant_targets_def)
      then have "i \<in> fst ` set (tk_known tk2)"
        using ok p(2) unfolding tracker_ok_def observations_ok_def by metis
      then have "of_run ?seen (set (tk_baseline tk2)) (tk_pid tk2) (tk_pgid tk2) i"
        using ok unfolding tracker_ok_def lineage_ok_def by blast
      moreover have "tk_pid tk2 \<noteq> Some (id_pid i)" using p by (auto simp: descendant_targets_def identity_of_def)
      ultimately show ?thesis using fields by simp
    qed
    then show "batch \<noteq> [] \<and> length batch \<le> max_processes
        \<and> (\<forall>i \<in> set batch. map_option fst receipt \<noteq> Some (id_pid i)
             \<and> of_run ?seen (baseline_of loads first) (map_option fst receipt)
                 (case receipt of None \<Rightarrow> None | Some r \<Rightarrow> snd r) i)"
      using b by blast
  qed
  ultimately show ?thesis by blast
qed


subsection \<open>A stop that notes nothing\<close>

lemma tracked_incomplete:
  "tk_ever_incomplete (tracked loads first receipt looks) \<longleftrightarrow>
     (\<exists>g \<in> set (first # map snd looks). \<not> (\<exists>ps. seen_processes loads g = Some (ps, False)))"
proof -
  have "tk_ever_incomplete (fold (\<lambda>look. snapshot loads (fst look) (snd look)) looks tk) \<longleftrightarrow>
      tk_ever_incomplete tk \<or> (\<exists>g \<in> set (map snd looks). \<not> (\<exists>ps. seen_processes loads g = Some (ps, False)))" for tk
    by (induction looks arbitrary: tk) (auto simp: snapshot_incomplete)
  then show ?thesis
    by (simp add: tracked_def launched_tracker_def snapshot_incomplete) (simp add: fresh_tracker_def)
qed

lemma inherit_length: "length known \<le> length (inherit tk ps p known)"
  by (simp add: inherit_def split: option.splits)

lemma fold_inherit_length: "length known \<le> length (fold (inherit tk ps) qs known)"
proof (induction qs arbitrary: known)
  case (Cons p qs)
  show ?case using inherit_length [of known tk ps p] Cons [of "inherit tk ps p known"] by simp
qed simp

lemma fold_inherit_stable: "fold (inherit tk ps) qs known = known \<Longrightarrow> p \<in> set qs \<Longrightarrow> inherit tk ps p known = known"
proof (induction qs arbitrary: known)
  case (Cons q qs)
  have same: "inherit tk ps q known = known"
  proof (rule ccontr)
    assume "inherit tk ps q known \<noteq> known"
    then have "length known < length (inherit tk ps q known)"
      by (auto simp: inherit_def split: option.splits if_splits)
    then show False using fold_inherit_length [of "inherit tk ps q known" tk ps qs] Cons.prems(1) by simp
  qed
  then show ?case using Cons by auto
qed simp

lemma inherit_loop_stable: "p \<in> set ps \<Longrightarrow> inherit tk ps p (inherit_loop tk ps known) = inherit_loop tk ps known"
proof (induction tk ps known rule: inherit_loop.induct)
  case (1 tk ps known)
  show ?case
  proof (cases "inherit_pass tk ps known = known")
    case True
    then have "inherit_loop tk ps known = known" by (subst inherit_loop.simps) simp
    then show ?thesis using fold_inherit_stable [of tk ps ps known p] True 1(2) by (simp add: inherit_pass_def)
  next
    case False
    then have "inherit_loop tk ps known = inherit_loop tk ps (inherit_pass tk ps known)"
      by (subst inherit_loop.simps) simp
    then show ?thesis using 1 False by simp
  qed
qed

lemma decoded_distinct:
  assumes "seen_processes loads g = Some (ps, partial)"
  shows "distinct (map pi_pid ps)"
proof -
  obtain out where "decode_snapshot loads out = Inr (ps, partial)"
    using assms unfolding seen_processes_def by (auto split: if_splits exec_reply.splits sum.splits)
  then show ?thesis
    unfolding decode_snapshot_def by (auto simp: bindE_eq_Inr split: if_splits option.splits json.splits)
qed

lemma parent_unique:
  assumes "distinct (map pi_pid ps)" "q \<in> set ps" "pi_pid q = pi_ppid p"
  shows "parent_of ps p = Some q"
proof -
  have "inj_on pi_pid (set ps)" using assms(1) by (simp add: distinct_map)
  then have unique: "\<And>r. r \<in> set (rev ps) \<Longrightarrow> pi_pid r = pi_ppid p \<Longrightarrow> r = q"
    using assms(2,3) unfolding inj_on_def by auto
  obtain r where r: "find (\<lambda>q. pi_pid q = pi_ppid p) (rev ps) = Some r"
    using assms(2,3) by (cases "find (\<lambda>q. pi_pid q = pi_ppid p) (rev ps)") (auto simp: find_None_iff)
  then have "r \<in> set (rev ps)" "pi_pid r = pi_ppid p" using find_SomeD by force+
  then have "r = q" by (rule unique)
  then show ?thesis using r by (simp add: parent_of_def)
qed

lemma attribute_closed:
  assumes "distinct (map pi_pid ps)" "p \<in> set ps" "q \<in> set ps" "pi_pid q = pi_ppid p" "pi_start q \<le> pi_start p"
    and "is_known (tk_known (attribute tk ps)) q" and "identity_of p \<notin> set (tk_baseline tk)"
  shows "is_known (tk_known (attribute tk ps)) p"
proof -
  let ?known = "inherit_loop tk ps (fold (recognise tk) ps (tk_known tk))"
  have known: "tk_known (attribute tk ps) = ?known" by (simp add: attribute_def Let_def)
  have "inherit tk ps p ?known = ?known" by (rule inherit_loop_stable [OF assms(2)])
  then show ?thesis
    using assms(5-7) parent_unique [OF assms(1,3,4)] unfolding known inherit_def by (auto split: if_splits)
qed

lemma recognised:
  assumes "p \<in> set ps" "tk_pid tk = Some (pi_pid p)" "identity_of p \<notin> set (tk_baseline tk)"
  shows "known_pid (tk_known (attribute tk ps)) (pi_pid p)"
proof -
  have "known_pid (fold (recognise tk) qs known) (pi_pid p)" if "p \<in> set qs \<or> known_pid known (pi_pid p)" for qs known
    using that
  proof (induction qs arbitrary: known)
    case (Cons q qs)
    have "p \<in> set qs \<or> known_pid (recognise tk q known) (pi_pid p)"
    proof (cases "p = q")
      case True
      then show ?thesis
        using assms by (cases "known_pid known (pi_pid p)") (auto simp: recognise_def known_pid_def identity_of_def)
    next
      case False
      then show ?thesis using Cons.prems recognise_known [of known tk q] by (auto simp: known_pid_def)
    qed
    then show ?case using Cons.IH by simp
  qed simp
  then have "known_pid (fold (recognise tk) ps (tk_known tk)) (pi_pid p)" using assms(1) by blast
  then show ?thesis
    using inherit_loop_superset [of "fold (recognise tk) ps (tk_known tk)" tk ps]
    by (auto simp: attribute_def Let_def known_pid_def)
qed

text \<open>
  C34: A stop that notes nothing has looked.  Every look of the run succeeded and was complete, and in
  the last one nothing that runs belongs to the run: no known process, no child of one unless it was
  there before the launch, and under the reported number only a process that was there before or one
  that took the number over.
\<close>

theorem silent_stop_is_verified:
  assumes "\<forall>look \<in> set looks. fst look \<noteq> Before_launch"
    and "stop = stop_recorded_processes loads w (tracked loads first receipt looks)" and "so_notes stop = []"
  shows "(\<forall>g \<in> set (first # map snd looks @ [sw_before_cleanup w]). \<exists>qs. seen_processes loads g = Some (qs, False))
    \<and> (\<exists>ps. seen_processes loads (sw_after_cleanup w) = Some (ps, False)
        \<and> (\<forall>p \<in> set ps. running p \<longrightarrow>
             \<not> is_known (tk_known (so_tracker stop)) p
             \<and> (\<forall>q \<in> set ps. is_known (tk_known (so_tracker stop)) q \<and> pi_pid q = pi_ppid p \<and> pi_start q \<le> pi_start p
                  \<longrightarrow> identity_of p \<in> baseline_of loads first)
             \<and> (map_option fst receipt = Some (pi_pid p) \<longrightarrow> identity_of p \<in> baseline_of loads first
                  \<or> (\<exists>i \<in> fst ` set (tk_known (so_tracker stop)). id_pid i = pi_pid p \<and> id_start i \<noteq> pi_start p))))"
    (is "?looks \<and> ?last")
proof -
  let ?tk = "tracked loads first receipt looks"
  have w0: "watching loads first receipt (lists_seen loads (map snd looks)) ?tk" by (rule tracked_watching [OF assms(1)])
  from stop_parts [OF w0, of w] obtain tk2 seen settled where
    w2: "watching loads first receipt seen tk2"
    and end_: "so_tracker stop = snapshot loads After_cleanup (sw_after_cleanup w) tk2"
    and ever: "\<not> tk_ever_incomplete tk2 \<longrightarrow> \<not> tk_ever_incomplete ?tk
      \<and> (\<exists>qs. seen_processes loads (sw_before_cleanup w) = Some (qs, False))"
    and said: "so_notes stop = (if settled then [] else [Descendants_remain])
      @ (if tk_incomplete (so_tracker stop) then [Verification_incomplete] else [])
      @ (if survivors (so_tracker stop) \<noteq> [] then [Survivors_seen] else [])"
    unfolding assms(2) by metis
  have silence: "\<not> tk_incomplete (so_tracker stop)" "survivors (so_tracker stop) = []"
    using assms(3) said by (auto split: if_splits)
  have quiet: "\<not> tk_ever_incomplete tk2" "\<exists>ps. seen_processes loads (sw_after_cleanup w) = Some (ps, False)"
    using silence(1) by (simp_all add: end_ snapshot_incomplete)
  have "\<not> tk_ever_incomplete ?tk" "\<exists>ps. seen_processes loads (sw_before_cleanup w) = Some (ps, False)"
    using quiet(1) ever by blast+
  then have ?looks by (auto simp: tracked_incomplete)
  moreover have ?last
  proof -
    obtain ps where ps: "seen_processes loads (sw_after_cleanup w) = Some (ps, False)" using quiet(2) by blast
    let ?t = "tk2\<lparr>tk_phase := Some After_cleanup\<rparr>"
    have fields: "set (tk_baseline ?t) = baseline_of loads first" "tk_pid ?t = map_option fst receipt"
      using w2 by (simp_all add: watching_def)
    have known: "tk_known (so_tracker stop) = tk_known (attribute ?t ps)" "tk_latest (so_tracker stop) = Some ps"
      using ps by (simp_all add: end_ snapshot_def Let_def)
    have gone: "\<not> is_known (tk_known (so_tracker stop)) p" if "p \<in> set ps" "running p" for p
      using silence(2) that unfolding survivors_def known(2) by (auto simp: filter_empty_conv)
    have child: "identity_of p \<in> baseline_of loads first"
      if "p \<in> set ps" "running p" "q \<in> set ps" "is_known (tk_known (so_tracker stop)) q" "pi_pid q = pi_ppid p"
        "pi_start q \<le> pi_start p" for p q
      using attribute_closed [OF decoded_distinct [OF ps] that(1,3,5,6), of ?t] that(4) gone [OF that(1,2)] fields(1)
      unfolding known(1) by blast
    have number: "identity_of p \<in> baseline_of loads first
        \<or> (\<exists>i \<in> fst ` set (tk_known (so_tracker stop)). id_pid i = pi_pid p \<and> id_start i \<noteq> pi_start p)"
      if "p \<in> set ps" "running p" "map_option fst receipt = Some (pi_pid p)" for p
    proof (cases "identity_of p \<in> baseline_of loads first")
      case False
      then have "known_pid (tk_known (so_tracker stop)) (pi_pid p)"
        using recognised [OF that(1), of ?t] that(3) fields unfolding known(1) by simp
      then obtain i where i: "i \<in> fst ` set (tk_known (so_tracker stop))" "id_pid i = pi_pid p"
        unfolding known_pid_def by blast
      moreover have "i \<noteq> identity_of p" using gone [OF that(1,2)] i(1) unfolding is_known_def by blast
      then have "id_start i \<noteq> pi_start p" using i(2) by (cases i) (simp add: identity_of_def)
      ultimately show ?thesis by blast
    qed simp
    show ?thesis using ps gone child number by blast
  qed
  ultimately show ?thesis by blast
qed


subsection \<open>A run that was stopped\<close>

definition sample_process :: "int \<Rightarrow> int \<Rightarrow> int \<Rightarrow> int \<Rightarrow> json" where
  "sample_process pid ppid pgid start = JObject [(''pid'', JInt pid), (''ppid'', JInt ppid), (''pgid'', JInt pgid),
     (''sid'', JInt pgid), (''start_ticks'', JInt start), (''state'', JText ''S'')]"

definition sample_list :: "json list \<Rightarrow> json" where
  "sample_list ps = JObject [(''processes'', JList ps), (''incomplete'', JBool False)]"

definition sample_loads :: "string \<Rightarrow> json option" where
  "sample_loads out =
     (if out = ''idle'' then Some (sample_list [sample_process 1 0 1 1])
      else if out = ''busy'' then Some (sample_list [sample_process 1 0 1 1, sample_process 50 1 49 9, sample_process 51 50 51 12])
      else if out = ''killed'' then Some (JList [JObject [(''pid'', JInt 51), (''start_ticks'', JInt 12), (''outcome'', JText ''sent'')]])
      else None)"

definition sample_look :: "string \<Rightarrow> glimpse" where
  "sample_look out = \<lparr>gl_same_instance = True, gl_bounded = True, gl_reply = Exec_said 0 out\<rparr>"

definition sample_stop :: stop_world where
  "sample_stop = \<lparr>sw_after_launch = sample_look ''busy'', sw_before_cleanup = sample_look ''busy'', sw_same_instance = True,
     sw_in_time = True, sw_kill = Exec_said 0 [], sw_bounded = True, sw_batches = [sample_look ''killed''],
     sw_after_cleanup = sample_look ''idle'', sw_same_at_end = True\<rparr>"

definition sample_tracker :: tracker where
  "sample_tracker = tracked sample_loads (sample_look ''idle'') (Some (50, Some 49)) [(After_launch, sample_look ''busy'')]"

lemma sample_stopped:
  "so_target (stop_recorded_processes sample_loads sample_stop sample_tracker) = Some (To_group 49)"
  "so_batches (stop_recorded_processes sample_loads sample_stop sample_tracker) = [[Proc_id 51 12]]"
  "so_notes (stop_recorded_processes sample_loads sample_stop sample_tracker) = []"
  "tk_phase sample_tracker = Some After_launch"
  by code_simp+

theorem stop_reaches_only_the_run_witness:
  "of_run (lists_seen sample_loads [sample_look ''busy'', sample_look ''busy'']) (baseline_of sample_loads (sample_look ''idle''))
     (Some 50) (Some 49) (Proc_id 51 12)"
proof -
  have "\<forall>look \<in> set [(After_launch, sample_look ''busy'')]. fst look \<noteq> Before_launch" by simp
  from stop_reaches_only_the_run [OF this sample_tracker_def refl, of sample_stop]
  show ?thesis by (simp add: sample_stopped stop_looks_def) (simp add: sample_stop_def)
qed

theorem silent_stop_is_verified_witness:
  "\<exists>ps. seen_processes sample_loads (sw_after_cleanup sample_stop) = Some (ps, False)"
proof -
  have "\<forall>look \<in> set [(After_launch, sample_look ''busy'')]. fst look \<noteq> Before_launch" by simp
  from silent_stop_is_verified [OF this refl sample_stopped(3) [unfolded sample_tracker_def]]
  show ?thesis by blast
qed

end
