(* ===== verification/Transport.thy ===== *)
theory Transport
  imports Processes Host_Calls
begin

text \<open>
  Host tools over \<open>exec\<close> (\<open>_host_tools_over_exec.py\<close>): the supervisor that starts a guest program,
  finds its requests in files, answers them through a \<open>HostToolRun\<close> and waits for the exit marker.

  The guest is adversarial: what a stat, a read, a write, a look at the clock or at the activity
  answers is a function of the moment, and every await and every look is a moment of its own.
\<close>

subsection \<open>The world\<close>

text \<open>
  \<open>Ran_out\<close> is the supervisor's own bound inside a transport call (\<open>_DeadlineExpired\<close>); a timeout of
  the backend's is another failure.
\<close>

datatype failure =
    Ran_out | Backend_timed_out | Backend_failed | Activity_lost | Bad_path | Bad_argument | Call_raised | Cancelled_run

datatype stat_reply = Stat "sandbox_entry option" | Stat_failed failure
datatype read_reply = Bytes string | Cap_exceeded | Not_found | Read_failed failure
datatype write_reply = Written | Write_failed failure
datatype launch_reply = Launched int string string | Launch_timed_out | Launch_failed failure

record world =
  wd_now :: "nat \<Rightarrow> rat"
  wd_stat :: "nat \<Rightarrow> string \<Rightarrow> stat_reply"
  wd_read :: "nat \<Rightarrow> string \<Rightarrow> int \<Rightarrow> read_reply"
  wd_write :: "nat \<Rightarrow> string \<Rightarrow> string \<Rightarrow> write_reply"
  wd_active :: "nat \<Rightarrow> bool"
  wd_exec :: "nat \<Rightarrow> launch_reply"
  wd_clock :: "nat \<Rightarrow> clock"
  wd_during :: "nat \<Rightarrow> host_event list"

text \<open>
  Reading and writing of texts that the source leaves to the standard library or to another module:
  \<open>json.loads\<close>, \<open>int\<close>, how an argument is named, the sentence of a refusal.
\<close>

record texts =
  tx_loads :: "string \<Rightarrow> json option"
  tx_int :: "string \<Rightarrow> int option"
  tx_argument :: "json \<Rightarrow> string"
  tx_sentence :: "refused_call \<Rightarrow> nat list"

record setting =
  se_world :: world
  se_texts :: texts
  se_registry :: registry
  se_surface :: host_tool_aggregate
  se_layout :: run_layout
  se_deadline :: rat
  se_output_limit :: "int option"

subsection \<open>Reading a file that may not be there yet\<close>

datatype found = Content string | Too_large | Not_utf8

definition read_if_present :: "setting \<Rightarrow> nat \<Rightarrow> string \<Rightarrow> int \<Rightarrow> bool \<Rightarrow> failure + found option" where
  "read_if_present en t path cap exact =
     (case layout_path (se_layout en) path of
        Inl _ \<Rightarrow> Inl Bad_path
      | Inr p \<Rightarrow>
          (case wd_stat (se_world en) t p of
             Stat_failed f \<Rightarrow> Inl f
           | Stat None \<Rightarrow> Inr None
           | Stat (Some entry) \<Rightarrow>
               if entry_kind entry \<noteq> FILE \<or> size_bytes entry = Some 0 then Inr None
               else if (case size_bytes entry of None \<Rightarrow> True | Some n \<Rightarrow> n > cap) then Inr (Some Too_large)
               else (case wd_read (se_world en) (Suc t) p cap of
                   Read_failed f \<Rightarrow> Inl f
                 | Cap_exceeded \<Rightarrow> Inr (Some Too_large)
                 | Not_found \<Rightarrow> Inr None
                 | Bytes raw \<Rightarrow>
                     if int (length raw) > cap then Inr (Some Too_large)
                     else if exact \<and> \<not> utf8_ok (points raw) then Inr (Some Not_utf8)
                     else Inr (Some (Content raw)))))"

definition stat_if_present :: "setting \<Rightarrow> nat \<Rightarrow> string \<Rightarrow> failure + bool" where
  "stat_if_present en t path =
     (case layout_path (se_layout en) path of
        Inl _ \<Rightarrow> Inl Bad_path
      | Inr p \<Rightarrow>
          (case wd_stat (se_world en) t p of
             Stat_failed f \<Rightarrow> Inl f
           | Stat None \<Rightarrow> Inr False
           | Stat (Some entry) \<Rightarrow> Inr (entry_kind entry = FILE \<and> size_bytes entry \<noteq> Some 0)))"

definition call_file :: "run_layout \<Rightarrow> nat \<Rightarrow> string \<Rightarrow> string" where
  "call_file l identifier extension = path_join (ly_calls l) (padded identifier @ extension)"

definition read_request :: "setting \<Rightarrow> nat \<Rightarrow> nat \<Rightarrow> failure + found option" where
  "read_request en t identifier =
     read_if_present en t (call_file (se_layout en) identifier ''.request.json'') (request_cap (se_surface en)) True"

definition read_marker :: "setting \<Rightarrow> nat \<Rightarrow> failure + found option" where
  "read_marker en t = read_if_present en t (ly_exit_code (se_layout en)) marker_ceiling False"

definition read_output :: "setting \<Rightarrow> nat \<Rightarrow> failure + found option" where
  "read_output en t =
     read_if_present en t (ly_output (se_layout en)) (output_cap (se_surface en) (se_output_limit en)) False"

subsection \<open>The supervisor\<close>

text \<open>
  What the supervisor holds: the moment, how many requests it has passed, how many it looks for at
  once, since when the next one is missing, the calls of the run, and what it has handed over to be
  written, each answer under its number.
\<close>

record supervisor =
  sv_tick :: nat
  sv_served :: nat
  sv_window :: nat
  sv_hole :: "rat option"
  sv_calls :: host_calls
  sv_sent :: "(nat \<times> string) list"

definition fresh_supervisor :: "nat \<Rightarrow> host_calls \<Rightarrow> supervisor" where
  "fresh_supervisor t calls = \<lparr>sv_tick = t, sv_served = 0, sv_window = 1, sv_hole = None, sv_calls = calls, sv_sent = []\<rparr>"

definition pass_time :: "nat \<Rightarrow> supervisor \<Rightarrow> supervisor" where
  "pass_time k sv = sv\<lparr>sv_tick := sv_tick sv + k\<rparr>"

subsection \<open>Answers\<close>

definition frame_open :: string where "frame_open = CHR ''{'' # dq ''value'' @ '': ''"
definition frame_close :: string where "frame_close = ''}''"
definition framing_bytes :: int where "framing_bytes = int (length frame_open) + int (length frame_close)"

definition refusal_envelope :: "nat list \<Rightarrow> string" where
  "refusal_envelope sentence = CHR ''{'' # dq ''refusal'' @ '': '' @ json_text sentence @ ''}''"

definition refusal_too_long :: string where
  "refusal_too_long = ''Error: this host-tool request was refused, and the reason did not fit the response ceiling''"

definition refusal_answer :: "nat list \<Rightarrow> string" where
  "refusal_answer sentence =
     (if int (length (refusal_envelope sentence)) \<le> refusal_ceiling then refusal_envelope sentence
      else refusal_envelope (points refusal_too_long))"

definition request_too_large :: "nat list" where
  "request_too_large = points ''Error: this host-tool request is larger than the host will read '' @ [0x2014]
     @ points '' pass less, or write what you have to a file instead''"

definition not_json :: "nat list" where
  "not_json = points ''Error: this host-tool request is not valid JSON''"

definition not_an_object :: "nat list" where
  "not_an_object = points ''Error: a host-tool request must be a JSON object''"

definition value_text :: "string \<Rightarrow> string" where
  "value_text v = frame_open @ (if v = [] then ''null'' else v) @ frame_close"

definition outcome_text :: "texts \<Rightarrow> call_outcome \<Rightarrow> string" where
  "outcome_text tx outcome =
     (case outcome of Value v \<Rightarrow> value_text v | Refusal why \<Rightarrow> refusal_answer (tx_sentence tx why))"

text \<open>\<open>publish\<close>: the activity is looked at, then the answer is written under its number.\<close>

definition publish :: "setting \<Rightarrow> nat \<Rightarrow> string \<Rightarrow> supervisor \<Rightarrow> (failure + unit) \<times> supervisor" where
  "publish en identifier answer sv =
     (if \<not> wd_active (se_world en) (sv_tick sv) then (Inl Activity_lost, pass_time 1 sv)
      else (case layout_path (se_layout en) (call_file (se_layout en) identifier ''.response.json'') of
          Inl _ \<Rightarrow> (Inl Bad_path, pass_time 1 sv)
        | Inr p \<Rightarrow>
            (let sv' = (pass_time 2 sv)\<lparr>sv_sent := sv_sent sv @ [(identifier, answer)]\<rparr>
             in case wd_write (se_world en) (Suc (sv_tick sv)) p answer of
                  Written \<Rightarrow> (Inr (), sv')
                | Write_failed f \<Rightarrow> (Inl f, sv'))))"

definition request_name :: "(string \<times> json) list \<Rightarrow> tool_name" where
  "request_name req = (case item req ''name'' of Some (JText t) \<Rightarrow> Text t | _ \<Rightarrow> Not_text)"

definition request_arguments :: "texts \<Rightarrow> (string \<times> json) list \<Rightarrow> call_arguments" where
  "request_arguments tx req =
     (case item req ''arguments'' of
        None \<Rightarrow> No_arguments
      | Some JNull \<Rightarrow> No_arguments
      | Some (JObject members) \<Rightarrow> Object (map (apsnd (tx_argument tx)) members)
      | Some _ \<Rightarrow> Other_value)"

text \<open>
  \<open>run.call\<close>: the call is begun on the run; what happens to the run while it is under way is in the
  world, save for the publication, which is the supervisor's.  A call that the world leaves under way
  ends with the cancellation of the supervisor.
\<close>

definition not_own_publication :: "nat \<Rightarrow> host_event \<Rightarrow> bool" where
  "not_own_publication n ev = (case ev of Publish k _ \<Rightarrow> k \<noteq> n | _ \<Rightarrow> True)"

definition run_call :: "setting \<Rightarrow> nat \<Rightarrow> (string \<times> json) list \<Rightarrow> supervisor \<Rightarrow> (failure + unit) \<times> supervisor" where
  "run_call en identifier req sv =
     (let r = se_registry en; w = se_world en; n = length (hc_phases (sv_calls sv));
          begun = host_step r (Begin (request_name req) (request_arguments (se_texts en) req) framing_bytes
                                (wd_clock w (sv_tick sv))) (sv_calls sv);
          under_way = foldl (\<lambda>st ev. host_step r ev st) begun (filter (not_own_publication n) (wd_during w (sv_tick sv)))
      in if hr_closed (hc_run (sv_calls sv)) then (Inl Call_raised, pass_time 1 sv)
         else (case hc_phases under_way ! n of
             Publishing outcome crossing \<Rightarrow>
               (case publish en identifier (outcome_text (se_texts en) outcome) ((pass_time 1 sv)\<lparr>sv_calls := under_way\<rparr>) of
                  (Inr _, sv') \<Rightarrow> (Inr (), sv'\<lparr>sv_calls := host_step r (Publish n True) under_way\<rparr>)
                | (Inl f, sv') \<Rightarrow> (Inl f, sv'\<lparr>sv_calls := host_step r (Publish n False) under_way\<rparr>))
           | Finished _ _ \<Rightarrow> (Inl Call_raised, (pass_time 1 sv)\<lparr>sv_calls := under_way\<rparr>)
           | _ \<Rightarrow> (Inl Cancelled_run, (pass_time 1 sv)\<lparr>sv_calls := host_step r (Cancel n False) under_way\<rparr>)))"

definition answer :: "setting \<Rightarrow> found \<Rightarrow> nat \<Rightarrow> supervisor \<Rightarrow> (failure + unit) \<times> supervisor" where
  "answer en body identifier sv =
     (case body of
        Too_large \<Rightarrow> publish en identifier (refusal_answer request_too_large) sv
      | Not_utf8 \<Rightarrow> publish en identifier (refusal_answer not_json) sv
      | Content b \<Rightarrow>
          (case tx_loads (se_texts en) b of
             None \<Rightarrow> publish en identifier (refusal_answer not_json) sv
           | Some (JObject req) \<Rightarrow>
               if item req ''abandoned'' = Some (JBool True) then (Inr (), sv) else run_call en identifier req sv
           | Some _ \<Rightarrow> publish en identifier (refusal_answer not_an_object) sv))"


subsection \<open>Looking for requests and serving them\<close>

text \<open>
  A window of probes: the frontier's request is read, the later ones are only looked for.  The probes
  run beside each other; each has moments of its own.
\<close>

datatype probe = Frontier "failure + found option" | Later "failure + bool"

definition request_probes :: "setting \<Rightarrow> nat \<Rightarrow> nat \<Rightarrow> nat \<Rightarrow> probe list" where
  "request_probes en t served count =
     Frontier (read_request en t (served + 1))
     # map (\<lambda>k. Later (stat_if_present en (t + 2 + k) (call_file (se_layout en) (served + 2 + k) ''.request.json'')))
         [0..<count - 1]"

definition probe_body :: "setting \<Rightarrow> nat \<Rightarrow> nat \<Rightarrow> probe \<Rightarrow> failure + found option" where
  "probe_body en t identifier pr =
     (case pr of
        Frontier outcome \<Rightarrow> outcome
      | Later (Inl f) \<Rightarrow> Inl f
      | Later (Inr present) \<Rightarrow> if present then read_request en t identifier else Inr None)"

text \<open>\<open>_serve_request_probes\<close>: the found prefix is served in order; the flag says whether all of it was.\<close>

fun serve_probes :: "setting \<Rightarrow> nat \<Rightarrow> probe list \<Rightarrow> supervisor \<Rightarrow> (failure + bool) \<times> supervisor" where
  "serve_probes en identifier [] sv = (Inr True, sv)"
| "serve_probes en identifier (pr # prs) sv =
     (case probe_body en (sv_tick sv) identifier pr of
        Inl f \<Rightarrow> (Inl f, pass_time 2 sv)
      | Inr None \<Rightarrow> (Inr False, pass_time 2 sv)
      | Inr (Some body) \<Rightarrow>
          if wd_now (se_world en) (sv_tick sv + 2) \<ge> se_deadline en then (Inr False, pass_time 3 sv)
          else if \<not> wd_active (se_world en) (sv_tick sv + 3) then (Inl Activity_lost, pass_time 4 sv)
          else (case answer en body identifier (pass_time 4 sv) of
              (Inl f, sv') \<Rightarrow> (Inl f, sv')
            | (Inr _, sv') \<Rightarrow> serve_probes en (identifier + 1) prs (sv'\<lparr>sv_served := sv_served sv' + 1\<rparr>)))"

text \<open>\<open>_skip_dead_claim_hole\<close>: whether the number at the frontier is stepped over.\<close>

definition stat_call_file :: "setting \<Rightarrow> nat \<Rightarrow> nat \<Rightarrow> string \<Rightarrow> failure + sandbox_entry option" where
  "stat_call_file en t identifier extension =
     (case layout_path (se_layout en) (call_file (se_layout en) identifier extension) of
        Inl _ \<Rightarrow> Inl Bad_path
      | Inr p \<Rightarrow> (case wd_stat (se_world en) t p of Stat_failed f \<Rightarrow> Inl f | Stat e \<Rightarrow> Inr e))"

definition is_file :: "sandbox_entry option \<Rightarrow> bool" where
  "is_file e = (case e of None \<Rightarrow> False | Some x \<Rightarrow> entry_kind x = FILE)"

definition known_nonempty :: "sandbox_entry option \<Rightarrow> bool" where
  "known_nonempty e = (case e of None \<Rightarrow> False | Some x \<Rightarrow> size_bytes x \<noteq> None \<and> size_bytes x \<noteq> Some 0)"

definition skip_dead_claim_hole :: "setting \<Rightarrow> nat \<Rightarrow> nat \<Rightarrow> failure + bool" where
  "skip_dead_claim_hole en t served =
     bindE (stat_call_file en t (served + 1) ''.claim'') (\<lambda>claim.
       if \<not> is_file claim then Inr False
       else bindE (stat_call_file en (t + 1) (served + 2) ''.request.json'') (\<lambda>later.
         if \<not> (is_file later \<and> known_nonempty later) then Inr False
         else bindE (stat_call_file en (t + 2) (served + 1) ''.request.json'') (\<lambda>request.
           Inr (\<not> (is_file request \<and> (case request of None \<Rightarrow> False | Some x \<Rightarrow> size_bytes x \<noteq> Some 0))))))"

subsection \<open>The ends of a run\<close>

datatype output_note = No_note | Output_too_large | Output_unread failure

datatype run_end =
    Completed int string output_note
  | Launcher_failed int string string
  | Timed_out string output_note
  | Failed failure

definition exit_code_from :: "texts \<Rightarrow> found \<Rightarrow> int" where
  "exit_code_from tx recorded =
     (case recorded of Content b \<Rightarrow> (case tx_int tx b of Some n \<Rightarrow> n | None \<Rightarrow> 1) | _ \<Rightarrow> 1)"

definition as_text :: "found option \<Rightarrow> string" where
  "as_text v = (case v of Some (Content b) \<Rightarrow> b | _ \<Rightarrow> [])"

definition why_no_output :: "found option \<Rightarrow> output_note" where
  "why_no_output v = (if v = Some Too_large then Output_too_large else No_note)"

text \<open>\<open>_completed\<close>: the marker has been read, so only the output may still be missing.\<close>

definition completed :: "setting \<Rightarrow> nat \<Rightarrow> found \<Rightarrow> run_end" where
  "completed en t finished =
     (case read_output en t of
        Inr output \<Rightarrow> Completed (exit_code_from (se_texts en) finished) (as_text output) (why_no_output output)
      | Inl f \<Rightarrow> if f \<in> {Ran_out, Backend_timed_out}
                 then Completed (exit_code_from (se_texts en) finished) [] (Output_unread f) else Failed f)"

definition max_quoted_output :: nat where "max_quoted_output = 2000"

text \<open>
  The way out once the bound has run out: a last look for the marker, then what was printed so far.
  Whatever is raised on this way means the same as nothing being there.
\<close>

definition out_of_time :: "setting \<Rightarrow> nat \<Rightarrow> run_end" where
  "out_of_time en t =
     (case read_marker en t of
        Inr (Some landed) \<Rightarrow> completed en (t + 2) landed
      | _ \<Rightarrow>
          (case read_output en (t + 2) of
             Inr output \<Rightarrow> Timed_out (take max_quoted_output (as_text output)) (why_no_output output)
           | Inl _ \<Rightarrow> Timed_out [] No_note))"

subsection \<open>The loop\<close>

definition claim_hole_grace :: rat where "claim_hole_grace = 5"
definition max_speculative_requests :: nat where "max_speculative_requests = 4"

definition allowance :: "setting \<Rightarrow> nat" where
  "allowance en = nat (serving_bound (se_surface en))"

text \<open>What a failure inside a pass comes to: the supervisor's own bound is the run's end.\<close>

definition ended_by :: "setting \<Rightarrow> failure \<Rightarrow> supervisor \<Rightarrow> run_end option \<times> supervisor" where
  "ended_by en f sv = (Some (if f = Ran_out then out_of_time en (sv_tick sv) else Failed f), sv)"

text \<open>After the walk over a window: how wide the next one is, and whether a hole is stepped over.\<close>

definition after_walk :: "setting \<Rightarrow> nat \<Rightarrow> nat \<Rightarrow> bool \<Rightarrow> supervisor \<Rightarrow> run_end option \<times> supervisor" where
  "after_walk en before count full sv0 =
     (let sv = (if sv_served sv0 \<noteq> before then sv0\<lparr>sv_hole := None\<rparr> else sv0); now = wd_now (se_world en) (sv_tick sv)
      in if \<not> full then
           (let sv = (pass_time 1 sv)\<lparr>sv_window := 1\<rparr>
            in case sv_hole sv of
                 None \<Rightarrow> (None, sv\<lparr>sv_hole := Some now\<rparr>)
               | Some since \<Rightarrow>
                   if now - since \<ge> claim_hole_grace
                   then (case skip_dead_claim_hole en (sv_tick sv) (sv_served sv) of
                       Inl f \<Rightarrow> ended_by en f (pass_time 3 sv)
                     | Inr skipped \<Rightarrow>
                         (None, (pass_time 3 sv)\<lparr>sv_served := sv_served sv + (if skipped then 1 else 0),
                                                 sv_hole := (if skipped then None else Some now)\<rparr>))
                   else (None, sv))
         else if count = sv_window sv \<and> sv_served sv < allowance en
         then (None, sv\<lparr>sv_window := min max_speculative_requests (sv_window sv * 2)\<rparr>)
         else (None, sv))"

text \<open>One turn of the loop, the sleep at its end included.\<close>

definition loop_pass :: "setting \<Rightarrow> supervisor \<Rightarrow> run_end option \<times> supervisor" where
  "loop_pass en sv =
     (let t = sv_tick sv; remaining = allowance en - sv_served sv
      in if \<not> wd_active (se_world en) t then (Some (Failed Activity_lost), pass_time 2 sv)
         else if wd_now (se_world en) (t + 1) \<ge> se_deadline en then (Some (out_of_time en (t + 2)), pass_time 2 sv)
         else (case read_marker en (t + 2) of
             Inl f \<Rightarrow> ended_by en f (pass_time 4 sv)
           | Inr (Some finished) \<Rightarrow> (Some (completed en (t + 4) finished), pass_time 4 sv)
           | Inr None \<Rightarrow>
               if remaining = 0 then (None, pass_time 4 sv)
               else (let count = min (sv_window sv) remaining;
                         probes = request_probes en (t + 4) (sv_served sv) count
                     in case serve_probes en (sv_served sv + 1) probes (pass_time (6 + count) sv) of
                          (Inl f, sv') \<Rightarrow> ended_by en f sv'
                        | (Inr full, sv') \<Rightarrow> after_walk en (sv_served sv) count full sv')))"

partial_function (option) supervise_loop :: "setting \<Rightarrow> supervisor \<Rightarrow> (run_end \<times> supervisor) option" where
  "supervise_loop en sv =
     (let x = loop_pass en sv
      in if fst x = None then supervise_loop en (snd x) else Some (the (fst x), snd x))"

declare supervise_loop.simps [code]


subsection \<open>Starting the program\<close>

text \<open>
  What starting comes to: the supervision begins, or the run is over before it, together with whether
  the launcher was run (so a program may exist), whether its own reply is what ran out, the receipt,
  what was uploaded and the moment.
\<close>

record start =
  st_end :: "run_end option"
  st_executed :: bool
  st_unproven :: bool
  st_receipt :: "(nat \<times> nat option) option"
  st_uploaded :: "string list"
  st_tick :: nat

definition no_program_started :: run_end where "no_program_started = Timed_out [] No_note"

text \<open>The write of the start gate, which lets the program go.\<close>

definition release_program :: "setting \<Rightarrow> string \<Rightarrow> start \<Rightarrow> start" where
  "release_program en token st =
     (let t = st_tick st
      in if \<not> wd_active (se_world en) t then st\<lparr>st_end := Some (Failed Activity_lost), st_tick := t + 1\<rparr>
         else (case layout_path (se_layout en) (start_gate (ly_launcher (se_layout en))) of
             Inl _ \<Rightarrow> st\<lparr>st_end := Some (Failed Bad_path), st_tick := t + 1\<rparr>
           | Inr p \<Rightarrow>
               (let st' = st\<lparr>st_uploaded := st_uploaded st @ [token @ nl], st_tick := t + 2\<rparr>
                in case wd_write (se_world en) (t + 1) p (token @ nl) of
                     Written \<Rightarrow> st'
                   | Write_failed f \<Rightarrow>
                       st'\<lparr>st_end := Some (if f = Ran_out then no_program_started else Failed f)\<rparr>)))"

text \<open>
  What the launcher's own \<open>exec\<close> answered.  One that ran out may have started a program all the same:
  the marker is looked for before anything is concluded.
\<close>

definition launched :: "setting \<Rightarrow> string \<Rightarrow> start \<Rightarrow> start" where
  "launched en token st =
     (let t = st_tick st
      in case wd_exec (se_world en) t of
           Launch_failed f \<Rightarrow> st\<lparr>st_end := Some (Failed f), st_tick := t + 1\<rparr>
         | Launch_timed_out \<Rightarrow>
             (case read_marker en (t + 1) of
                Inr (Some landed) \<Rightarrow> st\<lparr>st_end := Some (completed en (t + 3) landed), st_tick := t + 5\<rparr>
              | _ \<Rightarrow> st\<lparr>st_end := Some no_program_started, st_unproven := True, st_tick := t + 3\<rparr>)
         | Launched status out err \<Rightarrow>
             (let receipt = process_receipt out;
                  noted = st\<lparr>st_receipt := receipt, st_tick := t + 1\<rparr>;
                  released = (if status = 0 \<and> receipt \<noteq> None then release_program en token noted else noted)
              in if st_end released \<noteq> None then released
                 else if \<not> wd_active (se_world en) (st_tick released)
                 then released\<lparr>st_end := Some (Failed Activity_lost), st_tick := st_tick released + 1\<rparr>
                 else released\<lparr>st_tick := st_tick released + 1,
                               st_end := (if status \<noteq> 0 then Some (Launcher_failed status err out)
                                          else if receipt = None then Some (Launcher_failed 1 [] []) else None)\<rparr>))"

definition start_program :: "setting \<Rightarrow> string \<Rightarrow> string \<Rightarrow> nat \<Rightarrow> start" where
  "start_program en interpreter token t =
     (let l = se_layout en;
          ended = (\<lambda>e uploaded k. \<lparr>st_end = Some e, st_executed = False, st_unproven = False, st_receipt = None, st_uploaded = uploaded, st_tick = k\<rparr>)
      in case launcher_script l interpreter (Some token) of
           Inl _ \<Rightarrow> ended (Failed Bad_argument) [] t
         | Inr script \<Rightarrow>
             (case layout_path l (ly_launcher l) of
                Inl _ \<Rightarrow> ended (Failed Bad_path) [] t
              | Inr p \<Rightarrow>
                  (case wd_write (se_world en) t p script of
                     Write_failed f \<Rightarrow> ended (if f = Ran_out then no_program_started else Failed f) [script] (t + 1)
                   | Written \<Rightarrow>
                       if wd_now (se_world en) (t + 1) \<ge> se_deadline en then ended no_program_started [script] (t + 2)
                       else if \<not> wd_active (se_world en) (t + 2) then ended (Failed Activity_lost) [script] (t + 3)
                       else launched en token
                              \<lparr>st_end = None, st_executed = True, st_unproven = False, st_receipt = None, st_uploaded = [script], st_tick = t + 3\<rparr>)))"

text \<open>\<open>_supervise\<close>: the start, then the loop; the calls of the run are those it had before.\<close>

record supervision =
  sn_end :: run_end
  sn_start :: start
  sn_final :: supervisor

definition supervise :: "setting \<Rightarrow> string \<Rightarrow> string \<Rightarrow> nat \<Rightarrow> host_calls \<Rightarrow> supervision option" where
  "supervise en interpreter token t calls =
     (let st = start_program en interpreter token t; sv = fresh_supervisor (st_tick st) calls
      in case st_end st of
           Some e \<Rightarrow> Some \<lparr>sn_end = e, sn_start = st, sn_final = sv\<rparr>
         | None \<Rightarrow> map_option (\<lambda>x. \<lparr>sn_end = fst x, sn_start = st, sn_final = snd x\<rparr>) (supervise_loop en sv))"

subsection \<open>The whole of it\<close>

definition limit_ok :: "count_arg option \<Rightarrow> bool" where
  "limit_ok limit = (case limit of None \<Rightarrow> True | Some (Count n) \<Rightarrow> 1 \<le> n | Some Not_a_count \<Rightarrow> False)"

text \<open>
  What a call of the transport leaves: its end, the stop of the program, what a timeout says of the
  signal, the notes that make the sandbox unclean, and what was handed to the removal of the
  transport's own directory.  The acquisition of the activity is left out.
\<close>

record transported =
  tp_end :: run_end
  tp_supervision :: supervision
  tp_stop :: "stop_outcome option"
  tp_signal :: "fate option"
  tp_notes :: "unclean_note list"
  tp_removed :: "(string \<times> string) option"

definition returns :: "run_end \<Rightarrow> bool" where
  "returns e = (case e of Completed _ _ _ \<Rightarrow> True | Launcher_failed _ _ _ \<Rightarrow> True | _ \<Rightarrow> False)"

definition times_out :: "run_end \<Rightarrow> bool" where
  "times_out e = (case e of Timed_out _ _ \<Rightarrow> True | _ \<Rightarrow> False)"

text \<open>The look after the launch is made once the launcher has answered and its activity still holds.\<close>

definition kept_tracker :: "setting \<Rightarrow> glimpse \<Rightarrow> glimpse \<Rightarrow> start \<Rightarrow> tracker" where
  "kept_tracker en first second st =
     (let tk = (snapshot (tx_loads (se_texts en)) Before_launch first fresh_tracker)
                 \<lparr>tk_pid := map_option fst (st_receipt st), tk_pgid := (case st_receipt st of None \<Rightarrow> None | Some r \<Rightarrow> snd r)\<rparr>;
          answered = (case st_end st of None \<Rightarrow> True | Some (Launcher_failed _ _ _) \<Rightarrow> True | _ \<Rightarrow> False)
      in if answered then snapshot (tx_loads (se_texts en)) After_launch second tk else tk)"

definition conclude_transport :: "setting \<Rightarrow> glimpse \<Rightarrow> glimpse \<Rightarrow> stop_world \<Rightarrow> supervision \<Rightarrow> transported" where
  "conclude_transport en first second w sn =
     (let st = sn_start sn; tk = kept_tracker en first second st;
          stop = (if st_executed st then Some (stop_recorded_processes (tx_loads (se_texts en)) w tk) else None);
          fate = (case stop of None \<Rightarrow> Absent
                  | Some out \<Rightarrow> if st_unproven st then nothing_is_proven (so_fate out) else so_fate out)
      in \<lparr>tp_end = (if returns (sn_end sn) \<and> \<not> wd_active (se_world en) (sv_tick (sn_final sn) + 8)
                    then Failed Activity_lost else sn_end sn),
          tp_supervision = sn, tp_stop = stop,
          tp_signal = (if times_out (sn_end sn) then Some fate else None),
          tp_notes = (case stop of Some out \<Rightarrow> so_notes out @ note_unclean_stop fate
                      | None \<Rightarrow> if tk_incomplete tk then [Verification_incomplete] else []),
          tp_removed = reclaim_the_transports_own (se_layout en)\<rparr>)"

text \<open>The bound of the run counts from the moment of the call.\<close>

definition host_tool_calls_over_exec ::
  "setting \<Rightarrow> seconds \<Rightarrow> seconds \<Rightarrow> count_arg option \<Rightarrow> string \<Rightarrow> string \<Rightarrow> glimpse \<Rightarrow> glimpse \<Rightarrow> stop_world \<Rightarrow>
   host_calls \<Rightarrow> transported result option" where
  "host_tool_calls_over_exec en0 timeout poll_interval limit interpreter token first second w calls =
     (case timeout of
        Odd_number \<Rightarrow> Some (Inl ValueError)
      | Finite bound \<Rightarrow>
          if \<not> positive_seconds timeout \<or> \<not> positive_seconds poll_interval \<or> \<not> limit_ok limit then Some (Inl ValueError)
          else (let en = en0\<lparr>se_deadline := wd_now (se_world en0) 0 + bound,
                             se_output_limit := (case limit of Some (Count n) \<Rightarrow> Some n | _ \<Rightarrow> None)\<rparr>
                in map_option (\<lambda>sn. Inr (conclude_transport en first second w sn)) (supervise en interpreter token 1 calls)))"

end
