(* ===== verification/Transport_Properties.thy ===== *)
theory Transport_Properties
  imports Process_Properties Transport Host_Call_Properties
begin

text \<open>
  Properties of host tools over \<open>exec\<close>: the supervision ends, it answers every request at most once
  and in order, what it writes fits the limits it asked the router for, and it reports a finished
  program only with the program's marker in hand.
\<close>

subsection \<open>Time\<close>

lemma pass_time_fields [simp]:
  "sv_tick (pass_time k sv) = sv_tick sv + k" "sv_served (pass_time k sv) = sv_served sv"
  "sv_window (pass_time k sv) = sv_window sv" "sv_hole (pass_time k sv) = sv_hole sv"
  "sv_calls (pass_time k sv) = sv_calls sv" "sv_sent (pass_time k sv) = sv_sent sv"
  by (simp_all add: pass_time_def)

text \<open>What a publication leaves alone, and that time only goes on.\<close>

lemma publish_fields:
  assumes "publish en i said sv = (x, sv')"
  shows "sv_tick sv \<le> sv_tick sv'" "sv_served sv' = sv_served sv" "sv_calls sv' = sv_calls sv"
    "sv_sent sv' = sv_sent sv \<or> sv_sent sv' = sv_sent sv @ [(i, said)]"
    "x = Inr () \<Longrightarrow> sv_sent sv' = sv_sent sv @ [(i, said)]"
  using assms by (auto simp: publish_def Let_def split: if_splits sum.splits write_reply.splits)

lemma run_call_fields:
  assumes "run_call en i req sv = (x, sv')"
  shows "sv_tick sv \<le> sv_tick sv' \<and> sv_served sv' = sv_served sv
    \<and> (sv_sent sv' = sv_sent sv \<or> (\<exists>said. sv_sent sv' = sv_sent sv @ [(i, said)]))"
proof -
  define calls where "calls = foldl (\<lambda>st ev. host_step (se_registry en) ev st)
     (host_step (se_registry en) (Begin (request_name req) (request_arguments (se_texts en) req) framing_bytes
       (wd_clock (se_world en) (sv_tick sv))) (sv_calls sv))
     (filter (not_own_publication (length (hc_phases (sv_calls sv)))) (wd_during (se_world en) (sv_tick sv)))"
  show ?thesis
  proof (cases "hr_closed (hc_run (sv_calls sv))")
    case True
    then show ?thesis using assms by (auto simp: run_call_def Let_def)
  next
    case False
    note r = assms [unfolded run_call_def Let_def calls_def [symmetric] if_not_P [OF False]]
    show ?thesis
    proof (cases "hc_phases calls ! length (hc_phases (sv_calls sv))")
      case (Publishing outcome crossing)
      obtain y sv'' where p: "publish en i (outcome_text (se_texts en) outcome) ((pass_time 1 sv)\<lparr>sv_calls := calls\<rparr>) = (y, sv'')"
        by (metis prod.exhaust)
      note f = publish_fields [OF p]
      show ?thesis
        using r [unfolded Publishing phase.case p prod.case] f(1,2,4) by (cases y) auto
    qed (use r in auto)
  qed
qed

lemma answer_ways:
  obtains (nothing) "answer en body i sv = (Inr (), sv)"
  | (refusal) sentence where "answer en body i sv = publish en i (refusal_answer sentence) sv"
  | (call) req where "answer en body i sv = run_call en i req sv"
proof (cases body)
  case (Content b)
  show ?thesis
  proof (cases "tx_loads (se_texts en) b")
    case None
    then show ?thesis using refusal Content by (simp add: answer_def)
  next
    case (Some v)
    show ?thesis
    proof (cases v)
      case (JObject req)
      then show ?thesis
        using Content Some by (cases "item req ''abandoned'' = Some (JBool True)")
          (rule nothing, simp add: answer_def, rule call [of req], simp add: answer_def)
    qed (use refusal Content Some in \<open>simp_all add: answer_def\<close>)
  qed
qed (use refusal in \<open>simp_all add: answer_def\<close>)

lemma answer_fields:
  assumes "answer en body i sv = (x, sv')"
  shows "sv_tick sv \<le> sv_tick sv' \<and> sv_served sv' = sv_served sv
    \<and> (sv_sent sv' = sv_sent sv \<or> (\<exists>said. sv_sent sv' = sv_sent sv @ [(i, said)]))"
proof (cases en body i sv rule: answer_ways)
  case (refusal sentence)
  from publish_fields [OF this [unfolded assms, symmetric]] show ?thesis by blast
next
  case (call req)
  from run_call_fields [OF this [unfolded assms, symmetric]] show ?thesis by blast
qed (use assms in simp)

lemma serve_probes_tick:
  "serve_probes en i prs sv = (x, sv') \<Longrightarrow> sv_tick sv \<le> sv_tick sv'"
proof (induction en i prs sv rule: serve_probes.induct)
  case (2 en i pr prs sv)
  show ?case
  proof (cases "probe_body en (sv_tick sv) i pr")
    case (Inl f)
    then show ?thesis using 2(2) by auto
  next
    case (Inr b)
    show ?thesis
    proof (cases b)
      case None
      then show ?thesis using 2(2) Inr by auto
    next
      case (Some body)
      obtain y sv1 where a: "answer en body i (pass_time 4 sv) = (y, sv1)" by (rule prod.exhaust)
      have t: "sv_tick sv + 4 \<le> sv_tick sv1" using answer_fields [OF a] by simp
      have IH: "serve_probes en (i + 1) prs (sv1\<lparr>sv_served := sv_served sv1 + 1\<rparr>) = (x, sv') \<Longrightarrow> y = Inr () \<Longrightarrow>
          \<not> wd_now (se_world en) (sv_tick sv + 2) \<ge> se_deadline en \<Longrightarrow> wd_active (se_world en) (sv_tick sv + 3) \<Longrightarrow>
          sv_tick sv1 \<le> sv_tick sv'"
        using 2(1) [OF Inr Some _ _ a [symmetric], of "()"] by auto
      show ?thesis using 2(2) Inr Some a t IH by (auto split: if_splits sum.splits)
    qed
  qed
qed simp


lemma ended_by_fields [simp]: "snd (ended_by en f sv) = sv" "fst (ended_by en f sv) \<noteq> None"
  by (simp_all add: ended_by_def)

lemma after_walk_fields:
  "sv_tick sv \<le> sv_tick (snd (after_walk en before count full sv))
   \<and> sv_sent (snd (after_walk en before count full sv)) = sv_sent sv
   \<and> sv_calls (snd (after_walk en before count full sv)) = sv_calls sv
   \<and> (sv_served (snd (after_walk en before count full sv)) = sv_served sv
      \<or> sv_served (snd (after_walk en before count full sv)) = sv_served sv + 1 \<and> \<not> full)"
  by (auto simp: after_walk_def Let_def split: option.splits sum.splits)

subsection \<open>The loop\<close>

text \<open>The ways of one pass.\<close>

lemma loop_pass_ways:
  obtains (over) e where "loop_pass en sv = (Some e, pass_time 2 sv)"
  | (ended) e where "loop_pass en sv = (Some e, pass_time 4 sv)"
  | (idle) "loop_pass en sv = (None, pass_time 4 sv)"
  | (failed) f sv' count where "loop_pass en sv = ended_by en f sv'" "0 < allowance en - sv_served sv" "count \<le> allowance en - sv_served sv"
      "serve_probes en (sv_served sv + 1) (request_probes en (sv_tick sv + 4) (sv_served sv) count) (pass_time (6 + count) sv) = (Inl f, sv')"
  | (walked) full sv' count where "loop_pass en sv = after_walk en (sv_served sv) count full sv'"
      "0 < allowance en - sv_served sv" "count \<le> allowance en - sv_served sv"
      "serve_probes en (sv_served sv + 1) (request_probes en (sv_tick sv + 4) (sv_served sv) count) (pass_time (6 + count) sv) = (Inr full, sv')"
proof -
  show thesis
  proof (cases "\<not> wd_active (se_world en) (sv_tick sv) \<or> wd_now (se_world en) (sv_tick sv + 1) \<ge> se_deadline en")
    case True
    then show ?thesis by (cases "wd_active (se_world en) (sv_tick sv)") (auto simp: loop_pass_def Let_def intro!: over)
  next
    case False
    show ?thesis
    proof (cases "read_marker en (sv_tick sv + 2)")
      case (Inl f)
      then show ?thesis using False by (intro ended) (simp add: loop_pass_def Let_def ended_by_def)
    next
      case (Inr m)
      show ?thesis
      proof (cases m)
        case (Some found)
        then show ?thesis using False Inr by (intro ended) (simp add: loop_pass_def Let_def)
      next
        case None
        let ?remaining = "allowance en - sv_served sv"
        let ?count = "min (sv_window sv) ?remaining"
        let ?probes = "request_probes en (sv_tick sv + 4) (sv_served sv) ?count"
        obtain y sv' where s: "serve_probes en (sv_served sv + 1) ?probes (pass_time (6 + ?count) sv) = (y, sv')"
          by (metis prod.exhaust)
        have eq: "loop_pass en sv = (if ?remaining = 0 then (None, pass_time 4 sv)
            else case y of Inl f \<Rightarrow> ended_by en f sv' | Inr full \<Rightarrow> after_walk en (sv_served sv) ?count full sv')"
          using False Inr None s unfolding loop_pass_def Let_def by (simp split: sum.split)
        show ?thesis
        proof (cases "?remaining = 0")
          case True
          then show ?thesis using eq by (intro idle) simp
        next
          case False
          show ?thesis
          proof (cases y)
            case (Inl f)
            show ?thesis by (rule failed [of f sv' ?count]) (use eq s Inl False in simp_all)
          next
            case (Inr full)
            show ?thesis by (rule walked [of ?count full sv']) (use eq s Inr False in simp_all)
          qed
        qed
      qed
    qed
  qed
qed

lemma loop_pass_tick: "sv_tick sv + 2 \<le> sv_tick (snd (loop_pass en sv))"
proof (cases en sv rule: loop_pass_ways)
  case (failed f sv' count)
  from serve_probes_tick [OF failed(4)] failed(1) show ?thesis by simp
next
  case (walked full sv' count)
  from serve_probes_tick [OF walked(4)] after_walk_fields [of sv' en "sv_served sv" count full]
  show ?thesis unfolding walked(1) by simp
qed simp_all

text \<open>A fact that every pass keeps holds of the last pass's start; there the run ends.\<close>

lemma supervise_loop_rule:
  assumes ret: "supervise_loop en sv = Some (e, sv')" and start: "P sv"
    and keep: "\<And>s s'. P s \<Longrightarrow> loop_pass en s = (None, s') \<Longrightarrow> P s'"
  shows "\<exists>s. P s \<and> loop_pass en s = (Some e, sv')"
proof -
  have "en = en \<longrightarrow> P sv \<longrightarrow> (\<exists>s. P s \<and> loop_pass en s = (Some (fst (e, sv')), snd (e, sv')))"
  proof (rule supervise_loop.raw_induct [where P = "\<lambda>n sv x. n = en \<longrightarrow> P sv \<longrightarrow> (\<exists>s. P s \<and> loop_pass en s = (Some (fst x), snd x))",
        OF _ ret], intro impI)
    fix f n s x
    assume IH: "\<And>n s x. f n s = Some x \<Longrightarrow> n = en \<longrightarrow> P s \<longrightarrow> (\<exists>s. P s \<and> loop_pass en s = (Some (fst x), snd x))"
      and eq: "(let x = loop_pass n s in if fst x = None then f n (snd x) else Some (the (fst x), snd x)) = Some x"
      and n: "n = en" and p: "P s"
    obtain r s' where l: "loop_pass en s = (r, s')" by (rule prod.exhaust)
    show "\<exists>s. P s \<and> loop_pass en s = (Some (fst x), snd x)"
    proof (cases r)
      case None
      then have "f en s' = Some x" using eq n l by (simp add: Let_def)
      then show ?thesis using IH [of en s' x] keep [OF p] l None by blast
    next
      case (Some e')
      then have "x = (e', s')" using eq n l by (simp add: Let_def)
      then show ?thesis using p l Some by auto
    qed
  qed
  then show ?thesis using start by simp
qed


subsection \<open>The supervision ends\<close>

lemma supervise_loop_ends:
  assumes "\<forall>t \<ge> T. se_deadline en \<le> wd_now (se_world en) t"
  shows "\<exists>x. supervise_loop en sv = Some x"
proof (induction "T - sv_tick sv" arbitrary: sv rule: less_induct)
  case less
  obtain r sv' where l: "loop_pass en sv = (r, sv')" by (rule prod.exhaust)
  show ?case
  proof (cases r)
    case (Some e)
    then show ?thesis using l by (subst supervise_loop.simps) (simp add: Let_def)
  next
    case None
    have "sv_tick sv < T"
    proof (rule ccontr)
      assume "\<not> sv_tick sv < T"
      then have "se_deadline en \<le> wd_now (se_world en) (sv_tick sv + 1)" using assms by simp
      then show False using l None by (simp add: loop_pass_def Let_def split: if_splits)
    qed
    moreover have "sv_tick sv + 2 \<le> sv_tick sv'" using loop_pass_tick [of sv en] l by simp
    ultimately have "T - sv_tick sv' < T - sv_tick sv" by simp
    from less [OF this] show ?thesis using l None by (subst supervise_loop.simps) (simp add: Let_def)
  qed
qed

lemma supervise_ends:
  assumes "\<forall>t \<ge> T. se_deadline en \<le> wd_now (se_world en) t"
  shows "\<exists>sn. supervise en interpreter token t calls = Some sn"
proof (cases "st_end (start_program en interpreter token t)")
  case None
  obtain x where "supervise_loop en (fresh_supervisor (st_tick (start_program en interpreter token t)) calls) = Some x"
    using supervise_loop_ends [OF assms] by blast
  then show ?thesis using None by (simp add: supervise_def Let_def)
qed (simp add: supervise_def Let_def)


subsection \<open>Order\<close>

text \<open>
  Every number answered is that of a request that was there to be read, the numbers go up, and none is
  past the frontier; the frontier is within the allowance.
\<close>

definition numbers_ok :: "setting \<Rightarrow> nat \<Rightarrow> nat list \<Rightarrow> bool" where
  "numbers_ok en frontier ids \<longleftrightarrow> sorted_wrt (<) ids \<and> frontier \<le> allowance en
     \<and> (\<forall>i \<in> set ids. 1 \<le> i \<and> i \<le> frontier \<and> (\<exists>t body. read_request en t i = Inr (Some body)))"

definition answered :: "setting \<Rightarrow> nat \<Rightarrow> supervisor \<Rightarrow> bool" where
  "answered en frontier sv \<longleftrightarrow> numbers_ok en frontier (map fst (sv_sent sv))"

lemma numbers_ok_more: "numbers_ok en k ids \<Longrightarrow> k \<le> n \<Longrightarrow> n \<le> allowance en \<Longrightarrow> numbers_ok en n ids"
  by (auto simp: numbers_ok_def intro: le_trans)

lemma numbers_ok_snoc:
  assumes "numbers_ok en k ids" "k + 1 \<le> allowance en" "\<exists>t body. read_request en t (k + 1) = Inr (Some body)"
  shows "numbers_ok en (k + 1) (ids @ [k + 1])"
proof -
  have "\<forall>i \<in> set ids. i < k + 1" using assms(1) by (auto simp: numbers_ok_def less_Suc_eq_le)
  then show ?thesis using assms by (auto simp: numbers_ok_def sorted_wrt_append)
qed

definition probes_of :: "setting \<Rightarrow> nat \<Rightarrow> probe list \<Rightarrow> bool" where
  "probes_of en i prs \<longleftrightarrow> (\<forall>k < length prs. \<forall>f. prs ! k = Frontier f \<longrightarrow> (\<exists>t. f = read_request en t (i + k)))"

lemma request_probes_of: "probes_of en (n + 1) (request_probes en t n count)"
  unfolding probes_of_def request_probes_def
proof (intro allI impI)
  fix k f
  assume "k < length (Frontier (read_request en t (n + 1))
      # map (\<lambda>k. Later (stat_if_present en (t + 2 + k) (call_file (se_layout en) (n + 2 + k) ''.request.json''))) [0..<count - 1])"
    and eq: "(Frontier (read_request en t (n + 1))
      # map (\<lambda>k. Later (stat_if_present en (t + 2 + k) (call_file (se_layout en) (n + 2 + k) ''.request.json''))) [0..<count - 1]) ! k
      = Frontier f"
  then have "k = 0" by (cases k) simp_all
  then show "\<exists>t. f = read_request en t (n + 1 + k)" using eq by auto
qed

lemma length_request_probes: "length (request_probes en t n count) = max 1 count"
  by (simp add: request_probes_def)

lemma probe_body_read:
  assumes "probes_of en i (pr # prs)" "probe_body en t i pr = Inr (Some body)"
  shows "\<exists>t. read_request en t i = Inr (Some body)"
proof (cases pr)
  case (Frontier f)
  have "\<exists>t. f = read_request en t (i + 0)" using assms(1) Frontier unfolding probes_of_def by (metis length_Cons nth_Cons_0 zero_less_Suc)
  then show ?thesis using assms(2) Frontier by (auto simp: probe_body_def)
next
  case (Later s)
  then show ?thesis using assms(2) by (cases s) (auto simp: probe_body_def split: if_splits)
qed

lemma probes_of_tail: "probes_of en i (pr # prs) \<Longrightarrow> probes_of en (i + 1) prs"
  unfolding probes_of_def by (metis Suc_eq_plus1 Suc_mono add.assoc add.commute length_Cons nth_Cons_Suc)

lemma answered_sent:
  assumes "answered en k sv" "sv_sent sv' = sv_sent sv \<or> (\<exists>said. sv_sent sv' = sv_sent sv @ [(k + 1, said)])"
    "k + 1 \<le> allowance en" "\<exists>t body. read_request en t (k + 1) = Inr (Some body)"
  shows "answered en (k + 1) sv'"
  using numbers_ok_more [of en k _ "k + 1"] numbers_ok_snoc [of en k "map fst (sv_sent sv)"] assms
  by (auto simp: answered_def)

lemma serve_probes_answered:
  assumes "answered en (sv_served sv) sv" "i = sv_served sv + 1" "length prs \<le> allowance en - sv_served sv" "probes_of en i prs"
    and "serve_probes en i prs sv = (x, sv')"
  shows "case x of Inr full \<Rightarrow> answered en (sv_served sv') sv' \<and> (\<not> full \<longrightarrow> sv_served sv' < allowance en)
    | Inl _ \<Rightarrow> \<exists>k. answered en k sv'"
  using assms
proof (induction en i prs sv rule: serve_probes.induct)
  case (2 en i pr prs sv)
  have small: "sv_served sv < allowance en" using 2(4) by simp
  have same: "answered en (sv_served sv) (pass_time k sv)" for k using 2(2) by (simp add: answered_def)
  show ?case
  proof (cases "probe_body en (sv_tick sv) i pr")
    case (Inl f)
    then have "x = Inl f" "sv' = pass_time 2 sv" using 2(6) by simp_all
    then show ?thesis using same by auto
  next
    case (Inr b)
    show ?thesis
    proof (cases b)
      case None
      then have "x = Inr False" "sv' = pass_time 2 sv" using 2(6) Inr by simp_all
      then show ?thesis using same small by simp
    next
      case (Some body)
      note eq = 2(6) [unfolded serve_probes.simps Inr Some sum.case option.case]
      show ?thesis
      proof (cases "wd_now (se_world en) (sv_tick sv + 2) \<ge> se_deadline en")
        case True
        then have "x = Inr False" "sv' = pass_time 3 sv" using eq by simp_all
        then show ?thesis using same small by simp
      next
        case late: False
        show ?thesis
        proof (cases "wd_active (se_world en) (sv_tick sv + 3)")
          case False
          then have "x = Inl Activity_lost" "sv' = pass_time 4 sv" using eq late by simp_all
          then show ?thesis using same by auto
        next
          case active: True
          obtain y sv1 where a: "answer en body i (pass_time 4 sv) = (y, sv1)" by (rule prod.exhaust)
          note f = answer_fields [OF a]
          have read: "\<exists>t body. read_request en t (sv_served sv + 1) = Inr (Some body)"
            using probe_body_read [OF 2(5)] Inr Some 2(3) by blast
          have ok: "answered en (sv_served sv + 1) sv1"
            using answered_sent [OF 2(2), of sv1] f 2(3) small read by auto
          show ?thesis
          proof (cases y)
            case (Inl g)
            then have "x = Inl g" "sv' = sv1" using eq late active a by simp_all
            then show ?thesis using ok by auto
          next
            case r: (Inr u)
            let ?next = "sv1\<lparr>sv_served := sv_served sv1 + 1\<rparr>"
            have n: "serve_probes en (i + 1) prs ?next = (x, sv')" using eq late active a r by simp
            have "answered en (sv_served ?next) ?next" using ok f by (simp add: answered_def)
            moreover have "i + 1 = sv_served ?next + 1" "length prs \<le> allowance en - sv_served ?next" using f 2(3,4) by simp_all
            ultimately show ?thesis
              using 2(1) [OF Inr Some late _ a [symmetric] r] active probes_of_tail [OF 2(5)] n by simp
          qed
        qed
      qed
    qed
  qed
qed auto

lemma walk_answered:
  assumes "answered en (sv_served sv) sv" "0 < allowance en - sv_served sv" "count \<le> allowance en - sv_served sv"
    and "serve_probes en (sv_served sv + 1) (request_probes en t (sv_served sv) count) (pass_time k sv) = (x, sv')"
  shows "case x of Inr full \<Rightarrow> answered en (sv_served sv') sv' \<and> (\<not> full \<longrightarrow> sv_served sv' < allowance en)
    | Inl _ \<Rightarrow> \<exists>k. answered en k sv'"
proof -
  have "answered en (sv_served (pass_time k sv)) (pass_time k sv)" using assms(1) by (simp add: answered_def)
  moreover have "length (request_probes en t (sv_served sv) count) \<le> allowance en - sv_served (pass_time k sv)"
    using assms(2,3) by (simp add: length_request_probes)
  ultimately show ?thesis using serve_probes_answered [OF _ _ _ request_probes_of assms(4)] by simp
qed

lemma loop_pass_answered:
  assumes "answered en (sv_served sv) sv" and "loop_pass en sv = (e, sv')"
  shows "if e = None then answered en (sv_served sv') sv' else \<exists>k. answered en k sv'"
proof (cases en sv rule: loop_pass_ways)
  case (failed f sv1 count)
  have "sv' = sv1" "e \<noteq> None" using failed(1) assms(2) ended_by_fields [of en f sv1] by (metis fst_conv snd_conv)+
  then show ?thesis using walk_answered [OF assms(1) failed(2,3,4)] by auto
next
  case (walked full sv1 count)
  have ok: "answered en (sv_served sv1) sv1" "\<not> full \<longrightarrow> sv_served sv1 < allowance en"
    using walk_answered [OF assms(1) walked(2,3,4)] by simp_all
  have "sv' = snd (after_walk en (sv_served sv) count full sv1)" using walked(1) assms(2) by (metis snd_conv)
  with after_walk_fields [of sv1 en "sv_served sv" count full] ok
  have "answered en (sv_served sv') sv'" using numbers_ok_more [of en "sv_served sv1" _ "sv_served sv1 + 1"]
    by (auto simp: answered_def)
  then show ?thesis by auto
qed (use assms in \<open>auto simp: answered_def\<close>)


lemma start_fresh: "sv_sent (fresh_supervisor t calls) = []" "sv_served (fresh_supervisor t calls) = 0"
  "sv_calls (fresh_supervisor t calls) = calls"
  by (simp_all add: fresh_supervisor_def)

text \<open>What holds at the start of a supervision and is kept by every pass holds at its last pass.\<close>

lemma supervise_rule:
  assumes "supervise en interpreter token t calls = Some sn" and "\<And>k. P (fresh_supervisor k calls)"
    and "\<And>s s'. P s \<Longrightarrow> loop_pass en s = (None, s') \<Longrightarrow> P s'"
  shows "(st_end (sn_start sn) = Some (sn_end sn) \<and> (\<exists>k. sn_final sn = fresh_supervisor k calls))
    \<or> (st_end (sn_start sn) = None \<and> (\<exists>s. P s \<and> loop_pass en s = (Some (sn_end sn), sn_final sn)))"
proof (cases "st_end (start_program en interpreter token t)")
  case (Some e)
  then show ?thesis using assms(1) by (auto simp: supervise_def Let_def)
next
  case None
  then obtain e sv' where l: "supervise_loop en (fresh_supervisor (st_tick (start_program en interpreter token t)) calls) = Some (e, sv')"
      and sn: "sn = \<lparr>sn_end = e, sn_start = start_program en interpreter token t, sn_final = sv'\<rparr>"
    using assms(1) by (auto simp: supervise_def Let_def)
  from supervise_loop_rule [where P = P, OF l assms(2) assms(3)] show ?thesis using None sn by simp
qed

lemma sent_numbers:
  assumes "supervise en interpreter token t calls = Some sn"
  shows "\<exists>k. numbers_ok en k (map fst (sv_sent (sn_final sn)))"
proof -
  have start: "answered en (sv_served (fresh_supervisor k calls)) (fresh_supervisor k calls)" for k
    by (simp add: start_fresh answered_def numbers_ok_def)
  note rule = supervise_rule [where P = "\<lambda>sv. answered en (sv_served sv) sv", OF assms start]
  have "\<exists>k. answered en k (sn_final sn)"
    using rule loop_pass_answered start by (metis (mono_tags, lifting) option.distinct(1))
  then show ?thesis by (auto simp: answered_def)
qed

lemma numbers_ok_length: "numbers_ok en k ids \<Longrightarrow> length ids \<le> allowance en"
proof -
  assume ok: "numbers_ok en k ids"
  then have "set ids \<subseteq> {1..allowance en}" unfolding numbers_ok_def by auto
  then have "card (set ids) \<le> allowance en" using card_mono [of "{1..allowance en}" "set ids"] by simp
  moreover have "distinct ids" using ok by (simp add: numbers_ok_def strict_sorted_iff)
  ultimately show ?thesis by (metis distinct_card)
qed

lemma sent_within_allowance:
  assumes "supervise en interpreter token t calls = Some sn" and "0 \<le> max_host_tool_calls_per_run (se_surface en)"
  shows "int (length (sv_sent (sn_final sn))) \<le> max_host_tool_calls_per_run (se_surface en) + 1"
proof -
  obtain k where "numbers_ok en k (map fst (sv_sent (sn_final sn)))" using sent_numbers [OF assms(1)] by blast
  from numbers_ok_length [OF this] show ?thesis using assms(2) by (simp add: allowance_def serving_bound_def)
qed

text \<open>
  C19: Requests are answered in order and at most once.  The numbers of the answers go up, each is that
  of a request the host could read, and there are no more of them than the calls the surface allows
  and one.
\<close>

theorem answers_are_in_order:
  assumes "supervise en interpreter token t calls = Some sn" and "0 \<le> max_host_tool_calls_per_run (se_surface en)"
  shows "sorted_wrt (<) (map fst (sv_sent (sn_final sn)))
    \<and> list_all (\<lambda>i. 1 \<le> i \<and> int i \<le> max_host_tool_calls_per_run (se_surface en) + 1
         \<and> (\<exists>k body. read_request en k i = Inr (Some body))) (map fst (sv_sent (sn_final sn)))
    \<and> int (length (sv_sent (sn_final sn))) \<le> max_host_tool_calls_per_run (se_surface en) + 1"
proof -
  let ?ids = "map fst (sv_sent (sn_final sn))"
  obtain k where k: "numbers_ok en k ?ids" using sent_numbers [OF assms(1)] by blast
  have cap: "int (allowance en) = max_host_tool_calls_per_run (se_surface en) + 1"
    using assms(2) by (simp add: allowance_def serving_bound_def)
  have "\<forall>i \<in> set ?ids. 1 \<le> i \<and> i \<le> allowance en \<and> (\<exists>t body. read_request en t i = Inr (Some body))"
    using k unfolding numbers_ok_def by (meson le_trans)
  then have "list_all (\<lambda>i. 1 \<le> i \<and> int i \<le> max_host_tool_calls_per_run (se_surface en) + 1
         \<and> (\<exists>k body. read_request en k i = Inr (Some body))) ?ids"
    using cap unfolding list_all_iff by (metis of_nat_le_iff)
  then show ?thesis using k sent_within_allowance [OF assms] unfolding numbers_ok_def by blast
qed

subsection \<open>What a run of calls settles\<close>

text \<open>The bytes that stay reserved for calls that are over, delivered or of uncertain delivery.\<close>

fun settled_size :: "phase \<Rightarrow> int" where
  "settled_size (Finished _ (Some n)) = n"
| "settled_size _ = 0"

definition settled :: "host_calls \<Rightarrow> int" where
  "settled st = total_of settled_size st"

lemma settled_size_nonneg: "phase_ok r ph \<Longrightarrow> 0 \<le> settled_size ph"
  by (cases ph rule: settled_size.cases) (auto simp: crossing_ok_def)

lemma settled_size_held: "phase_ok r ph \<Longrightarrow> settled_size ph \<le> snd (held_by_phase ph)"
  by (cases ph rule: settled_size.cases) (auto simp: kept_def crossing_ok_def split: option.splits)

lemma settled_within_total:
  assumes "ledgers r st"
  shows "settled st \<le> max_total_bytes (rg_limits r)"
proof -
  have "settled st \<le> total_of (snd \<circ> held_by_phase) st"
    using assms settled_size_held [of r] unfolding settled_def total_of_def ledgers_def by (auto intro!: sum_list_mono)
  then show ?thesis using assms by (simp add: ledgers_def within_caps_def)
qed

lemma settled_nonneg: "ledgers r st \<Longrightarrow> 0 \<le> settled st"
  using settled_size_nonneg [of r] unfolding settled_def total_of_def ledgers_def by (auto intro!: sum_list_nonneg)

lemma settled_set_phase:
  "n < length (hc_phases st) \<Longrightarrow>
   settled (set_phase n x st) = settled st - settled_size (hc_phases st ! n) + settled_size (fst (fst x))"
  by (cases x; cases "fst x") (simp add: settled_def total_of_def set_phase_def sum_list_update_int)

lemma length_set_phase [simp]: "length (hc_phases (set_phase n x st)) = length (hc_phases st)"
  by (cases x; cases "fst x") (simp add: set_phase_def)

lemma nth_set_phase: "n < length (hc_phases st) \<Longrightarrow>
   hc_phases (set_phase n x st) ! m = (if m = n then fst (fst x) else hc_phases st ! m)"
  by (cases x; cases "fst x") (simp add: set_phase_def nth_list_update)

lemma set_phase_settles:
  assumes "ledgers r st" "ledgers r (set_phase n x st)" "n < length (hc_phases st)" "settled_size (hc_phases st ! n) = 0"
  shows "settled st \<le> settled (set_phase n x st)"
proof -
  have "fst (fst x) \<in> set (hc_phases (set_phase n x st))"
    using assms(3) nth_set_phase [OF assms(3), of x n] by (metis length_set_phase nth_mem)
  then have "0 \<le> settled_size (fst (fst x))" using assms(2) settled_size_nonneg unfolding ledgers_def by blast
  then show ?thesis using settled_set_phase [OF assms(3), of x] assms(4) by simp
qed

lemma host_step_settled:
  assumes "ledgers r st"
  shows "settled st \<le> settled (host_step r ev st)"
proof -
  have l: "ledgers r (host_step r ev st)" by (rule ledgers_step [OF assms])
  show ?thesis
  proof (cases r ev st rule: host_step_cases)
    case (starts name args framing now ph run bodies)
    have "ph \<in> set (hc_phases (host_step r ev st))" unfolding starts(5) by simp
    then have "0 \<le> settled_size ph" using l settled_size_nonneg unfolding ledgers_def by blast
    then show ?thesis unfolding starts(5) by (simp add: settled_def total_of_def)
  next
    case (cancel n timed c i)
    then have "settled_size (hc_phases st ! n) = 0" by auto
    then show ?thesis using set_phase_settles [OF assms _ cancel(1)] l unfolding cancel(3) by blast
  qed (use set_phase_settles [OF assms] l in \<open>simp_all add: settled_def total_of_def\<close>)
qed

lemma publish_step:
  assumes "n < length (hc_phases st)" "hc_phases st ! n = Publishing outcome crossing"
  shows "settled (host_step r (Publish n accepted) st) = settled st + (case crossing of None \<Rightarrow> 0 | Some k \<Rightarrow> k)"
proof -
  have "host_step r (Publish n accepted) st = set_phase n (published accepted outcome crossing (hc_run st), hc_bodies st) st"
    using assms by (simp add: host_step_def)
  moreover have "settled_size (fst (published accepted outcome crossing (hc_run st))) = (case crossing of None \<Rightarrow> 0 | Some k \<Rightarrow> k)"
    by (simp add: published_def split: option.split)
  ultimately show ?thesis using settled_set_phase [OF assms(1)] assms(2) by simp
qed

subsection \<open>The framing of a call\<close>

text \<open>The call keeps the framing it began with, and a value on its way out is reserved with it.\<close>

definition framed :: "int \<Rightarrow> phase \<Rightarrow> bool" where
  "framed f ph \<longleftrightarrow>
     (case ph of
        Minting c \<Rightarrow> ac_framing c = f
      | Asking c \<Rightarrow> ac_framing c = f
      | In_body c _ \<Rightarrow> ac_framing c = f
      | Publishing (Value v) x \<Rightarrow> v \<noteq> [] \<and> x = Some (int (length v) + f)
      | _ \<Rightarrow> True)"

lemmas frame_defs = framed_def to_publish_def cancelled_call_def conclude_def refuse_admitted_def enter_body_def

lemma framed_stopped: "framed f (fst (cancelled_call timed x run))" "framed f (fst (conclude now (Refusal why) x run))"
  "framed f (fst (refuse_admitted now why run))"
  by (simp_all add: frame_defs)

lemma framed_enter: "ac_framing c = f \<Longrightarrow> framed f (fst (fst (enter_body now c ident run bodies)))"
  using framed_stopped by (simp add: enter_body_def framed_def split: phase.splits call_outcome.splits)

lemma framed_lock: "ac_framing c = f \<Longrightarrow> framed f (fst (fst (take_mint_lock now c run bodies)))"
  using framed_enter by (simp add: take_mint_lock_def framed_def [of f "Finished _ _"] framed_def [of f "Asking _"] split: option.split)

lemma framed_mint: "ac_framing c = f \<Longrightarrow> framed f (fst (fst (minter_answers now later ans c run bodies)))"
  using framed_enter framed_stopped by (simp add: minter_answers_def framed_def [of f "Finished _ _"] split: minted.split)

lemma framed_ends:
  assumes "ac_framing c = f" "e \<noteq> Returned (Some [])"
  shows "framed f (fst (body_ends r now later e c run))"
proof (cases e)
  case (Returned encoded)
  show ?thesis
  proof (cases "now = In_time")
    case True
    obtain res run' where a: "admit_response r c encoded run = (res, run')" by (rule prod.exhaust)
    show ?thesis
    proof (cases res)
      case (Inl why)
      then show ?thesis using framed_stopped Returned a True by (simp add: body_ends_def)
    next
      case (Inr v)
      then have "encoded = Some v" using a by (auto simp: admit_response_def Let_def split: option.splits if_splits)
      then have "v \<noteq> []" using assms(2) Returned by auto
      then have "framed f (fst (conclude later (Value v) (Some (int (length v) + ac_framing c)) run'))"
        using assms(1) by (simp add: conclude_def to_publish_def cancelled_call_def framed_def)
      then show ?thesis using Returned a True Inr by (simp add: body_ends_def)
    qed
  qed (use framed_stopped Returned in \<open>simp add: body_ends_def\<close>)
qed (use framed_stopped in \<open>simp add: body_ends_def\<close>)

lemma admit_call_framing: "admit_call r name args f run = (Inr c, run') \<Longrightarrow> ac_framing c = f"
  by (auto simp: admit_call_def Let_def split: if_splits tool_name.splits option.splits call_arguments.splits)

lemma framed_begin: "begin_call r name args f now run bodies = ((ph, run'), bodies') \<Longrightarrow> framed f ph"
proof -
  assume b: "begin_call r name args f now run bodies = ((ph, run'), bodies')"
  obtain x run1 where a: "admit_call r name args f run = (x, run1)" by (rule prod.exhaust)
  have ph: "ph = fst (fst (begin_call r name args f now run bodies))" using b by simp
  show ?thesis
  proof (cases x)
    case (Inl why)
    then show ?thesis using framed_stopped unfolding ph by (simp add: begin_call_def a)
  next
    case (Inr c)
    have c: "ac_framing c = f" using admit_call_framing a Inr by blast
    show ?thesis
      unfolding ph begin_call_def a Inr
      using framed_enter [OF c] framed_stopped c by (simp add: framed_def [of f "Minting _"] split: option.split)
  qed
qed

lemma host_step_framed:
  assumes "n < length (hc_phases st)" "framed f (hc_phases st ! n)"
  shows "n < length (hc_phases (host_step r ev st)) \<and> framed f (hc_phases (host_step r ev st) ! n)"
proof (cases r ev st rule: host_step_cases)
  case (lock m now c)
  then show ?thesis
    using assms framed_lock [of c f] by (auto simp: nth_set_phase framed_def [of f "Minting _"])
next
  case (mint m now later ans c)
  then show ?thesis
    using assms framed_mint [of c f] by (auto simp: nth_set_phase framed_def [of f "Asking _"])
next
  case (ends m now later e c i)
  then show ?thesis
    using assms framed_ends [of c f e] by (auto simp: nth_set_phase framed_def [of f "In_body _ _"])
next
  case (publish m accepted outcome crossing)
  have "framed f (fst (published accepted outcome crossing (hc_run st)))"
    by (simp add: published_def framed_def split: option.split)
  then show ?thesis using assms publish by (simp add: nth_set_phase)
next
  case (cancel m timed c i)
  then show ?thesis using assms framed_stopped(1) by (simp add: nth_set_phase)
qed (use assms in \<open>simp_all add: nth_append\<close>)


subsection \<open>What is written\<close>

lemma refusal_answer_fits: "int (length (refusal_answer sentence)) \<le> refusal_ceiling"
proof -
  have "int (length (refusal_envelope (points refusal_too_long))) \<le> refusal_ceiling" by code_simp
  then show ?thesis by (simp add: refusal_answer_def)
qed

lemma value_text_size: "v \<noteq> [] \<Longrightarrow> int (length (value_text v)) = int (length v) + framing_bytes"
  by (simp add: value_text_def framing_bytes_def)

definition sizes :: "(nat \<times> string) list \<Rightarrow> int list" where
  "sizes sent = map (\<lambda>x. int (length (snd x))) sent"

text \<open>
  The answers handed over fit: each is within the cap of one response or of a refusal, together they
  are within what the run has settled and a refusal's ceiling for each.
\<close>

definition fits :: "registry \<Rightarrow> host_calls \<Rightarrow> (nat \<times> string) list \<Rightarrow> bool" where
  "fits r calls sent \<longleftrightarrow> ledgers r calls
     \<and> sum_list (sizes sent) \<le> settled calls + refusal_ceiling * int (length sent)
     \<and> (\<forall>k \<in> set (sizes sent). k \<le> max (max_bytes_per_file (rg_limits r)) refusal_ceiling)"

lemma fits_more: "fits r calls sent \<Longrightarrow> ledgers r calls' \<Longrightarrow> settled calls \<le> settled calls' \<Longrightarrow> fits r calls' sent"
  by (auto simp: fits_def)

lemma fits_refusal:
  "fits r calls sent \<Longrightarrow> int (length said) \<le> refusal_ceiling \<Longrightarrow> fits r calls (sent @ [(i, said)])"
  by (auto simp: fits_def sizes_def algebra_simps)

lemma fits_value:
  assumes "fits r calls sent" "ledgers r calls'" "settled calls' = settled calls + k" "int (length said) = k"
    "k \<le> max_bytes_per_file (rg_limits r)"
  shows "fits r calls' (sent @ [(i, said)])"
  using assms by (auto simp: fits_def sizes_def algebra_simps refusal_ceiling_def)

lemma host_steps_fit:
  "fits r calls sent \<Longrightarrow> fits r (foldl (\<lambda>st ev. host_step r ev st) calls evs) sent"
proof (induction evs rule: rev_induct)
  case (snoc ev evs)
  then have f: "fits r (foldl (\<lambda>st ev. host_step r ev st) calls evs) sent" by simp
  then have l: "ledgers r (foldl (\<lambda>st ev. host_step r ev st) calls evs)" by (simp add: fits_def)
  show ?case using fits_more [OF f ledgers_step [OF l] host_step_settled [OF l]] by simp
qed simp

lemma host_step_fits: "fits r calls sent \<Longrightarrow> fits r (host_step r ev calls) sent"
  using host_steps_fit [of r calls sent "[ev]"] by simp

lemma host_steps_framed:
  "n < length (hc_phases calls) \<Longrightarrow> framed f (hc_phases calls ! n) \<Longrightarrow>
   n < length (hc_phases (foldl (\<lambda>st ev. host_step r ev st) calls evs))
   \<and> framed f (hc_phases (foldl (\<lambda>st ev. host_step r ev st) calls evs) ! n)"
  by (induction evs rule: rev_induct) (use host_step_framed in auto)

text \<open>An answer of a call, published or not: its bytes are the ones the run settles for it.\<close>

lemma publication_fits:
  assumes "fits r calls sent" "n < length (hc_phases calls)" "framed framing_bytes (hc_phases calls ! n)"
    and "hc_phases calls ! n = Publishing outcome crossing"
  shows "fits r (host_step r (Publish n accepted) calls) (sent @ [(i, outcome_text tx outcome)])"
proof -
  have l: "ledgers r calls" using assms(1) by (simp add: fits_def)
  then have ok: "phase_ok r (Publishing outcome crossing)"
    using assms(2,4) unfolding ledgers_def by (metis nth_mem)
  note s = publish_step [OF assms(2,4), of r accepted]
  show ?thesis
  proof (cases outcome)
    case (Refusal why)
    then have "crossing = None" using ok by simp
    then have f: "fits r (host_step r (Publish n accepted) calls) sent" by (intro host_step_fits assms(1))
    show ?thesis using fits_refusal [OF f refusal_answer_fits] Refusal by (simp add: outcome_text_def)
  next
    case (Value v)
    then have v: "v \<noteq> []" "crossing = Some (int (length v) + framing_bytes)"
      using assms(3,4) by (simp_all add: framed_def)
    then have "int (length v) + framing_bytes \<le> max_bytes_per_file (rg_limits r)" using ok by (simp add: crossing_ok_def)
    then show ?thesis
      using fits_value [OF assms(1) ledgers_step [OF l], of "Publish n accepted" "int (length v) + framing_bytes" "value_text v" i]
        s v Value value_text_size by (simp add: outcome_text_def)
  qed
qed

lemma framing_nonneg: "0 \<le> framing_bytes" by (simp add: framing_bytes_def)

lemma run_call_fits:
  assumes "fits (se_registry en) (sv_calls sv) (sv_sent sv)" and "run_call en i req sv = (x, sv')"
  shows "fits (se_registry en) (sv_calls sv') (sv_sent sv')"
proof -
  let ?r = "se_registry en"
  let ?n = "length (hc_phases (sv_calls sv))"
  define begun where "begun = host_step ?r (Begin (request_name req) (request_arguments (se_texts en) req) framing_bytes
       (wd_clock (se_world en) (sv_tick sv))) (sv_calls sv)"
  define calls where "calls = foldl (\<lambda>st ev. host_step ?r ev st) begun (filter (not_own_publication ?n) (wd_during (se_world en) (sv_tick sv)))"
  show ?thesis
  proof (cases "hr_closed (hc_run (sv_calls sv))")
    case True
    then have "sv_calls sv' = sv_calls sv \<and> sv_sent sv' = sv_sent sv" using assms(2) by (auto simp: run_call_def Let_def)
    then show ?thesis using assms(1) by simp
  next
    case False
    obtain ph run bodies where b: "begin_call ?r (request_name req) (request_arguments (se_texts en) req) framing_bytes
        (wd_clock (se_world en) (sv_tick sv)) (hc_run (sv_calls sv)) (hc_bodies (sv_calls sv)) = ((ph, run), bodies)"
      by (metis prod.exhaust)
    have "begun = (sv_calls sv)\<lparr>hc_run := run, hc_phases := hc_phases (sv_calls sv) @ [ph], hc_bodies := bodies\<rparr>"
      using False b framing_nonneg by (simp add: begun_def host_step_def)
    then have "?n < length (hc_phases begun) \<and> framed framing_bytes (hc_phases begun ! ?n)"
      using framed_begin [OF b] by simp
    then have at: "?n < length (hc_phases calls)" "framed framing_bytes (hc_phases calls ! ?n)"
      using host_steps_framed unfolding calls_def by blast+
    have f: "fits ?r calls (sv_sent sv)" unfolding calls_def begun_def by (intro host_steps_fit host_step_fits assms(1))
    note r = assms(2) [unfolded run_call_def Let_def begun_def [symmetric] calls_def [symmetric] if_not_P [OF False]]
    show ?thesis
    proof (cases "hc_phases calls ! ?n")
      case (Publishing outcome crossing)
      obtain y sv1 where p: "publish en i (outcome_text (se_texts en) outcome) ((pass_time 1 sv)\<lparr>sv_calls := calls\<rparr>) = (y, sv1)"
        by (metis prod.exhaust)
      obtain accepted where "sv_calls sv' = host_step ?r (Publish ?n accepted) calls" "sv_sent sv' = sv_sent sv1"
        using r [unfolded Publishing phase.case p prod.case] by (cases y) auto
      moreover have "fits ?r (host_step ?r (Publish ?n accepted) calls) (sv_sent sv @ [(i, outcome_text (se_texts en) outcome)])"
        "fits ?r (host_step ?r (Publish ?n accepted) calls) (sv_sent sv)" for accepted
        using publication_fits [OF f at Publishing] host_step_fits [OF f] by blast+
      ultimately show ?thesis using publish_fields(4) [OF p] by auto
    qed (use r f host_step_fits [OF f] in auto)
  qed
qed

lemma answer_fits:
  assumes "fits (se_registry en) (sv_calls sv) (sv_sent sv)" and "answer en body i sv = (x, sv')"
  shows "fits (se_registry en) (sv_calls sv') (sv_sent sv')"
proof (cases en body i sv rule: answer_ways)
  case (refusal sentence)
  note p = publish_fields [OF this [unfolded assms(2), symmetric]]
  show ?thesis using p(3,4) assms(1) fits_refusal [OF assms(1) refusal_answer_fits] by auto
next
  case (call req)
  from run_call_fits [OF assms(1) this [unfolded assms(2), symmetric]] show ?thesis .
qed (use assms in simp)

lemma serve_probes_fits:
  "fits (se_registry en) (sv_calls sv) (sv_sent sv) \<Longrightarrow> serve_probes en i prs sv = (x, sv') \<Longrightarrow>
   fits (se_registry en) (sv_calls sv') (sv_sent sv')"
proof (induction en i prs sv rule: serve_probes.induct)
  case (2 en i pr prs sv)
  show ?case
  proof (cases "\<exists>body. probe_body en (sv_tick sv) i pr = Inr (Some body) \<and> \<not> wd_now (se_world en) (sv_tick sv + 2) \<ge> se_deadline en
      \<and> wd_active (se_world en) (sv_tick sv + 3)")
    case False
    then have "sv_calls sv' = sv_calls sv \<and> sv_sent sv' = sv_sent sv"
      using 2(3) by (auto split: sum.splits option.splits if_splits)
    then show ?thesis using 2(2) by simp
  next
    case True
    then obtain body where b: "probe_body en (sv_tick sv) i pr = Inr (Some body)"
        "\<not> wd_now (se_world en) (sv_tick sv + 2) \<ge> se_deadline en" "wd_active (se_world en) (sv_tick sv + 3)" by blast
    obtain y sv1 where a: "answer en body i (pass_time 4 sv) = (y, sv1)" by (rule prod.exhaust)
    have f: "fits (se_registry en) (sv_calls sv1) (sv_sent sv1)" using answer_fits [OF _ a] 2(2) by simp
    show ?thesis
    proof (cases y)
      case (Inl g)
      then show ?thesis using 2(3) b a f by simp
    next
      case (Inr u)
      then have "serve_probes en (i + 1) prs (sv1\<lparr>sv_served := sv_served sv1 + 1\<rparr>) = (x, sv')" using 2(3) b a by simp
      then show ?thesis using 2(1) [OF b(1) refl b(2) _ a [symmetric] Inr] b(3) f by simp
    qed
  qed
qed simp

lemma loop_pass_fits:
  assumes "fits (se_registry en) (sv_calls sv) (sv_sent sv)" and "loop_pass en sv = (e, sv')"
  shows "fits (se_registry en) (sv_calls sv') (sv_sent sv')"
proof (cases en sv rule: loop_pass_ways)
  case (failed f sv1 count)
  have "sv' = sv1" using failed(1) assms(2) ended_by_fields(1) [of en f sv1] by (metis snd_conv)
  then show ?thesis using serve_probes_fits [OF _ failed(4)] assms(1) by simp
next
  case (walked full sv1 count)
  have "sv' = snd (after_walk en (sv_served sv) count full sv1)" using walked(1) assms(2) by (metis snd_conv)
  then show ?thesis
    using serve_probes_fits [OF _ walked(4)] assms(1) after_walk_fields [of sv1 en "sv_served sv" count full] by simp
qed (use assms in auto)


subsection \<open>The limits asked of the router\<close>

lemma start_uploads:
  "st_uploaded (start_program en interpreter token t) = []
   \<or> (\<exists>script. launcher_script (se_layout en) interpreter (Some token) = Inr script
        \<and> (st_uploaded (start_program en interpreter token t) = [script]
           \<or> st_uploaded (start_program en interpreter token t) = [script, token @ nl]))"
proof -
  have released: "st_uploaded (release_program en token st) \<in> {st_uploaded st, st_uploaded st @ [token @ nl]}" for st
    by (simp add: release_program_def Let_def split: sum.split write_reply.split)
  have launched: "st_uploaded (launched en token st) \<in> {st_uploaded st, st_uploaded st @ [token @ nl]}" for st
  proof (cases "wd_exec (se_world en) (st_tick st)")
    case (Launched status out err)
    let ?noted = "st\<lparr>st_receipt := process_receipt out, st_tick := st_tick st + 1\<rparr>"
    show ?thesis using released [of ?noted] Launched by (auto simp: launched_def Let_def)
  qed (auto simp: launched_def Let_def split: sum.split option.split)
  show ?thesis
    using launched [of "\<lparr>st_end = None, st_executed = True, st_unproven = False, st_receipt = None, st_uploaded = [script],
        st_tick = t + 3\<rparr>" for script]
    by (auto simp: start_program_def Let_def split: sum.split write_reply.split)
qed

lemma launcher_script_size: "launcher_script l interpreter token = Inr script \<Longrightarrow> int (length script) \<le> launcher_ceiling"
  by (auto simp: launcher_script_def Let_def bindE_eq_Inr split: if_splits)

lemma aggregate_limits:
  "fst (aggregate r) = Inr surface \<Longrightarrow> response_limits surface = rg_limits r \<and> max_host_tool_calls_per_run surface = rg_max_calls r"
  by (auto simp: aggregate_def Let_def split: if_splits)

lemma supervise_start: "supervise en interpreter token t calls = Some sn \<Longrightarrow> sn_start sn = start_program en interpreter token t"
  by (auto simp: supervise_def Let_def split: option.splits)

text \<open>What a supervision writes into the guest: the launcher, the start gate, the answers.\<close>

definition written_sizes :: "supervision \<Rightarrow> int list" where
  "written_sizes sn = map (\<lambda>u. int (length u)) (st_uploaded (sn_start sn)) @ sizes (sv_sent (sn_final sn))"

lemma supervised_fits:
  assumes "supervise en interpreter token t calls = Some sn" and "ledgers (se_registry en) calls"
  shows "\<exists>after. fits (se_registry en) after (sv_sent (sn_final sn))"
proof -
  have start: "fits (se_registry en) (sv_calls (fresh_supervisor k calls)) (sv_sent (fresh_supervisor k calls))" for k
    using assms(2) settled_nonneg by (simp add: start_fresh fits_def sizes_def)
  have "(st_end (sn_start sn) = Some (sn_end sn) \<and> (\<exists>k. sn_final sn = fresh_supervisor k calls))
    \<or> (st_end (sn_start sn) = None \<and> (\<exists>s. fits (se_registry en) (sv_calls s) (sv_sent s)
         \<and> loop_pass en s = (Some (sn_end sn), sn_final sn)))"
    by (rule supervise_rule [where P = "\<lambda>sv. fits (se_registry en) (sv_calls sv) (sv_sent sv)", OF assms(1)])
       (use start loop_pass_fits in blast)+
  then show ?thesis
  proof (elim disjE conjE exE)
    fix k assume "sn_final sn = fresh_supervisor k calls"
    then show ?thesis using start [of k] by (intro exI [of _ "sv_calls (fresh_supervisor k calls)"]) simp
  next
    fix s assume "fits (se_registry en) (sv_calls s) (sv_sent s)" "loop_pass en s = (Some (sn_end sn), sn_final sn)"
    then show ?thesis by (intro exI [of _ "sv_calls (sn_final sn)"]) (rule loop_pass_fits)
  qed
qed

text \<open>
  C11: A run writes no more into a sandbox than the limits the router was asked for leave room for
  beside the workload's own: in the number of files, in bytes, and in the size of each, whatever the
  guest asks, however its calls overlap with others of the run, and however the run ends.
\<close>

theorem transport_fits_the_folded_limits:
  assumes "built a (se_registry en)" and "fst (aggregate (se_registry en)) = Inr (se_surface en)"
    and "supervise en interpreter token t (host_execution (se_registry en) evs) = Some sn" and "length token = 32"
    and "room = limits_in (fold_host_tool_call_transfer_limits declared_in_files declared_out_files (se_surface en))"
  shows "max_files declared_in_files + int (length (written_sizes sn)) \<le> max_files room
    \<and> max_total_bytes declared_in_files + sum_list (written_sizes sn) \<le> max_total_bytes room
    \<and> list_all (\<lambda>k. k \<le> max_bytes_per_file room) (written_sizes sn)"
proof -
  let ?r = "se_registry en"
  let ?sent = "sv_sent (sn_final sn)"
  have l: "ledgers ?r (host_execution ?r evs)" by (rule ledgers_execution [OF assms(1)])
  obtain after where f: "fits ?r after ?sent" using supervised_fits [OF assms(3) l] by blast
  note agg = aggregate_limits [OF assms(2)]
  have calls: "0 \<le> max_host_tool_calls_per_run (se_surface en)" using agg built_limits [OF assms(1)] by simp
  have count: "int (length ?sent) \<le> max_host_tool_calls_per_run (se_surface en) + 1"
    by (rule sent_within_allowance [OF assms(3) calls])
  have total: "sum_list (sizes ?sent) \<le> max_total_bytes (rg_limits ?r) + refusal_ceiling * (max_host_tool_calls_per_run (se_surface en) + 1)"
  proof -
    have "settled after \<le> max_total_bytes (rg_limits ?r)" using f settled_within_total unfolding fits_def by blast
    moreover have "refusal_ceiling * int (length ?sent) \<le> refusal_ceiling * (max_host_tool_calls_per_run (se_surface en) + 1)"
      using count by (simp add: refusal_ceiling_def)
    ultimately show ?thesis using f unfolding fits_def by linarith
  qed
  define ups where "ups = map (\<lambda>u. int (length u)) (st_uploaded (sn_start sn))"
  have ups: "length ups \<le> 2" "sum_list ups \<le> launcher_ceiling + start_gate_bytes" "\<forall>k \<in> set ups. k \<le> launcher_ceiling"
  proof -
    have "ups = [] \<or> (\<exists>k. k \<le> launcher_ceiling \<and> (ups = [k] \<or> ups = [k, start_gate_bytes]))"
      using start_uploads [of en interpreter token t] launcher_script_size assms(4)
      unfolding ups_def supervise_start [OF assms(3)] by (fastforce simp: start_gate_bytes_def)
    then show "length ups \<le> 2" "sum_list ups \<le> launcher_ceiling + start_gate_bytes" "\<forall>k \<in> set ups. k \<le> launcher_ceiling"
      by (auto simp: launcher_ceiling_def start_gate_bytes_def)
  qed
  have each: "\<forall>k \<in> set (sizes ?sent). k \<le> max (max_bytes_per_file (rg_limits ?r)) refusal_ceiling"
    using f by (simp add: fits_def)
  have written: "written_sizes sn = ups @ sizes ?sent" by (simp add: written_sizes_def ups_def)
  have room: "max_files room = max_files declared_in_files + 2 + (max_host_tool_calls_per_run (se_surface en) + 1)"
    "max_total_bytes room = max_total_bytes declared_in_files + launcher_ceiling + start_gate_bytes
       + max_total_bytes (rg_limits ?r) + (max_host_tool_calls_per_run (se_surface en) + 1) * refusal_ceiling"
    "max_bytes_per_file room = max (max (max_bytes_per_file declared_in_files) (max_bytes_per_file (rg_limits ?r)))
       (max launcher_ceiling refusal_ceiling)"
    unfolding assms(5) by (simp_all add: fold_host_tool_call_transfer_limits_def Let_def agg)
  have "list_all (\<lambda>k. k \<le> max_bytes_per_file room) (written_sizes sn)"
    using ups(3) each unfolding written room(3) list_all_iff by fastforce
  moreover have "max_files declared_in_files + int (length (written_sizes sn)) \<le> max_files room"
    using ups(1) count unfolding written room(1) by (simp add: sizes_def)
  moreover have "max_total_bytes declared_in_files + sum_list (written_sizes sn) \<le> max_total_bytes room"
    using ups(2) total unfolding written room(2) by (simp add: mult.commute)
  ultimately show ?thesis by blast
qed


subsection \<open>What a completion says\<close>

text \<open>What an end says of the program: a completion has the marker behind it and keeps to the cap of the output.\<close>

definition vouched :: "setting \<Rightarrow> run_end \<Rightarrow> bool" where
  "vouched en e = (case e of
      Completed status printed _ \<Rightarrow> (\<exists>k recorded. read_marker en k = Inr (Some recorded) \<and> status = exit_code_from (se_texts en) recorded)
        \<and> (printed = [] \<or> int (length printed) \<le> output_cap (se_surface en) (se_output_limit en))
    | _ \<Rightarrow> True)"

lemma vouched_simps [simp]:
  "vouched en (Failed f)" "vouched en (Launcher_failed n out err)" "vouched en (Timed_out out why)"
  by (simp_all add: vouched_def)

lemma read_within_cap:
  "read_if_present en t path cap exact = Inr (Some (Content raw)) \<Longrightarrow> int (length raw) \<le> cap"
  by (auto simp: read_if_present_def split: sum.splits stat_reply.splits option.splits if_splits read_reply.splits)

lemma as_text_within_cap:
  "read_output en t = Inr v \<Longrightarrow> as_text v = [] \<or> int (length (as_text v)) \<le> output_cap (se_surface en) (se_output_limit en)"
  using read_within_cap [of en t "ly_output (se_layout en)"]
  by (auto simp: as_text_def read_output_def split: option.splits found.splits)

lemma completed_vouched: "read_marker en k = Inr (Some recorded) \<Longrightarrow> vouched en (completed en t recorded)"
  using as_text_within_cap [of en t] by (auto simp: completed_def vouched_def split: sum.split)

lemma out_of_time_vouched: "vouched en (out_of_time en t)"
  using completed_vouched [of en t] by (auto simp: out_of_time_def split: sum.split option.split)

lemma ended_by_vouched: "ended_by en f sv = (Some e, sv') \<Longrightarrow> vouched en e"
  using out_of_time_vouched by (auto simp: ended_by_def split: if_splits)

lemma after_walk_vouched: "after_walk en before count full sv = (Some e, sv') \<Longrightarrow> vouched en e"
  using ended_by_vouched by (auto simp: after_walk_def Let_def split: if_splits option.splits sum.splits)

lemma loop_pass_vouched:
  assumes "loop_pass en sv = (Some e, sv')" shows "vouched en e"
proof -
  let ?t = "sv_tick sv"
  let ?count = "min (sv_window sv) (allowance en - sv_served sv)"
  obtain y sv1 where walk: "serve_probes en (sv_served sv + 1) (request_probes en (?t + 4) (sv_served sv) ?count)
      (pass_time (6 + ?count) sv) = (y, sv1)" by (rule prod.exhaust)
  have rest: "vouched en e" if "(case y of Inl f \<Rightarrow> ended_by en f sv1 | Inr full \<Rightarrow> after_walk en (sv_served sv) ?count full sv1) = (Some e, sv')"
    using that ended_by_vouched after_walk_vouched by (auto split: sum.splits)
  show ?thesis
  proof (cases "read_marker en (?t + 2)")
    case (Inl f)
    then show ?thesis using assms out_of_time_vouched ended_by_vouched [of en f "pass_time 4 sv" e sv']
      by (auto simp: loop_pass_def Let_def split: if_splits)
  next
    case (Inr marker)
    then show ?thesis using assms out_of_time_vouched completed_vouched [of en "?t + 2"] rest walk
      by (cases marker; cases y) (auto simp: loop_pass_def Let_def split: if_splits)
  qed
qed

lemma start_vouched: "st_end (start_program en interpreter token t) = Some e \<Longrightarrow> vouched en e"
proof -
  have released: "st_end st = None \<Longrightarrow> st_end (release_program en token st) = Some x \<Longrightarrow> vouched en x" for st x
    by (auto simp: release_program_def no_program_started_def Let_def split: sum.splits write_reply.splits if_splits)
  have launched: "st_end (launched en token st) = Some x \<Longrightarrow> st_end st = None \<Longrightarrow> vouched en x" for st x
  proof (cases "wd_exec (se_world en) (st_tick st)")
    case (Launched status out err)
    let ?noted = "st\<lparr>st_receipt := process_receipt out, st_tick := st_tick st + 1\<rparr>"
    assume "st_end (launched en token st) = Some x" "st_end st = None"
    then show ?thesis using released [of ?noted x] Launched
      by (auto simp: launched_def Let_def split: if_splits)
  qed (auto simp: launched_def no_program_started_def Let_def intro: completed_vouched split: sum.splits option.splits)
  show "st_end (start_program en interpreter token t) = Some e \<Longrightarrow> vouched en e"
    using launched by (auto simp: start_program_def no_program_started_def Let_def split: sum.splits write_reply.splits if_splits)
qed

text \<open>
  C35: A supervision reports the program completed only after it has read the exit marker the guest
  leaves, the status is the one written there, and what it hands back of the output is within the cap,
  on the ordinary way, on the way out once the bound has run out, and where the launcher's own reply
  never came.
\<close>

theorem completion_needs_the_marker:
  assumes "supervise en interpreter token t calls = Some sn" and "sn_end sn = Completed status printed why"
  shows "(\<exists>k recorded. read_marker en k = Inr (Some recorded) \<and> status = exit_code_from (se_texts en) recorded)
    \<and> (printed = [] \<or> int (length printed) \<le> output_cap (se_surface en) (se_output_limit en))"
proof -
  have "(st_end (sn_start sn) = Some (sn_end sn) \<and> (\<exists>k. sn_final sn = fresh_supervisor k calls))
    \<or> (st_end (sn_start sn) = None \<and> (\<exists>s. True \<and> loop_pass en s = (Some (sn_end sn), sn_final sn)))"
    by (rule supervise_rule [where P = "\<lambda>_. True", OF assms(1)]) simp_all
  then have "vouched en (sn_end sn)"
    using loop_pass_vouched start_vouched supervise_start [OF assms(1)] by metis
  then show ?thesis using assms(2) by (simp add: vouched_def)
qed

subsection \<open>A run that asks once\<close>

definition desk_args :: registry_args where
  "desk_args = office_args\<lparr>ra_limits := Some (Count 100, Count 300, Count 4)\<rparr>"

definition desk_registry :: registry where
  "desk_registry = office\<lparr>rg_limits := \<lparr>max_bytes_per_file = 100, max_total_bytes = 300, max_files = 4\<rparr>\<rparr>"

definition desk_aggregate :: host_tool_aggregate where
  "desk_aggregate = office_aggregate\<lparr>response_limits := \<lparr>max_bytes_per_file = 100, max_total_bytes = 300, max_files = 4\<rparr>\<rparr>"

lemma desk_built: "built desk_args desk_registry"
proof -
  let ?bare = "desk_registry\<lparr>rg_tools := [], rg_declarations := []\<rparr>"
  have "registry_init desk_args = Inr ?bare"
    by (simp add: registry_init_def desk_args_def desk_registry_def office_args_def positive_count_def plain_count_def
        raiseIf_def office_def)
  then have bare: "built desk_args ?bare" by (rule constructed)
  have "register reader_tool None ?bare = Inr desk_registry"
    by (simp add: register_def desk_registry_def office_def reader_tool_def raiseIf_def declaration_of_def
        effective_identity_def accepts_user_identity_def user_identity_parameter_def)
  from registered [OF bare this] show ?thesis .
qed

definition desk_file :: "string \<Rightarrow> string" where
  "desk_file name = ''/runs/one/host_tools/'' @ name"

text \<open>The guest has asked once; its program has ended by the fortieth moment.\<close>

definition desk_stat :: "nat \<Rightarrow> string \<Rightarrow> stat_reply" where
  "desk_stat t path =
     Stat (if path = call_file (lay_out ''/runs/one'' ''main.py'') 1 ''.request.json'' \<or> path = ly_output (lay_out ''/runs/one'' ''main.py'')
            \<or> t \<ge> 40 \<and> path = ly_exit_code (lay_out ''/runs/one'' ''main.py'')
           then Some \<lparr>entry_path = path, entry_kind = FILE, size_bytes = Some 5\<rparr> else None)"

definition desk_world :: world where
  "desk_world = \<lparr>wd_now = (\<lambda>t. if t < 100 then 0 else 60), wd_stat = desk_stat,
     wd_read = (\<lambda>_ path _. Bytes (if path = ly_exit_code (lay_out ''/runs/one'' ''main.py'') then ''0'' else ''ask'')),
     wd_write = (\<lambda>_ _ _. Written), wd_active = (\<lambda>_. True),
     wd_exec = (\<lambda>_. Launched 0 (session_line @ ''maf-host-tools: process-v1 50 50'' @ nl) []), wd_clock = (\<lambda>_. In_time),
     wd_during = (\<lambda>_. [Mint_lock 0 In_time, Minter 0 In_time In_time (Usable ''ada''), Body 0 In_time In_time (Returned (Some ''true''))])\<rparr>"

definition desk_texts :: texts where
  "desk_texts = \<lparr>tx_loads = (\<lambda>_. Some (JObject [(''name'', JText ''mail''), (''arguments'', JNull)])),
     tx_int = (\<lambda>b. if b = ''0'' then Some 0 else None), tx_argument = (\<lambda>_. []), tx_sentence = (\<lambda>_. points ''Error'')\<rparr>"

definition desk :: setting where
  "desk = \<lparr>se_world = desk_world, se_texts = desk_texts, se_registry = desk_registry, se_surface = desk_aggregate,
     se_layout = lay_out ''/runs/one'' ''main.py'', se_deadline = 50, se_output_limit = None\<rparr>"

definition desk_token :: string where "desk_token = replicate 32 (CHR ''a'')"

lemma desk_supervised:
  "map_option (\<lambda>sn. (sn_end sn, sv_sent (sn_final sn)))
     (supervise desk ''python3'' desk_token 0 (host_execution desk_registry []))
   = Some (Completed 0 ''ask'' No_note, [(1, value_text ''true'')])"
  by code_simp

definition desk_run :: supervision where
  "desk_run = the (supervise desk ''python3'' desk_token 0 (host_execution desk_registry []))"

lemma desk_run:
  "supervise desk ''python3'' desk_token 0 (host_execution desk_registry []) = Some desk_run"
  "sn_end desk_run = Completed 0 ''ask'' No_note" "sv_sent (sn_final desk_run) = [(1, value_text ''true'')]"
  using desk_supervised by (auto simp: desk_run_def)

lemma desk_fields:
  "se_registry desk = desk_registry" "se_surface desk = desk_aggregate" "max_host_tool_calls_per_run desk_aggregate = 3"
  by (simp_all add: desk_def desk_aggregate_def office_aggregate_def)

lemma desk_aggregates: "fst (aggregate desk_registry) = Inr desk_aggregate"
  by (simp add: aggregate_def desk_registry_def desk_aggregate_def office_aggregate_def office_def declaration_of_def reader_tool_def
      registered_identities_def effective_identity_def Let_def)


theorem answers_are_in_order_witness:
  "map fst (sv_sent (sn_final desk_run)) = [1] \<and> (\<exists>k body. read_request desk k 1 = Inr (Some body))"
  using answers_are_in_order [OF desk_run(1)] by (simp add: desk_fields desk_run(3))

theorem transport_fits_the_folded_limits_witness:
  "length (written_sizes desk_run) \<le> 6
   \<and> sum_list (written_sizes desk_run) \<le> max_total_bytes (limits_in (fold_host_tool_call_transfer_limits
        \<lparr>max_bytes_per_file = 0, max_total_bytes = 0, max_files = 0\<rparr> \<lparr>max_bytes_per_file = 0, max_total_bytes = 0, max_files = 0\<rparr>
        desk_aggregate))"
proof -
  have "built desk_args (se_registry desk)" "fst (aggregate (se_registry desk)) = Inr (se_surface desk)"
    "supervise desk ''python3'' desk_token 0 (host_execution (se_registry desk) []) = Some desk_run"
    using desk_built desk_aggregates desk_run(1) by (simp_all add: desk_fields)
  from transport_fits_the_folded_limits [OF this _ refl,
      of "\<lparr>max_bytes_per_file = 0, max_total_bytes = 0, max_files = 0\<rparr>" "\<lparr>max_bytes_per_file = 0, max_total_bytes = 0, max_files = 0\<rparr>"]
  show ?thesis by (simp add: desk_token_def desk_fields) (simp add: fold_host_tool_call_transfer_limits_def Let_def desk_fields)
qed

theorem completion_needs_the_marker_witness:
  "\<exists>k recorded. read_marker desk k = Inr (Some recorded) \<and> exit_code_from desk_texts recorded = 0"
  using completion_needs_the_marker [OF desk_run(1,2)] by (auto simp: desk_def)

end
