(* ===== verification/Outputs.thy ===== *)
theory Outputs
  imports Sandbox_Spec Posix_Path Json_Values
begin

text \<open>
  The collection of artifacts (\<open>_outputs.py\<close>): the rules of a name, the caps, the phases of
  \<open>collect_outputs\<close>, and the rewriting of a name for Windows.

  A name is its bytes in UTF-8, a surrogate in its three-byte form.  What the Unicode database says
  (composition to NFC, lower case) is an argument.  The guest may change its files between any two
  looks: every await is answered by its own moment.
\<close>

record unicode =
  un_nfc :: "string \<Rightarrow> string"
  un_lower :: "string \<Rightarrow> string"

subsection \<open>Refusals\<close>

datatype output_error =
    Output_missing | Output_not_confined | Output_not_regular | Output_size_unknown | Output_unreachable
  | Transfer_cap_exceeded | Landing_exists | Landing_not_confined | Sink_required | Name_invalid | Name_collision
  | Bad_call | Other_error string

text \<open>What a backend raises; the first two are translated.\<close>

datatype pull_failure = Raises_value_error | Raises_os_error | Raises_otherwise string

definition backend_refusal :: "pull_failure \<Rightarrow> output_error" where
  "backend_refusal f =
     (case f of Raises_value_error \<Rightarrow> Output_not_confined | Raises_os_error \<Rightarrow> Output_unreachable
      | Raises_otherwise e \<Rightarrow> Other_error e)"

subsection \<open>Names\<close>

definition max_artifact_name_bytes :: nat where "max_artifact_name_bytes = 255"

definition is_control :: "char \<Rightarrow> bool" where
  "is_control c \<longleftrightarrow> (of_char c :: nat) < 32"

definition artifact_name_ok :: "string \<Rightarrow> bool" where
  "artifact_name_ok name \<longleftrightarrow>
     name \<noteq> [] \<and> CHR 0x5C \<notin> set name \<and> \<not> isabs name
     \<and> dotdot \<notin> set (split_on slash name)
     \<and> [] \<notin> set (split_on slash name) \<and> dot \<notin> set (split_on slash name)
     \<and> \<not> list_ex is_control name
     \<and> utf8_ok (points name) \<and> length name \<le> max_artifact_name_bytes"

definition validate_artifact_name :: "string \<Rightarrow> output_error + unit" where
  "validate_artifact_name name = raiseIf (\<not> artifact_name_ok name) Name_invalid"

text \<open>
  The opt-in rewriting for Windows.  The superscript digits one to three are two bytes each; no
  letter outside ASCII has an upper case that completes a reserved name, so ASCII's upper case is
  enough.
\<close>

definition superscript_digits :: "string list" where
  "superscript_digits = [[CHR 0xC2, CHR 0xB9], [CHR 0xC2, CHR 0xB2], [CHR 0xC2, CHR 0xB3]]"

definition reserved_stems :: "string list" where
  "reserved_stems =
     [''CON'', ''PRN'', ''AUX'', ''NUL'']
     @ concat (map (\<lambda>p. map (\<lambda>d. p @ d) (map (\<lambda>d. [d]) ''123456789'' @ superscript_digits)) [''COM'', ''LPT''])"

definition unportable :: "char \<Rightarrow> bool" where
  "unportable c \<longleftrightarrow> is_control c \<or> c \<in> set [CHR ''<'', CHR ''>'', CHR '':'', CHR 0x22, CHR ''|'', CHR ''?'', CHR ''*'']"

definition replacement :: char where "replacement = CHR ''_''"

definition upper :: "char \<Rightarrow> char" where
  "upper c = (if 97 \<le> (of_char c :: nat) \<and> (of_char c :: nat) \<le> 122 then char_of ((of_char c :: nat) - 32) else c)"

definition trailing :: "char \<Rightarrow> bool" where "trailing c \<longleftrightarrow> c = CHR ''.'' \<or> c = CHR '' ''"

definition cleaned_segment :: "string \<Rightarrow> string" where
  "cleaned_segment segment =
     rev (dropWhile trailing (rev (map (\<lambda>c. if unportable c then replacement else c) segment)))"

definition stem_of :: "string \<Rightarrow> string" where "stem_of s = takeWhile (\<lambda>c. c \<noteq> CHR ''.'') s"
definition rest_of :: "string \<Rightarrow> string" where "rest_of s = dropWhile (\<lambda>c. c \<noteq> CHR ''.'') s"

definition portable_segment :: "string \<Rightarrow> string" where
  "portable_segment segment =
     (let s = cleaned_segment segment;
          stem = (if map upper (stem_of s) \<in> set reserved_stems then stem_of s @ [replacement] else stem_of s);
          whole = stem @ rest_of s
      in if whole = [] then [replacement] else whole)"

definition portable_file_name :: "string \<Rightarrow> string" where
  "portable_file_name name = join_with slash (map portable_segment (split_on slash name))"

subsection \<open>The caps\<close>

record tally =
  ty_limits :: transfer_limits
  ty_files :: int
  ty_total_bytes :: int

definition fresh_tally :: "transfer_limits \<Rightarrow> tally" where
  "fresh_tally l = \<lparr>ty_limits = l, ty_files = 0, ty_total_bytes = 0\<rparr>"

definition remaining_bytes :: "tally \<Rightarrow> int" where
  "remaining_bytes ty = max (max_total_bytes (ty_limits ty) - ty_total_bytes ty) 0"

definition tally_add :: "int \<Rightarrow> tally \<Rightarrow> output_error + tally" where
  "tally_add n ty =
     (if n > max_bytes_per_file (ty_limits ty) then Inl Transfer_cap_exceeded
      else if ty_files ty + 1 > max_files (ty_limits ty) then Inl Transfer_cap_exceeded
      else if ty_total_bytes ty + n > max_total_bytes (ty_limits ty) then Inl Transfer_cap_exceeded
      else Inr (ty\<lparr>ty_files := ty_files ty + 1, ty_total_bytes := ty_total_bytes ty + n\<rparr>))"

subsection \<open>Sinks\<close>

record artifact =
  at_name :: string
  at_content :: string
  at_kind :: string
  at_media_type :: "string option"
  at_call_id :: "string option"

record landed_artifact =
  la_name :: string
  la_display :: string
  la_handle :: "string option"

text \<open>A sink over the host's state: it accepts an artifact or raises, and may change the state either way.\<close>

record 's output_sink =
  sk_composes :: bool
  sk_per_call :: bool
  sk_deliver :: "artifact \<Rightarrow> 's \<Rightarrow> (output_error + landed_artifact) \<times> 's"

subsection \<open>What the declaration alone decides\<close>

definition landing :: "declared_output list \<Rightarrow> declared_output list" where
  "landing outputs = filter (\<lambda>d. out_disposition d = LAND) outputs"

definition spec_lands_artifacts :: "sandbox_spec \<Rightarrow> bool" where
  "spec_lands_artifacts spec \<longleftrightarrow> landing (declared_outputs spec) \<noteq> [] \<or> outputs_named_at_call_time spec"

definition delivered_name :: "unicode \<Rightarrow> 's output_sink option \<Rightarrow> declared_output \<Rightarrow> string" where
  "delivered_name u sink d =
     (let name = (case out_name d of Some n \<Rightarrow> n | None \<Rightarrow> out_path d)
      in case sink of Some k \<Rightarrow> if sk_composes k then un_nfc u name else name | None \<Rightarrow> name)"

definition collision_key :: "unicode \<Rightarrow> string \<Rightarrow> string" where
  "collision_key u path = normpath (un_lower u (un_nfc u path))"

fun check_declared_names ::
  "unicode \<Rightarrow> 's output_sink option \<Rightarrow> string list \<Rightarrow> declared_output list \<Rightarrow> output_error + unit" where
  "check_declared_names u sink seen [] = Inr ()"
| "check_declared_names u sink seen (d # ds) =
     bindE (validate_artifact_name (out_path d)) (\<lambda>_.
       if out_disposition d \<noteq> LAND then check_declared_names u sink seen ds
       else (let name = delivered_name u sink d; key = collision_key u name
             in bindE (if name \<noteq> out_path d then validate_artifact_name name else Inr ()) (\<lambda>_.
                  if key \<in> set seen then Inl Name_collision
                  else check_declared_names u sink (key # seen) ds)))"

subsection \<open>Looking and reading\<close>

record pull =
  pl_stat :: "nat \<Rightarrow> string \<Rightarrow> pull_failure + sandbox_entry option"
  pl_read :: "nat \<Rightarrow> string \<Rightarrow> int \<Rightarrow> pull_failure + string"

fun stat_and_cap ::
  "pull \<Rightarrow> nat \<Rightarrow> tally \<Rightarrow> declared_output list \<Rightarrow> output_error + (declared_output \<times> int) list" where
  "stat_and_cap pl k ty [] = Inr []"
| "stat_and_cap pl k ty (d # ds) =
     (case pl_stat pl k (out_path d) of
        Inl f \<Rightarrow> Inl (backend_refusal f)
      | Inr None \<Rightarrow> if out_required d then Inl Output_missing else stat_and_cap pl (Suc k) ty ds
      | Inr (Some entry) \<Rightarrow>
          if entry_kind entry \<noteq> FILE then Inl Output_not_regular
          else (case size_bytes entry of
              None \<Rightarrow> Inl Output_size_unknown
            | Some n \<Rightarrow>
                bindE (tally_add n ty) (\<lambda>ty'.
                bindE (stat_and_cap pl (Suc k) ty' ds) (\<lambda>rest.
                  Inr (if out_disposition d = LAND then (d, n) # rest else rest)))))"

fun read_all ::
  "unicode \<Rightarrow> pull \<Rightarrow> sandbox_spec \<Rightarrow> 's output_sink \<Rightarrow> string option \<Rightarrow> nat \<Rightarrow> tally \<Rightarrow> (declared_output \<times> int) list \<Rightarrow>
   output_error + artifact list" where
  "read_all u pl spec sink call k ty [] = Inr []"
| "read_all u pl spec sink call k ty ((d, n) # ds) =
     (case pl_read pl k (out_path d) (min n (remaining_bytes ty)) of
        Inl f \<Rightarrow> Inl (backend_refusal f)
      | Inr content \<Rightarrow>
          bindE (tally_add (int (length content)) ty) (\<lambda>ty'.
          bindE (read_all u pl spec sink call (Suc k) ty' ds) (\<lambda>rest.
            Inr (\<lparr>at_name = delivered_name u (Some sink) d, at_content = content, at_kind = spec_kind spec,
                  at_media_type = out_media_type d, at_call_id = call\<rparr> # rest))))"

subsection \<open>Delivering\<close>

text \<open>
  The artifacts one after another; an exception ends it.  The second component holds what was
  handed over, the last of it possibly refused.
\<close>

fun deliver_all ::
  "'s output_sink \<Rightarrow> artifact list \<Rightarrow> 's \<Rightarrow> (output_error + landed_artifact list) \<times> artifact list \<times> 's" where
  "deliver_all sink [] st = (Inr [], [], st)"
| "deliver_all sink (a # as) st =
     (case sk_deliver sink a st of
        (Inl e, st') \<Rightarrow> (Inl e, [a], st')
      | (Inr accepted, st') \<Rightarrow>
          (case deliver_all sink as st' of
             (r, handed, st'') \<Rightarrow> (bindE r (\<lambda>rest. Inr (accepted # rest)), a # handed, st'')))"

definition collect_outputs ::
  "unicode \<Rightarrow> pull \<Rightarrow> sandbox_spec \<Rightarrow> 's output_sink option \<Rightarrow> declared_output list \<Rightarrow> string option \<Rightarrow> 's \<Rightarrow>
   (output_error + landed_artifact list) \<times> artifact list \<times> 's" where
  "collect_outputs u pl spec sink outputs call st =
     (let refuse = (\<lambda>e. (Inl e, [], st)); declared = declared_outputs spec @ outputs
      in if outputs \<noteq> [] \<and> \<not> outputs_named_at_call_time spec then refuse Bad_call
         else if landing declared \<noteq> [] \<and> Option.is_none sink then refuse Sink_required
         else if landing declared \<noteq> [] \<and> (case sink of Some k \<Rightarrow> sk_per_call k | None \<Rightarrow> False) \<and> call = None then refuse Bad_call
         else (case check_declared_names u sink [] declared of
             Inl e \<Rightarrow> refuse e
           | Inr _ \<Rightarrow>
               (case stat_and_cap pl 0 (fresh_tally (files_out spec)) declared of
                  Inl e \<Rightarrow> refuse e
                | Inr to_read \<Rightarrow>
                    if to_read = [] then (Inr [], [], st)
                    else (case sink of
                        None \<Rightarrow> refuse Sink_required
                      | Some k \<Rightarrow>
                          (case read_all u pl spec k call (length declared) (fresh_tally (files_out spec)) to_read of
                             Inl e \<Rightarrow> refuse e
                           | Inr artifacts \<Rightarrow> deliver_all k artifacts st)))))"

end
