(* ===== verification/Output_Properties.thy ===== *)
theory Output_Properties
  imports Outputs
begin

text \<open>
  What a collection of artifacts keeps to, whatever the guest's files do meanwhile and whatever the
  sink is, and what the rewriting of a name for Windows achieves.
\<close>

subsection \<open>The caps\<close>

definition content_bytes :: "artifact list \<Rightarrow> int" where
  "content_bytes as = sum_list (map (\<lambda>a. int (length (at_content a))) as)"

lemma content_bytes_simps [simp]:
  "content_bytes [] = 0" "content_bytes (a # as) = int (length (at_content a)) + content_bytes as"
  "content_bytes (as @ bs) = content_bytes as + content_bytes bs"
  by (simp_all add: content_bytes_def)

lemma content_bytes_nonneg: "0 \<le> content_bytes as"
  by (induction as) simp_all

lemma tally_add_Inr:
  "tally_add n ty = Inr ty' \<longleftrightarrow>
     n \<le> max_bytes_per_file (ty_limits ty) \<and> ty_files ty + 1 \<le> max_files (ty_limits ty)
     \<and> ty_total_bytes ty + n \<le> max_total_bytes (ty_limits ty)
     \<and> ty' = ty\<lparr>ty_files := ty_files ty + 1, ty_total_bytes := ty_total_bytes ty + n\<rparr>"
  by (auto simp: tally_add_def)

lemma read_all_caps:
  "read_all u pl spec sink call k ty ds = Inr as \<Longrightarrow>
     (as \<noteq> [] \<longrightarrow> ty_files ty + int (length as) \<le> max_files (ty_limits ty)
        \<and> ty_total_bytes ty + content_bytes as \<le> max_total_bytes (ty_limits ty))
     \<and> (\<forall>a \<in> set as. int (length (at_content a)) \<le> max_bytes_per_file (ty_limits ty))"
proof (induction u pl spec sink call k ty ds arbitrary: as rule: read_all.induct)
  case (2 u pl spec sink call k ty d n ds)
  obtain content where c: "pl_read pl k (out_path d) (min n (remaining_bytes ty)) = Inr content"
    using 2(2) by (auto split: sum.splits)
  obtain ty' rest where t: "tally_add (int (length content)) ty = Inr ty'"
      and rest: "read_all u pl spec sink call (Suc k) ty' ds = Inr rest"
      and as: "\<exists>a. as = a # rest \<and> at_content a = content"
    using 2(2) by (auto simp: c bindE_eq_Inr)
  note ty' = t [unfolded tally_add_Inr]
  show ?case using 2(1) [OF c rest] ty' as by (cases "rest = []") auto
qed simp

lemma read_all_names:
  "read_all u pl spec sink call k ty ds = Inr as \<Longrightarrow>
     map at_name as = map (delivered_name u (Some sink)) (map fst ds)"
  by (induction u pl spec sink call k ty ds arbitrary: as rule: read_all.induct)
     (auto simp: bindE_eq_Inr split: sum.splits)

lemma read_all_contents:
  "read_all u pl spec sink call k ty ds = Inr as \<Longrightarrow> (d, n) \<in> set ds \<Longrightarrow>
     \<exists>a \<in> set as. at_name a = delivered_name u (Some sink) d
       \<and> (\<exists>m cap. pl_read pl m (out_path d) cap = Inr (at_content a))"
  by (induction u pl spec sink call k ty ds arbitrary: as rule: read_all.induct)
     (fastforce simp: bindE_eq_Inr split: sum.splits)+

subsection \<open>What was there\<close>

lemma stat_and_cap_landing:
  "stat_and_cap pl k ty ds = Inr found \<Longrightarrow> subseq (map fst found) (landing ds)"
  by (induction pl k ty ds arbitrary: found rule: stat_and_cap.induct)
     (auto simp: bindE_eq_Inr landing_def split: sum.splits option.splits if_splits)

lemma stat_and_cap_required:
  "stat_and_cap pl k ty ds = Inr found \<Longrightarrow> d \<in> set (landing ds) \<Longrightarrow> out_required d \<Longrightarrow> d \<in> set (map fst found)"
  by (induction pl k ty ds arbitrary: found rule: stat_and_cap.induct)
     (auto simp: bindE_eq_Inr landing_def split: sum.splits option.splits if_splits)

subsection \<open>The names\<close>

lemma check_declared_names_Inr:
  "check_declared_names u sink seen ds = Inr w \<Longrightarrow>
     (\<forall>d \<in> set ds. artifact_name_ok (out_path d))
     \<and> (\<forall>d \<in> set (landing ds). artifact_name_ok (delivered_name u sink d))
     \<and> distinct (map (\<lambda>d. collision_key u (delivered_name u sink d)) (landing ds))
     \<and> set (map (\<lambda>d. collision_key u (delivered_name u sink d)) (landing ds)) \<inter> set seen = {}"
proof (induction u sink seen ds rule: check_declared_names.induct)
  case (2 u sink seen d ds)
  have path: "artifact_name_ok (out_path d)"
    using 2(3) by (auto simp: validate_artifact_name_def bindE_eq_Inr)
  have ok: "validate_artifact_name (out_path d) = Inr ()" using path by (simp add: validate_artifact_name_def)
  let ?name = "delivered_name u sink d"
  let ?key = "collision_key u ?name"
  show ?case
  proof (cases "out_disposition d = LAND")
    case False
    then show ?thesis using 2 ok path by (auto simp: landing_def)
  next
    case True
    have name: "artifact_name_ok ?name"
      using 2(3) ok path True by (auto simp: Let_def bindE_eq_Inr validate_artifact_name_def split: if_splits)
    have rest: "?key \<notin> set seen" "check_declared_names u sink (?key # seen) ds = Inr w"
      using 2(3) ok True by (auto simp: Let_def bindE_eq_Inr split: if_splits)
    have lands: "\<not> out_disposition d \<noteq> LAND" using True by simp
    from 2(2) [OF lands refl refl rest]
    have "(\<forall>d \<in> set ds. artifact_name_ok (out_path d))
      \<and> (\<forall>d \<in> set (landing ds). artifact_name_ok (delivered_name u sink d))
      \<and> distinct (map (\<lambda>d. collision_key u (delivered_name u sink d)) (landing ds))
      \<and> set (map (\<lambda>d. collision_key u (delivered_name u sink d)) (landing ds)) \<inter> set (?key # seen) = {}" .
    then show ?thesis using True path name rest(1) by (auto simp: landing_def)
  qed
qed (simp add: landing_def)

lemma subseq_subset: "subseq xs ys \<Longrightarrow> set xs \<subseteq> set ys"
  by (induction rule: list_emb.induct) auto

lemma subseq_distinct: "subseq xs ys \<Longrightarrow> distinct ys \<Longrightarrow> distinct xs"
  by (induction rule: list_emb.induct) (auto dest: subseq_subset)

subsection \<open>Delivering\<close>

lemma deliver_all_prefix:
  "deliver_all sink as st = (r, handed, st') \<Longrightarrow> prefix handed as \<and> (\<forall>l. r = Inr l \<longrightarrow> handed = as \<and> length l = length as)"
  by (induction sink as st arbitrary: r handed st' rule: deliver_all.induct)
     (fastforce simp: bindE_eq_Inr split: prod.splits sum.splits)+

text \<open>The ways of a collection: it ends before anything is handed over, or everything is in hand.\<close>

lemma collect_ways:
  assumes "collect_outputs u pl spec sink outputs call st = (r, handed, st')"
  obtains (before) "handed = []" "st' = st" "\<And>l. r = Inr l \<Longrightarrow> l = [] \<and> (\<exists>ty. stat_and_cap pl 0 ty (declared_outputs spec @ outputs) = Inr [])"
  | (in_hand) k found artifacts where "sink = Some k"
      "check_declared_names u sink [] (declared_outputs spec @ outputs) = Inr ()"
      "stat_and_cap pl 0 (fresh_tally (files_out spec)) (declared_outputs spec @ outputs) = Inr found"
      "read_all u pl spec k call (length (declared_outputs spec @ outputs)) (fresh_tally (files_out spec)) found = Inr artifacts"
      "deliver_all k artifacts st = (r, handed, st')"
  using assms unfolding collect_outputs_def Let_def
  by (auto split: if_splits sum.splits option.splits)

text \<open>
  C13: What a collection hands to the host keeps to the declaration and to the caps of the workload,
  counted on the bytes that arrived, whatever the guest does to its files between the look and the
  read: as many files, as many bytes in all and in each as the caps allow, under names that meet the
  narrow invariant in the spelling that is delivered, no two of them one file at a destination that
  folds case or Unicode form, in the order declared.
\<close>

theorem collection_keeps_to_the_declaration:
  assumes "collect_outputs u pl spec (Some k) outputs call st = (r, handed, st')" and "handed \<noteq> []"
  shows "int (length handed) \<le> max_files (files_out spec)
    \<and> content_bytes handed \<le> max_total_bytes (files_out spec)
    \<and> list_all (\<lambda>a. int (length (at_content a)) \<le> max_bytes_per_file (files_out spec) \<and> artifact_name_ok (at_name a)) handed
    \<and> distinct (map (\<lambda>a. collision_key u (at_name a)) handed)
    \<and> subseq (map at_name handed) (map (delivered_name u (Some k)) (landing (declared_outputs spec @ outputs)))"
  using assms(1)
proof (cases rule: collect_ways)
  case before
  then show ?thesis using assms(2) by simp
next
  case (in_hand k' found artifacts)
  then have k: "k' = k" by simp
  let ?ds = "declared_outputs spec @ outputs"
  have pre: "prefix handed artifacts" using deliver_all_prefix [OF in_hand(5)] by blast
  then obtain later where later: "artifacts = handed @ later" by (auto simp: prefix_def)
  then have full: "artifacts \<noteq> []" using assms(2) by simp
  have caps: "int (length artifacts) \<le> max_files (files_out spec)" "content_bytes artifacts \<le> max_total_bytes (files_out spec)"
    "\<forall>a \<in> set artifacts. int (length (at_content a)) \<le> max_bytes_per_file (files_out spec)"
    using read_all_caps [OF in_hand(4)] full by (simp_all add: fresh_tally_def)
  have names: "map at_name artifacts = map (delivered_name u (Some k)) (map fst found)"
    using read_all_names [OF in_hand(4)] k by simp
  have sub: "subseq (map fst found) (landing ?ds)" by (rule stat_and_cap_landing [OF in_hand(3)])
  have decl: "\<forall>d \<in> set (landing ?ds). artifact_name_ok (delivered_name u (Some k) d)"
    "distinct (map (\<lambda>d. collision_key u (delivered_name u (Some k) d)) (landing ?ds))"
    using check_declared_names_Inr [OF in_hand(2)] by simp_all
  have ok: "\<forall>a \<in> set artifacts. artifact_name_ok (at_name a)"
  proof
    fix a assume "a \<in> set artifacts"
    then have "at_name a \<in> set (map (delivered_name u (Some k)) (map fst found))" using names by (metis image_eqI set_map)
    then show "artifact_name_ok (at_name a)" using decl(1) sub using subseq_subset [OF sub] by auto
  qed
  have order: "subseq (map at_name artifacts) (map (delivered_name u (Some k)) (landing ?ds))"
    unfolding names by (rule subseq_map [OF sub])
  have "subseq (map (collision_key u) (map at_name artifacts))
      (map (collision_key u) (map (delivered_name u (Some k)) (landing ?ds)))"
    by (rule subseq_map [OF order])
  then have "distinct (map (collision_key u) (map at_name artifacts))"
    using decl(2) subseq_distinct by (fastforce simp: comp_def)
  moreover have "subseq (map at_name handed) (map at_name artifacts)" using later by (simp add: list_emb_prefix)
  ultimately show ?thesis
    using caps ok order later content_bytes_nonneg [of later] subseq_order.trans
    by (fastforce simp: list_all_iff comp_def)
qed


subsection \<open>Names for Windows\<close>

text \<open>Microsoft's rules for one component of a path.\<close>

definition windows_ok :: "string \<Rightarrow> bool" where
  "windows_ok s \<longleftrightarrow>
     s \<noteq> [] \<and> \<not> list_ex unportable s \<and> \<not> trailing (last s) \<and> map upper (stem_of s) \<notin> set reserved_stems"

lemma stem_rest [simp]: "stem_of s @ rest_of s = s"
  by (simp add: stem_of_def rest_of_def)

lemma both_empty [simp]: "stem_of s = [] \<and> rest_of s = [] \<longleftrightarrow> s = []"
  by (metis append_is_Nil_conv stem_rest)

lemma not_unportable_replacement [simp]: "\<not> unportable replacement" "\<not> trailing replacement" "replacement \<noteq> CHR ''.''"
  by (simp_all add: unportable_def replacement_def is_control_def trailing_def)

lemma last_of_stripped: "rev (dropWhile P (rev m)) \<noteq> [] \<Longrightarrow> \<not> P (last (rev (dropWhile P (rev m))))"
  using hd_dropWhile [of P "rev m"] by (simp add: last_rev)

lemma cleaned_segment_shape:
  "\<not> list_ex unportable (cleaned_segment s) \<and> (cleaned_segment s \<noteq> [] \<longrightarrow> \<not> trailing (last (cleaned_segment s)))"
proof -
  let ?m = "map (\<lambda>c. if unportable c then replacement else c) s"
  have "set (cleaned_segment s) \<subseteq> set ?m" unfolding cleaned_segment_def using set_dropWhileD by fastforce
  then have "\<not> list_ex unportable (cleaned_segment s)" by (auto simp: list_ex_iff subset_iff)
  moreover have "cleaned_segment s \<noteq> [] \<longrightarrow> \<not> trailing (last (cleaned_segment s))"
    unfolding cleaned_segment_def using last_of_stripped [of trailing ?m] by blast
  ultimately show ?thesis by blast
qed

lemma cleaned_segment_id:
  assumes "\<not> list_ex unportable s" and "s \<noteq> [] \<longrightarrow> \<not> trailing (last s)"
  shows "cleaned_segment s = s"
proof -
  have "map (\<lambda>c. if unportable c then replacement else c) s = s"
    using assms(1) by (induction s) auto
  then show ?thesis using assms(2) unfolding cleaned_segment_def
    by (cases s rule: rev_cases) simp_all
qed

lemma takeWhile_through:
  "\<forall>x \<in> set xs. P x \<Longrightarrow> P r \<Longrightarrow> takeWhile P ys = [] \<Longrightarrow> takeWhile P (xs @ [r] @ ys) = xs @ [r]"
  by (induction xs) auto

lemma stem_of_extended: "stem_of (stem_of c @ [replacement] @ rest_of c) = stem_of c @ [replacement]"
  unfolding stem_of_def [of "stem_of c @ [replacement] @ rest_of c"]
proof (rule takeWhile_through)
  show "\<forall>x \<in> set (stem_of c). x \<noteq> CHR ''.''" unfolding stem_of_def using set_takeWhileD by fast
  show "takeWhile (\<lambda>c. c \<noteq> CHR ''.'') (rest_of c) = []"
    unfolding rest_of_def by (induction c) auto
qed simp

lemma reserved_ends: "\<not> replacement = last r" if "r \<in> set reserved_stems"
  using that by (auto simp: reserved_stems_def superscript_digits_def replacement_def)

lemma portable_segment_windows: "windows_ok (portable_segment s)"
proof -
  let ?c = "cleaned_segment s"
  note shape = cleaned_segment_shape [of s]
  show ?thesis
  proof (cases "map upper (stem_of ?c) \<in> set reserved_stems")
    case False
    then have p: "portable_segment s = (if ?c = [] then [replacement] else ?c)"
      by (simp add: portable_segment_def Let_def)
    show ?thesis
    proof (cases "?c = []")
      case True
      have "windows_ok [replacement]" by code_simp
      then show ?thesis using p True by simp
    next
      case nonempty: False
      then show ?thesis using p shape False by (simp add: windows_ok_def)
    qed
  next
    case True
    let ?p = "stem_of ?c @ [replacement] @ rest_of ?c"
    have p: "portable_segment s = ?p" using True by (simp add: portable_segment_def Let_def)
    have parts: "set (stem_of ?c) \<union> set (rest_of ?c) = set ?c" by (metis set_append stem_rest)
    then have "\<not> list_ex unportable ?p" using shape by (auto simp: list_ex_iff)
    moreover have "\<not> trailing (last ?p)"
    proof (cases "rest_of ?c = []")
      case False
      then have "last ?p = last ?c" by (metis last_appendR append_is_Nil_conv stem_rest)
      then show ?thesis using shape False by (metis append_is_Nil_conv stem_rest)
    qed simp
    moreover have "stem_of ?p = stem_of ?c @ [replacement]" by (rule stem_of_extended)
    then have "map upper (stem_of ?p) = map upper (stem_of ?c) @ [replacement]" by (simp add: replacement_def upper_def)
    then have "map upper (stem_of ?p) \<notin> set reserved_stems"
      using reserved_ends [of "map upper (stem_of ?c) @ [replacement]"] by auto
    ultimately show ?thesis unfolding p windows_ok_def by simp
  qed
qed

lemma portable_segment_id: "windows_ok s \<Longrightarrow> portable_segment s = s"
  unfolding windows_ok_def portable_segment_def by (simp add: cleaned_segment_id Let_def)

lemma portable_segment_slash: "slash \<notin> set s \<Longrightarrow> slash \<notin> set (portable_segment s)"
proof -
  assume "slash \<notin> set s"
  then have "slash \<notin> set (cleaned_segment s)"
    unfolding cleaned_segment_def using set_dropWhileD by (fastforce simp: replacement_def)
  then have "slash \<notin> set (stem_of (cleaned_segment s))" "slash \<notin> set (rest_of (cleaned_segment s))"
    by (metis UnCI set_append stem_rest)+
  then show ?thesis by (auto simp: portable_segment_def Let_def replacement_def)
qed

text \<open>
  The rewriting of a name for Windows gives a name each of whose components Windows accepts, leaves
  a name alone that already is one, and changes nothing when it is applied again.
\<close>

lemma portable_names_are_portable:
  "list_all windows_ok (split_on slash (portable_file_name name))
   \<and> portable_file_name (portable_file_name name) = portable_file_name name
   \<and> (portable_file_name name = name) = list_all windows_ok (split_on slash name)"
proof -
  let ?p = "map portable_segment (split_on slash name)"
  have free: "\<forall>s \<in> set ?p. slash \<notin> set s"
    using split_on_pieces portable_segment_slash by fastforce
  have pieces: "split_on slash (portable_file_name name) = ?p"
    unfolding portable_file_name_def using free by (intro split_join) auto
  have ok: "list_all windows_ok ?p" by (auto simp: list_all_iff portable_segment_windows)
  have again: "map portable_segment ?p = ?p" using portable_segment_windows by (auto simp: portable_segment_id)
  have "portable_file_name (portable_file_name name) = portable_file_name name"
    unfolding portable_file_name_def [of "portable_file_name name"] pieces again by (simp add: portable_file_name_def)
  moreover have "(portable_file_name name = name) = list_all windows_ok (split_on slash name)"
  proof
    assume "portable_file_name name = name"
    then show "list_all windows_ok (split_on slash name)" using pieces ok by metis
  next
    assume "list_all windows_ok (split_on slash name)"
    then have "?p = split_on slash name" by (auto simp: list_all_iff portable_segment_id intro: map_idI)
    then show "portable_file_name name = name" by (simp add: portable_file_name_def)
  qed
  ultimately show ?thesis using ok pieces by simp
qed

end
