(* ===== verification/Host_Sink.thy ===== *)
theory Host_Sink
  imports Output_Properties
begin

text \<open>
  The sink that lands artifacts in a directory of the host (\<open>make_file_system_sink\<close> of
  \<open>_outputs.py\<close>), over a file tree with links.  Nothing else writes while it works.
\<close>

subsection \<open>The host's files\<close>

text \<open>A path is its list of segments from the root; the parent of what is there is a directory.\<close>

datatype host_node = Host_file string | Host_dir | Host_link string

type_synonym host_files = "string list \<Rightarrow> host_node option"

text \<open>
  \<open>resolve\<close>: every link on the way is followed, what is not there is kept as it is written.  A loop
  of links has no resolution; \<open>fuel\<close> is the number of links followed before one is taken for a loop.
\<close>

function resolve_from :: "nat \<Rightarrow> host_files \<Rightarrow> string list \<Rightarrow> string list \<Rightarrow> string list option" where
  "resolve_from fuel fs here [] = Some here"
| "resolve_from fuel fs here (s # ss) =
     (if s = [] \<or> s = dot then resolve_from fuel fs here ss
      else if s = dotdot then resolve_from fuel fs (butlast here) ss
      else (case fs (here @ [s]) of
          Some (Host_link t) \<Rightarrow>
            if fuel = 0 then None
            else resolve_from (fuel - 1) fs (if isabs t then [] else here) (split_on slash t @ ss)
        | _ \<Rightarrow> resolve_from fuel fs (here @ [s]) ss))"
  by pat_completeness auto
termination
  by (relation "measures [\<lambda>(fuel, _, _, _). fuel, \<lambda>(_, _, _, todo). length todo]") auto

text \<open>The landing path is joined to the base of the sink; an absolute name would replace it.\<close>

definition landing_place :: "nat \<Rightarrow> host_files \<Rightarrow> string list \<Rightarrow> string \<Rightarrow> string list option" where
  "landing_place fuel fs base name = resolve_from fuel fs (if isabs name then [] else base) (split_on slash name)"

text \<open>\<open>is_symlink\<close> of the path as it is named.\<close>

definition names_a_link :: "nat \<Rightarrow> host_files \<Rightarrow> string list \<Rightarrow> string \<Rightarrow> bool" where
  "names_a_link fuel fs base name =
     (let segs = filter (\<lambda>s. s \<noteq> [] \<and> s \<noteq> dot) (split_on slash name)
      in if segs = [] \<or> last segs = dotdot then False
         else (case resolve_from fuel fs (if isabs name then [] else base) (butlast segs) of
             None \<Rightarrow> False
           | Some d \<Rightarrow> (case fs (d @ [last segs]) of Some (Host_link _) \<Rightarrow> True | _ \<Rightarrow> False)))"

text \<open>\<open>mkdir(parents=True, exist_ok=True)\<close>; something in the way that is no directory raises.\<close>

fun make_directories :: "string list \<Rightarrow> string list \<Rightarrow> host_files \<Rightarrow> host_files option" where
  "make_directories here [] fs = Some fs"
| "make_directories here (s # ss) fs =
     (case fs (here @ [s]) of
        None \<Rightarrow> make_directories (here @ [s]) ss (fs(here @ [s] \<mapsto> Host_dir))
      | Some Host_dir \<Rightarrow> make_directories (here @ [s]) ss fs
      | Some _ \<Rightarrow> None)"

definition landed_at :: "string list \<Rightarrow> artifact \<Rightarrow> landed_artifact" where
  "landed_at place a =
     \<lparr>la_name = at_name a, la_display = at_name a @ '' ('' @ decimal (length (at_content a)) @ '' bytes)'',
      la_handle = Some (slash # join_with slash place)\<rparr>"

text \<open>
  Opening the destination: exclusively, or over what is there.  A directory cannot be opened either
  way, with an error of the operating system when nothing was to be refused.
\<close>

definition deliver_to_directory ::
  "nat \<Rightarrow> bool \<Rightarrow> string list \<Rightarrow> artifact \<Rightarrow> host_files \<Rightarrow> (output_error + landed_artifact) \<times> host_files" where
  "deliver_to_directory fuel replacing base a fs =
     (case landing_place fuel fs base (at_name a) of
        None \<Rightarrow> (Inl (if \<not> replacing \<and> names_a_link fuel fs base (at_name a) then Landing_exists else Other_error ''OSError''), fs)
      | Some place \<Rightarrow>
          if \<not> prefix base place then (Inl Landing_not_confined, fs)
          else if \<not> replacing \<and> (names_a_link fuel fs base (at_name a) \<or> fs place \<noteq> None) then (Inl Landing_exists, fs)
          else (case make_directories [] (butlast place) fs of
              None \<Rightarrow> (Inl Landing_exists, fs)
            | Some fs' \<Rightarrow>
                if fs' place = Some Host_dir then (Inl (Other_error ''OSError''), fs')
                else (Inr (landed_at place a), fs'(place \<mapsto> Host_file (at_content a)))))"

definition file_system_sink :: "nat \<Rightarrow> bool \<Rightarrow> string list \<Rightarrow> host_files output_sink" where
  "file_system_sink fuel replacing base =
     \<lparr>sk_composes = True, sk_per_call = False, sk_deliver = deliver_to_directory fuel replacing base\<rparr>"

subsection \<open>What it changes\<close>

definition only_made :: "string list \<Rightarrow> string list \<Rightarrow> host_files \<Rightarrow> host_files \<Rightarrow> bool" where
  "only_made here ss fs fs' \<longleftrightarrow>
     (\<forall>p. fs p \<noteq> None \<longrightarrow> fs' p = fs p)
     \<and> (\<forall>p. fs' p \<noteq> fs p \<longrightarrow> fs' p = Some Host_dir \<and> strict_prefix here p \<and> prefix p (here @ ss))
     \<and> (\<forall>k. 0 < k \<and> k \<le> length ss \<longrightarrow> fs' (here @ take k ss) = Some Host_dir)"

lemma make_directories_frame: "make_directories here ss fs = Some fs' \<Longrightarrow> only_made here ss fs fs'"
proof (induction here ss fs rule: make_directories.induct)
  case (2 here s ss fs)
  let ?h = "here @ [s]"
  have "\<exists>g. g ?h = Some Host_dir \<and> (g = fs \<or> (fs ?h = None \<and> g = fs(?h \<mapsto> Host_dir))) \<and> only_made ?h ss g fs'"
  proof (cases "fs ?h")
    case None
    have "make_directories ?h ss (fs(?h \<mapsto> Host_dir)) = Some fs'" using 2(3) None by simp
    from 2(1) [OF None this] show ?thesis using None by (metis fun_upd_same)
  next
    case (Some n)
    have n: "n = Host_dir" "make_directories ?h ss fs = Some fs'" using 2(3) Some by (auto split: host_node.splits)
    from 2(2) [OF Some n] show ?thesis using Some n(1) by (intro exI [of _ fs]) simp
  qed
  then obtain g where g: "g ?h = Some Host_dir" "g = fs \<or> (fs ?h = None \<and> g = fs(?h \<mapsto> Host_dir))"
    and ih: "only_made ?h ss g fs'" by blast
  note kept = ih [unfolded only_made_def]
  have "fs' p = fs p" if "fs p \<noteq> None" for p using kept g(2) that by (metis fun_upd_apply)
  moreover have "fs' p = Some Host_dir \<and> strict_prefix here p \<and> prefix p (here @ s # ss)" if d: "fs' p \<noteq> fs p" for p
  proof (cases "p = ?h")
    case True
    then show ?thesis using kept g(1) by (auto simp: strict_prefix_def)
  next
    case False
    then have "fs' p \<noteq> g p" using d g(2) by auto
    then show ?thesis using kept by (auto simp: strict_prefix_def prefix_def)
  qed
  moreover have "fs' (here @ take k (s # ss)) = Some Host_dir" if k: "0 < k" "k \<le> length (s # ss)" for k
  proof (cases "k = 1")
    case True
    then show ?thesis using kept g(1) by auto
  next
    case False
    then obtain j where "k = Suc j" "0 < j" using k(1) by (cases k) auto
    then show ?thesis using kept k(2) by simp
  qed
  ultimately show ?case unfolding only_made_def by blast
qed (simp add: only_made_def)

text \<open>A resolved path leads to itself: no link is on the way to it.\<close>

definition no_link :: "host_files \<Rightarrow> string list \<Rightarrow> bool" where
  "no_link fs p \<longleftrightarrow> (\<forall>k \<le> length p. case fs (take k p) of Some (Host_link _) \<Rightarrow> False | _ \<Rightarrow> True)"

lemma no_link_butlast: "no_link fs p \<Longrightarrow> no_link fs (butlast p)"
  by (auto simp: no_link_def butlast_conv_take)

lemma no_link_snoc: "no_link fs (p @ [s]) \<longleftrightarrow> no_link fs p \<and> (case fs (p @ [s]) of Some (Host_link _) \<Rightarrow> False | _ \<Rightarrow> True)"
  by (auto simp: no_link_def le_Suc_eq)

lemma resolve_from_no_link:
  "resolve_from fuel fs here ss = Some p \<Longrightarrow> no_link fs here \<Longrightarrow> no_link fs [] \<Longrightarrow> no_link fs p"
proof (induction fuel fs here ss rule: resolve_from.induct)
  case (2 fuel fs here s ss)
  then show ?case
    by (auto simp: no_link_butlast no_link_snoc split: if_splits option.splits host_node.splits)
qed simp

text \<open>The links of two trees agree: the same paths lead to the same places.\<close>

definition same_links :: "host_files \<Rightarrow> host_files \<Rightarrow> bool" where
  "same_links fs fs' \<longleftrightarrow> (\<forall>p t. fs p = Some (Host_link t) \<longleftrightarrow> fs' p = Some (Host_link t))"

lemma same_links_trans: "same_links f g \<Longrightarrow> same_links g h \<Longrightarrow> same_links f h"
  by (simp add: same_links_def)

lemma resolve_from_same_links: "same_links fs fs' \<Longrightarrow> resolve_from fuel fs' here ss = resolve_from fuel fs here ss"
proof (induction fuel fs here ss rule: resolve_from.induct)
  case (2 fuel fs here s ss)
  have iff: "fs p = Some (Host_link t) \<longleftrightarrow> fs' p = Some (Host_link t)" for p t
    using "2.prems" by (simp add: same_links_def)
  show ?case
  proof (cases "\<exists>t. fs (here @ [s]) = Some (Host_link t)")
    case True
    then obtain t where "fs (here @ [s]) = Some (Host_link t)" "fs' (here @ [s]) = Some (Host_link t)" using iff by blast
    then show ?thesis using 2 by auto
  next
    case False
    then have "\<nexists>t. fs' (here @ [s]) = Some (Host_link t)" using iff by blast
    then show ?thesis using 2 False by (auto split: option.splits host_node.splits)
  qed
qed simp

lemma no_link_same_links: "same_links fs fs' \<Longrightarrow> no_link fs' p = no_link fs p"
  by (auto simp: no_link_def same_links_def split: option.splits host_node.splits)

lemma landing_place_same_links: "same_links fs fs' \<Longrightarrow> landing_place fuel fs' base name = landing_place fuel fs base name"
  by (simp add: landing_place_def resolve_from_same_links)

text \<open>What is at a path is in a directory.\<close>

definition tree_ok :: "host_files \<Rightarrow> bool" where
  "tree_ok fs \<longleftrightarrow> fs [] = Some Host_dir \<and> (\<forall>p. p \<noteq> [] \<and> fs p \<noteq> None \<longrightarrow> fs (butlast p) = Some Host_dir)"

lemma only_made_same_links: "only_made here ss fs fs' \<Longrightarrow> same_links fs fs'"
  unfolding only_made_def same_links_def
  by (metis host_node.distinct(5) option.distinct(1) option.inject)

lemma only_made_tree:
  assumes "only_made [] ss fs fs'" and "tree_ok fs" shows "tree_ok fs' \<and> fs' ss = Some Host_dir"
proof -
  note made = assms(1) [unfolded only_made_def]
  have on_way: "fs' (take k ss) = Some Host_dir" if "k \<le> length ss" for k
    using made assms(2) that by (cases "k = 0") (auto simp: tree_ok_def)
  have "fs' (butlast p) = Some Host_dir" if p: "p \<noteq> []" "fs' p \<noteq> None" for p
  proof (cases "fs' p = fs p")
    case True
    then have "fs (butlast p) = Some Host_dir" using p assms(2) by (auto simp: tree_ok_def)
    then show ?thesis using made by (metis option.distinct(1))
  next
    case False
    then have "prefix p ss" using made by auto
    then have "butlast p = take (length p - 1) ss" "length p - 1 \<le> length ss"
      by (auto simp: prefix_def butlast_conv_take)
    then show ?thesis using on_way by simp
  qed
  moreover have "fs' [] = Some Host_dir" using on_way [of 0] by simp
  ultimately show ?thesis using on_way [of "length ss"] by (simp add: tree_ok_def)
qed

text \<open>
  One delivery: what is changed, what is kept, and what an accepted artifact has come to.
\<close>

lemma delivered:
  assumes "deliver_to_directory fuel replacing base a fs = (r, fs')" and "no_link fs base" and "tree_ok fs"
  shows "same_links fs fs'" "tree_ok fs'"
    "\<And>p. fs' p \<noteq> fs p \<Longrightarrow> prefix base p \<or> (strict_prefix p base \<and> fs p = None \<and> fs' p = Some Host_dir)"
    "\<And>p. \<not> replacing \<Longrightarrow> fs p \<noteq> None \<Longrightarrow> fs' p = fs p"
    "\<And>l. r = Inr l \<Longrightarrow> \<exists>place. landing_place fuel fs base (at_name a) = Some place \<and> prefix base place
       \<and> fs' place = Some (Host_file (at_content a)) \<and> l = landed_at place a \<and> (\<not> replacing \<longrightarrow> fs place = None)"
proof -
  have "fs' = fs \<and> (\<forall>l. r \<noteq> Inr l)
    \<or> (\<exists>place g. landing_place fuel fs base (at_name a) = Some place \<and> prefix base place
         \<and> (replacing \<or> fs place = None) \<and> only_made [] (butlast place) fs g
         \<and> (fs' = g \<and> (\<forall>l. r \<noteq> Inr l)
            \<or> g place \<noteq> Some Host_dir \<and> fs' = g(place \<mapsto> Host_file (at_content a)) \<and> r = Inr (landed_at place a)))"
    using assms(1) make_directories_frame [of "[]"]
    by (auto simp: deliver_to_directory_def split: option.splits if_splits)
  then consider (refused) "fs' = fs" "\<forall>l. r \<noteq> Inr l"
    | (opened) place g where "landing_place fuel fs base (at_name a) = Some place" "prefix base place" "replacing \<or> fs place = None"
        "only_made [] (butlast place) fs g"
        "(fs' = g \<and> (\<forall>l. r \<noteq> Inr l))
         \<or> g place \<noteq> Some Host_dir \<and> fs' = g(place \<mapsto> Host_file (at_content a)) \<and> r = Inr (landed_at place a)"
    by blast
  then have "same_links fs fs' \<and> tree_ok fs'
    \<and> (\<forall>p. fs' p \<noteq> fs p \<longrightarrow> prefix base p \<or> (strict_prefix p base \<and> fs p = None \<and> fs' p = Some Host_dir))
    \<and> (\<not> replacing \<longrightarrow> (\<forall>p. fs p \<noteq> None \<longrightarrow> fs' p = fs p))
    \<and> (\<forall>l. r = Inr l \<longrightarrow> (\<exists>place. landing_place fuel fs base (at_name a) = Some place \<and> prefix base place
       \<and> fs' place = Some (Host_file (at_content a)) \<and> l = landed_at place a \<and> (\<not> replacing \<longrightarrow> fs place = None)))"
  proof cases
    case refused
    then show ?thesis using assms(3) by (simp add: same_links_def)
  next
    case (opened place g)
    note place = opened(1-3) and g = opened(4)
    note made = g [unfolded only_made_def]
    have links: "same_links fs g" by (rule only_made_same_links [OF g])
    have tree: "tree_ok g" "g (butlast place) = Some Host_dir" using only_made_tree [OF g assms(3)] by simp_all
    have changed: "prefix base p \<or> (strict_prefix p base \<and> fs p = None \<and> g p = Some Host_dir)" if "g p \<noteq> fs p" for p
    proof -
      have "g p = Some Host_dir \<and> prefix p (butlast place)" using made that by simp
      moreover have "fs p = None" using made that by blast
      ultimately have p: "prefix p (butlast place)" "fs p = None" "g p = Some Host_dir" by simp_all
      then have "prefix p place" by (metis prefix_order.trans prefixeq_butlast)
      then show ?thesis using place(2) p prefix_same_cases by (metis strict_prefixI)
    qed
    from opened(5) show ?thesis
    proof (elim disjE conjE)
      assume "fs' = g" "\<forall>l. r \<noteq> Inr l"
      then show ?thesis using links tree(1) changed made by auto
    next
      assume d: "g place \<noteq> Some Host_dir" and fs': "fs' = g(place \<mapsto> Host_file (at_content a))" and r: "r = Inr (landed_at place a)"
      have root: "no_link fs []" using assms(2) by (auto simp: no_link_def)
      have "no_link fs place"
        using place(1) assms(2) root resolve_from_no_link unfolding landing_place_def by (metis (full_types))
      then have nl: "\<nexists>t. fs place = Some (Host_link t)" by (force simp: no_link_def)
      have links': "same_links fs fs'"
        using links nl unfolding fs' same_links_def by (auto split: if_splits)
      have ne: "place \<noteq> []" using tree(1) d by (auto simp: tree_ok_def)
      have tree': "tree_ok fs'" unfolding tree_ok_def
      proof (intro conjI allI impI)
        show "fs' [] = Some Host_dir" using tree(1) ne fs' by (simp add: tree_ok_def)
      next
        fix p assume p: "p \<noteq> [] \<and> fs' p \<noteq> None"
        show "fs' (butlast p) = Some Host_dir"
        proof (cases "p = place")
          case True
          have "butlast place \<noteq> place" using ne by (metis append_butlast_last_id not_Cons_self2 self_append_conv)
          then show ?thesis using tree(2) True fs' by simp
        next
          case False
          then have "g (butlast p) = Some Host_dir" using p tree(1) fs' by (auto simp: tree_ok_def)
          moreover have "butlast p \<noteq> place" using calculation d by auto
          ultimately show ?thesis using fs' by simp
        qed
      qed
      have "fs' p = fs p" if "\<not> replacing" "fs p \<noteq> None" for p
      proof -
        have "p \<noteq> place" using place(3) that by auto
        then show ?thesis using made that(2) fs' by simp
      qed
      moreover have "prefix base p \<or> (strict_prefix p base \<and> fs p = None \<and> fs' p = Some Host_dir)" if "fs' p \<noteq> fs p" for p
        using changed [of p] that place(2) fs' by (cases "p = place") auto
      ultimately show ?thesis using links' tree' place r fs' by auto
    qed
  qed
  then show "same_links fs fs'" "tree_ok fs'"
    "\<And>p. fs' p \<noteq> fs p \<Longrightarrow> prefix base p \<or> (strict_prefix p base \<and> fs p = None \<and> fs' p = Some Host_dir)"
    "\<And>p. \<not> replacing \<Longrightarrow> fs p \<noteq> None \<Longrightarrow> fs' p = fs p"
    "\<And>l. r = Inr l \<Longrightarrow> \<exists>place. landing_place fuel fs base (at_name a) = Some place \<and> prefix base place
       \<and> fs' place = Some (Host_file (at_content a)) \<and> l = landed_at place a \<and> (\<not> replacing \<longrightarrow> fs place = None)"
    by blast+
qed

subsection \<open>A whole collection\<close>

text \<open>An artifact is whole: by its name one finds its content, under the base.\<close>

definition whole :: "nat \<Rightarrow> string list \<Rightarrow> host_files \<Rightarrow> artifact \<Rightarrow> bool" where
  "whole fuel base fs a \<longleftrightarrow>
     (case landing_place fuel fs base (at_name a) of None \<Rightarrow> False
      | Some place \<Rightarrow> prefix base place \<and> fs place = Some (Host_file (at_content a)))"

lemma wholeI:
  "landing_place fuel fs base (at_name a) = Some place \<Longrightarrow> prefix base place \<Longrightarrow> fs place = Some (Host_file (at_content a))
   \<Longrightarrow> whole fuel base fs a"
  by (simp add: whole_def)

lemma whole_kept:
  assumes "whole fuel base fs a" and "same_links fs fs'" and "\<And>p. fs p \<noteq> None \<Longrightarrow> fs' p = fs p"
  shows "whole fuel base fs' a"
  using assms by (auto simp: whole_def landing_place_same_links split: option.splits)

lemma deliver_all_files:
  assumes "deliver_all (file_system_sink fuel replacing base) as fs = (r, handed, fs')" and "no_link fs base" and "tree_ok fs"
  shows "same_links fs fs' \<and> tree_ok fs'
    \<and> (\<forall>p. fs' p \<noteq> fs p \<longrightarrow> prefix base p \<or> (strict_prefix p base \<and> fs p = None \<and> fs' p = Some Host_dir))
    \<and> (\<not> replacing \<longrightarrow> (\<forall>p. fs p \<noteq> None \<longrightarrow> fs' p = fs p)
         \<and> (\<forall>a \<in> set (case r of Inr _ \<Rightarrow> handed | Inl _ \<Rightarrow> butlast handed). whole fuel base fs' a))"
  using assms
proof (induction as arbitrary: r handed fs fs')
  case Nil
  then show ?case by (auto simp: same_links_def split: sum.split)
next
  case (Cons a as)
  obtain x fs1 where one: "deliver_to_directory fuel replacing base a fs = (x, fs1)" by (rule prod.exhaust)
  have sink: "sk_deliver (file_system_sink fuel replacing base) = deliver_to_directory fuel replacing base"
    by (simp add: file_system_sink_def)
  note d = delivered [OF one Cons.prems(2,3)]
  show ?case
  proof (cases x)
    case (Inl e)
    then have "r = Inl e" "handed = [a]" "fs' = fs1" using Cons.prems(1) by (simp_all add: sink one)
    then show ?thesis using d by auto
  next
    case (Inr l)
    obtain r1 handed1 fs2 where rest: "deliver_all (file_system_sink fuel replacing base) as fs1 = (r1, handed1, fs2)"
      by (metis prod.exhaust)
    have out: "r = bindE r1 (\<lambda>ls. Inr (l # ls))" "handed = a # handed1" "fs' = fs2"
      using Cons.prems(1) by (simp_all add: sink one Inr rest)
    have "no_link fs1 base" using Cons.prems(2) no_link_same_links [OF d(1)] by simp
    note ih = Cons.IH [OF rest this d(2), folded out(3)]
    have changes: "\<forall>p. fs' p \<noteq> fs1 p \<longrightarrow> prefix base p \<or> (strict_prefix p base \<and> fs1 p = None \<and> fs' p = Some Host_dir)"
      by (rule ih [THEN conjunct2, THEN conjunct2, THEN conjunct1])
    have new: "prefix base p \<or> (strict_prefix p base \<and> fs p = None \<and> fs' p = Some Host_dir)" if "fs' p \<noteq> fs p" for p
    proof (cases "fs1 p = fs p")
      case True
      then have "fs' p \<noteq> fs1 p" using that by simp
      then have "prefix base p \<or> (strict_prefix p base \<and> fs1 p = None \<and> fs' p = Some Host_dir)" using changes by simp
      then show ?thesis using True by simp
    next
      case False
      show ?thesis
      proof (cases "fs' p = fs1 p")
        case True
        then show ?thesis using d(3) [OF False] by metis
      next
        case changed: False
        then have "prefix base p \<or> fs1 p = None" using changes by (elim allE impE) auto
        moreover have "prefix base p \<or> fs1 p = Some Host_dir" using d(3) [OF False] by (elim disjE conjE) simp_all
        ultimately show ?thesis by (metis option.distinct(1))
      qed
    qed
    have kept: "fs' p = fs p" if "\<not> replacing" "fs p \<noteq> None" for p
    proof -
      have "fs1 p = fs p" by (rule d(4) [OF that])
      moreover have "fs' p = fs1 p" using ih that calculation by simp
      ultimately show ?thesis by simp
    qed
    have first: "whole fuel base fs' a" if "\<not> replacing"
    proof -
      obtain place where "landing_place fuel fs base (at_name a) = Some place" "prefix base place"
          "fs1 place = Some (Host_file (at_content a))" using d(5) [OF Inr] by blast
      then have "whole fuel base fs1 a" using landing_place_same_links [OF d(1)] by (intro wholeI) simp_all
      then show ?thesis using ih that by (intro whole_kept [of fuel base fs1 a fs']) blast+
    qed
    have "\<forall>b \<in> set (case r of Inr _ \<Rightarrow> handed | Inl _ \<Rightarrow> butlast handed). whole fuel base fs' b" if k: "\<not> replacing"
    proof -
      have later: "\<forall>b \<in> set (case r1 of Inr _ \<Rightarrow> handed1 | Inl _ \<Rightarrow> butlast handed1). whole fuel base fs' b" using ih k by blast
      show ?thesis
        using later first [OF k] out(1,2) by (cases r1; cases "handed1 = []") auto
    qed
    then show ?thesis using ih d(1) new kept same_links_trans by blast
  qed
qed

text \<open>
  C31: The sink of a directory writes under that directory and nowhere else, whatever name it is given and
  whatever links are under it; at most it makes the directories that lead to it.  Asked to refuse, it
  changes nothing that is there; and what it has accepted is found by its name with its content.
\<close>

theorem landing_stays_in_its_directory:
  assumes "deliver_to_directory fuel replacing base a fs = (r, fs')" and "no_link fs base" and "tree_ok fs"
  shows "(if fs' p = fs p then True else prefix base p \<or> (strict_prefix p base \<and> fs p = None \<and> fs' p = Some Host_dir))
    \<and> (if replacing \<or> fs p = None then True else fs' p = fs p)
    \<and> (case r of Inl _ \<Rightarrow> True | Inr _ \<Rightarrow> whole fuel base fs' a)
    \<and> no_link fs' base \<and> tree_ok fs'"
proof -
  note d = delivered [OF assms]
  have "whole fuel base fs' a" if accepted: "r = Inr l" for l
  proof -
    obtain place where "landing_place fuel fs base (at_name a) = Some place" "prefix base place"
        "fs' place = Some (Host_file (at_content a))" using d(5) [OF accepted] by blast
    then show ?thesis using landing_place_same_links [OF d(1)] by (intro wholeI) simp_all
  qed
  then show ?thesis
    using d(2-4) assms(2) no_link_same_links [OF d(1)] by (auto split: sum.split)
qed

text \<open>
  C14: A collection that lands in a directory of the host leaves each of its artifacts whole: none replaces
  another, none is written over a file that was there, and each is found by its name with the bytes
  that were read.  A collection that ends early has changed no file that was there either, and what
  the sink had accepted until then is whole.
\<close>

theorem collected_files_are_whole:
  assumes "collect_outputs u pl spec (Some (file_system_sink fuel False base)) outputs call fs = (r, handed, fs')"
    and "no_link fs base" and "tree_ok fs"
  shows "list_all (whole fuel base fs') (case r of Inr _ \<Rightarrow> handed | Inl _ \<Rightarrow> butlast handed)
    \<and> (if fs p = None then True else fs' p = fs p)
    \<and> (if fs' p = fs p then True else prefix base p \<or> (strict_prefix p base \<and> fs p = None \<and> fs' p = Some Host_dir))"
  using assms(1)
proof (cases rule: collect_ways)
  case before
  then show ?thesis by (auto split: sum.split)
next
  case (in_hand k found artifacts)
  then have d: "deliver_all (file_system_sink fuel False base) artifacts fs = (r, handed, fs')" by simp
  from deliver_all_files [OF d assms(2,3)] show ?thesis by (auto simp: list_all_iff)
qed

subsection \<open>Two artifacts that land\<close>

definition plain_unicode :: unicode where "plain_unicode = \<lparr>un_nfc = id, un_lower = map (\<lambda>c. c)\<rparr>"

definition report_spec :: sandbox_spec where
  "report_spec = \<lparr>spec_kind = ''python'', image = None, image_id = None, work_dir = None, labels = [], requires = {}, min_isolation = None,
     declared_outputs =
       [\<lparr>out_path = ''r/a'', out_disposition = LAND, out_media_type = None, out_required = True, out_name = Some ''a''\<rparr>,
        \<lparr>out_path = ''r/b'', out_disposition = LAND, out_media_type = None, out_required = False, out_name = None\<rparr>,
        \<lparr>out_path = ''r/c'', out_disposition = LAND, out_media_type = None, out_required = True, out_name = Some ''p/c''\<rparr>],
     files_in = default_transfer_limits, files_out = \<lparr>max_bytes_per_file = 100, max_total_bytes = 200, max_files = 5\<rparr>,
     outputs_named_at_call_time = False, requires_os_family = None, host_tools = None, confined_to_guest_call_path = False,
     exclusive_admission = False, program = None, egress_allow = [], egress = CLOSED, isolation_scope = CALL, min_cleanup = None,
     max_identity_scope = None, max_identity_retention = No_seconds, execution_contract = None\<rparr>"

definition report_pull :: pull where
  "report_pull = \<lparr>pl_stat = (\<lambda>_ path. Inr (if path = ''r/b'' then None
        else Some \<lparr>entry_path = path, entry_kind = FILE, size_bytes = Some 4\<rparr>)),
     pl_read = (\<lambda>_ path _. Inr (if path = ''r/a'' then ''fine'' else ''svg''))\<rparr>"

text \<open>The directory \<open>out\<close> holds an older file.\<close>

definition host_before :: host_files where
  "host_before = (\<lambda>p. if p = [] \<or> p = [''out''] then Some Host_dir else if p = [''out'', ''old''] then Some (Host_file ''kept'') else None)"

lemma host_before_ok: "no_link host_before [''out'']" "tree_ok host_before"
  by (auto simp: no_link_def host_before_def tree_ok_def le_Suc_eq split: if_splits)

definition report_run :: "(output_error + landed_artifact list) \<times> artifact list \<times> host_files" where
  "report_run = collect_outputs plain_unicode report_pull report_spec (Some (file_system_sink 40 False [''out''])) [] None host_before"

lemma report_run_lands: "(case fst report_run of Inl _ \<Rightarrow> None | Inr landed \<Rightarrow> Some (map la_name landed)) = Some [''a'', ''p/c'']"
  by code_simp

lemma report_run_hands: "map at_content (fst (snd report_run)) = [''fine'', ''svg'']"
  by code_simp

lemma report_run_ends: "\<exists>l. fst report_run = Inr l" "fst (snd report_run) \<noteq> []"
  using report_run_lands by (cases "fst report_run"; simp) (use report_run_hands in force)

lemma report_run_parts:
  "collect_outputs plain_unicode report_pull report_spec (Some (file_system_sink 40 False [''out''])) [] None host_before
   = (fst report_run, fst (snd report_run), snd (snd report_run))"
  by (simp add: report_run_def)

theorem collection_keeps_to_the_declaration_witness:
  "content_bytes (fst (snd report_run)) \<le> max_total_bytes (files_out report_spec)
   \<and> distinct (map (\<lambda>a. collision_key plain_unicode (at_name a)) (fst (snd report_run)))"
  using collection_keeps_to_the_declaration [OF report_run_parts report_run_ends(2)] by blast


theorem landing_stays_in_its_directory_witness:
  "tree_ok (snd (deliver_to_directory 40 True [''out'']
       \<lparr>at_name = ''old'', at_content = ''new'', at_kind = ''python'', at_media_type = None, at_call_id = None\<rparr> host_before))"
  using landing_stays_in_its_directory [OF surjective_pairing host_before_ok] by blast

theorem collected_files_are_whole_witness:
  "list_all (whole 40 [''out''] (snd (snd report_run))) (fst (snd report_run))
   \<and> snd (snd report_run) [''out'', ''old''] = Some (Host_file ''kept'')"
proof -
  from report_run_ends(1) show ?thesis
    using collected_files_are_whole [OF report_run_parts host_before_ok, of "[''out'', ''old'']"] by (auto simp: host_before_def)
qed

end
