(* ===== verification/Messages.thy ===== *)
theory Messages
  imports Maf_Prelude
begin

text \<open>
  Conversations as \<open>maf-compaction\<close> reads them (\<open>_preserve.py\<close>, \<open>_occurrences.py\<close>, \<open>_summary_links.py\<close>,
  \<open>_tool_result.py\<close>).  Messages and their contents are values, addressed by position; what the agent
  framework does with them is a parameter, a record \<open>framework\<close> of its functions.  The type
  variable stands for what the framework keeps in its own annotation of a message.
\<close>

subsection \<open>Messages\<close>

text \<open>
  An item of a tool result.  \<open>it_bare\<close> says that it has no raw representation and equals a plain text
  item in everything but its text; \<open>it_key\<close> stands for the rest of it.
\<close>

record item =
  it_type :: string
  it_text :: string
  it_bare :: bool
  it_key :: nat

text \<open>A result is a string or another value, kept as \<open>str\<close> shows it.\<close>

datatype result_value = Str_result string | Other_result string

fun shown :: "result_value \<Rightarrow> string" where
  "shown (Str_result t) = t"
| "shown (Other_result t) = t"

record content =
  ct_type :: string
  ct_text :: string
  ct_call_id :: string
  ct_id :: string
  ct_result :: result_value
  ct_items :: "item list"

text \<open>
  \<open>ms_links\<close> are the links of a summary to its sources (message ids, group ids), \<open>None\<close> where the
  annotation has no two lists of strings; an id the code finds missing or empty is the empty string.
\<close>

record 'a message =
  ms_role :: string
  ms_contents :: "content list"
  ms_id :: string
  ms_links :: "(string list \<times> string list) option"
  ms_excluded :: bool
  ms_preserved :: bool
  ms_recall :: bool
  ms_loaded :: bool
  ms_annotation :: 'a

record span =
  sp_start :: nat
  sp_end :: nat
  sp_kind :: string
  sp_group :: string

text \<open>The framework: grouping, annotation, token counts, the text of contents, and the tokenizer.\<close>

record 'a framework =
  fw_groups :: "'a message list \<Rightarrow> span list"
  fw_annotate_groups :: "'a message list \<Rightarrow> 'a message list"
  fw_annotate_tokens :: "bool \<Rightarrow> 'a message list \<Rightarrow> 'a message list"
  fw_included :: "'a message list \<Rightarrow> int"
  fw_text :: "content list \<Rightarrow> string"
  fw_tokens :: "string \<Rightarrow> int"
  fw_blank :: 'a

definition members_of :: "span \<Rightarrow> 'a list \<Rightarrow> 'a list" where
  "members_of g ms = take (Suc (sp_end g) - sp_start g) (drop (sp_start g) ms)"

text \<open>\<open>has_summary_links\<close>.\<close>

definition has_summary_links :: "'a message \<Rightarrow> bool" where
  "has_summary_links m = (case ms_links m of None \<Rightarrow> False
     | Some (ids, groups) \<Rightarrow> ids \<noteq> [] \<and> list_all (\<lambda>x. x \<noteq> []) ids \<and> groups \<noteq> [] \<and> list_all (\<lambda>x. x \<noteq> []) groups)"

subsection \<open>Protection\<close>

definition set_preserved :: "bool \<Rightarrow> 'a message \<Rightarrow> bool \<times> 'a message" where
  "set_preserved p m = (ms_preserved m \<noteq> p, m\<lparr>ms_preserved := p\<rparr>)"

definition any_preserved :: "'a message list \<Rightarrow> bool" where
  "any_preserved ms = list_ex ms_preserved ms"

subsection \<open>Calls and their results\<close>

type_synonym position = "nat \<times> nat"

text \<open>
  \<open>function_result_candidates\<close>: the calls not yet answered, in the order of the code, by call id; a
  result with one candidate consumes it.
\<close>

type_synonym pending_calls = "(string \<times> position \<times> string) list"

definition candidates_for :: "content \<Rightarrow> pending_calls \<Rightarrow> position list" where
  "candidates_for c pending =
     map (\<lambda>(_, p, _). p) (filter (\<lambda>(k, _, i). k = ct_call_id c \<and> (ct_id c = [] \<or> i = ct_id c)) pending)"

definition consume :: "position list \<Rightarrow> pending_calls \<Rightarrow> pending_calls" where
  "consume found pending = (case found of [p] \<Rightarrow> filter (\<lambda>(_, q, _). q \<noteq> p) pending | _ \<Rightarrow> pending)"

definition match_content ::
  "string \<Rightarrow> position \<Rightarrow> content \<Rightarrow> pending_calls \<times> (position \<times> position list) list \<Rightarrow> pending_calls \<times> (position \<times> position list) list" where
  "match_content role p c st = (case st of (pending, results) \<Rightarrow>
     if ct_call_id c = [] then st
     else if role = ''assistant'' \<and> ct_type c = ''function_call'' then (pending @ [(ct_call_id c, p, ct_id c)], results)
     else if ct_type c = ''function_result''
     then (consume (candidates_for c pending) pending, results @ [(p, candidates_for c pending)])
     else st)"

fun match_contents ::
  "string \<Rightarrow> nat \<Rightarrow> nat \<Rightarrow> content list \<Rightarrow> pending_calls \<times> (position \<times> position list) list \<Rightarrow> pending_calls \<times> (position \<times> position list) list" where
  "match_contents role i j [] st = st"
| "match_contents role i j (c # cs) st = match_contents role i (Suc j) cs (match_content role (i, j) c st)"

fun match_messages ::
  "nat \<Rightarrow> 'a message list \<Rightarrow> pending_calls \<times> (position \<times> position list) list \<Rightarrow> pending_calls \<times> (position \<times> position list) list" where
  "match_messages i [] st = st"
| "match_messages i (m # ms) st =
     match_messages (Suc i) ms
       (if ms_role m \<in> {''assistant'', ''tool''} then match_contents (ms_role m) i 0 (ms_contents m) st else st)"

definition function_result_candidates :: "'a message list \<Rightarrow> (position \<times> position list) list" where
  "function_result_candidates ms = snd (match_messages 0 ms ([], []))"

subsection \<open>Spans that may go as a whole\<close>

text \<open>\<open>containing\<close> is written span by span, so the last span that holds a position counts.\<close>

definition containing :: "span list \<Rightarrow> nat \<Rightarrow> (nat \<times> nat) option" where
  "containing spans i = map_option (\<lambda>g. (sp_start g, sp_end g)) (find (\<lambda>g. sp_start g \<le> i \<and> i \<le> sp_end g) (rev spans))"

definition whole_span :: "'a message list \<Rightarrow> span list \<Rightarrow> span \<Rightarrow> bool" where
  "whole_span ms spans g \<longleftrightarrow>
     length (filter (\<lambda>h. sp_group h = sp_group g) spans) = 1
     \<and> (list_all ms_loaded (members_of g ms) \<or> list_all (\<lambda>m. \<not> ms_loaded m) (members_of g ms))"

text \<open>The spans a pair of result and candidate keeps apart from each other.\<close>

definition severed_pair :: "span list \<Rightarrow> position \<Rightarrow> position \<Rightarrow> (nat \<times> nat) list" where
  "severed_pair spans r c =
     (if containing spans (fst c) = containing spans (fst r) then []
      else (case containing spans (fst r) of None \<Rightarrow> [] | Some k \<Rightarrow> [k])
         @ (case containing spans (fst c) of None \<Rightarrow> [] | Some k \<Rightarrow> [k]))"

definition severed :: "span list \<Rightarrow> (position \<times> position list) list \<Rightarrow> (nat \<times> nat) list" where
  "severed spans matches = concat (map (\<lambda>(r, cands). concat (map (severed_pair spans r) cands)) matches)"

definition removable_spans :: "'a message list \<Rightarrow> span list \<Rightarrow> (nat \<times> nat) list" where
  "removable_spans ms spans =
     filter (\<lambda>k. k \<notin> set (severed spans (function_result_candidates ms)))
       (map (\<lambda>g. (sp_start g, sp_end g)) (filter (whole_span ms spans) spans))"

definition removable_whole :: "'a message list \<Rightarrow> span list \<Rightarrow> span \<Rightarrow> bool" where
  "removable_whole ms spans g \<longleftrightarrow> (sp_start g, sp_end g) \<in> set (removable_spans ms spans)"

subsection \<open>Tool results\<close>

definition can_shorten_result :: "content \<Rightarrow> bool" where
  "can_shorten_result c = list_all it_bare (ct_items c)"

definition text_item :: "string \<Rightarrow> item" where
  "text_item t = \<lparr>it_type = ''text'', it_text = t, it_bare = True, it_key = 0\<rparr>"

text \<open>
  The host's hook: the items it leaves on a copy, \<open>None\<close> when it declines.  An item it keeps is
  recognised by its key; non-text items come back from the source.
\<close>

type_synonym rewriter = "content \<Rightarrow> string \<Rightarrow> item list option"

definition joined_texts :: "item list \<Rightarrow> string" where
  "joined_texts items = join_with (CHR 0x0A) (map it_text (filter (\<lambda>x. it_type x = ''text'' \<and> it_text x \<noteq> []) items))"

fun with_originals :: "item list \<Rightarrow> item list \<Rightarrow> item list" where
  "with_originals [] originals = []"
| "with_originals (x # xs) originals =
     (if it_type x = ''text'' then x # with_originals xs originals
      else (case originals of [] \<Rightarrow> [] | y # ys \<Rightarrow> y # with_originals xs ys))"

definition plan_result_items :: "rewriter option \<Rightarrow> content \<Rightarrow> string \<Rightarrow> unit + item list option" where
  "plan_result_items hook c t =
     (if can_shorten_result c then Inr (Some [text_item t])
      else (case hook of None \<Rightarrow> Inr None
        | Some f \<Rightarrow> (case f c t of None \<Rightarrow> Inr None
            | Some items \<Rightarrow>
                if joined_texts items \<noteq> t then Inl ()
                else if map it_key (filter (\<lambda>x. it_type x \<noteq> ''text'') items)
                          \<noteq> map it_key (filter (\<lambda>x. it_type x \<noteq> ''text'') (ct_items c)) then Inl ()
                else Inr (Some (with_originals items (filter (\<lambda>x. it_type x \<noteq> ''text'') (ct_items c)))))))"

text \<open>\<open>repair_compacted_items\<close>, for one content and for all.\<close>

definition needs_repair :: "(string \<Rightarrow> bool) \<Rightarrow> content \<Rightarrow> bool" where
  "needs_repair compacted c \<longleftrightarrow> ct_type c = ''function_result''
     \<and> (case ct_result c of Str_result t \<Rightarrow> ct_items c \<noteq> [] \<and> compacted t \<and> can_shorten_result c \<and> map it_text (ct_items c) \<noteq> [t]
        | Other_result _ \<Rightarrow> False)"

definition repair_content :: "(string \<Rightarrow> bool) \<Rightarrow> content \<Rightarrow> content" where
  "repair_content compacted c = (if needs_repair compacted c then c\<lparr>ct_items := [text_item (shown (ct_result c))]\<rparr> else c)"

definition repair_compacted_items :: "(string \<Rightarrow> bool) \<Rightarrow> 'a message list \<Rightarrow> bool \<times> 'a message list" where
  "repair_compacted_items compacted ms =
     (list_ex (\<lambda>m. list_ex (needs_repair compacted) (ms_contents m)) ms,
      map (\<lambda>m. m\<lparr>ms_contents := map (repair_content compacted) (ms_contents m)\<rparr>) ms)"

end
