(* ===== verification/Anchored.thy ===== *)
theory Anchored
  imports Messages Decimals
begin

text \<open>
  The anchored compaction strategy (\<open>_anchored.py\<close>): a fixed head and tail, results in the band
  between them shortened by position, whole groups shed while the prompt is over a ceiling.

  Floating-point results are parameters of the configuration: the share a position gets of the
  ceiling, the rescaling of an offset, the floor of the minimum-gain variant.
\<close>

subsection \<open>Configuration\<close>

record anchored_config =
  ac_max_tokens :: int
  ac_head :: nat
  ac_tail :: nat
  ac_keep :: "int option"
  ac_share :: "nat \<Rightarrow> int"
  ac_scale :: "int \<Rightarrow> int \<Rightarrow> int \<Rightarrow> int"
  ac_collapse_text :: bool
  ac_hook :: "rewriter option"

text \<open>\<open>__init__\<close>; \<open>share_ok\<close> is the range check of the float \<open>band_share\<close>.\<close>

definition anchored_init ::
  "int \<Rightarrow> int \<Rightarrow> int \<Rightarrow> int option \<Rightarrow> bool \<Rightarrow> (nat \<Rightarrow> int) \<Rightarrow> (int \<Rightarrow> int \<Rightarrow> int \<Rightarrow> int) \<Rightarrow> bool \<Rightarrow> rewriter option \<Rightarrow> unit + anchored_config" where
  "anchored_init max_tokens head tail keep share_ok share scale collapse hook =
     bindE (raiseIf (max_tokens \<le> 0) ()) (\<lambda>_.
     bindE (raiseIf (head < 0 \<or> tail < 0) ()) (\<lambda>_.
     bindE (raiseIf (case keep of None \<Rightarrow> False | Some k \<Rightarrow> k < 0) ()) (\<lambda>_.
     bindE (raiseIf (\<not> share_ok) ()) (\<lambda>_.
       Inr \<lparr>ac_max_tokens = max_tokens, ac_head = nat head, ac_tail = nat tail, ac_keep = keep, ac_share = share,
            ac_scale = scale, ac_collapse_text = collapse, ac_hook = hook\<rparr>))))"

definition default_keep_tokens :: int where "default_keep_tokens = 150"
definition fit_passes :: nat where "fit_passes = 4"
definition short_reply_tokens :: int where "short_reply_tokens = 64"
definition removal_marker :: string where "removal_marker = ''... removed by compaction''"
definition marker_id_prefix :: string where "marker_id_prefix = ''anchored_''"
definition tool_note :: string where "tool_note = ''[compacted: an earlier tool call and its result]''"
definition reply_note :: string where "reply_note = ''[compacted: an earlier assistant reply]''"
definition answered_note :: string where
  "answered_note = ''[compacted: the preceding user request was already answered; the assistant reply was removed]''"

subsection \<open>Decimal numbers\<close>

text \<open>Commas from the right, on the reversed digits; a minus sign for a negative number.\<close>

fun with_commas :: "string \<Rightarrow> string" where
  "with_commas (a # b # c # d # rest) = a # b # c # CHR '','' # with_commas (d # rest)"
| "with_commas ds = ds"

definition comma_decimal :: "int \<Rightarrow> string" where
  "comma_decimal n = (if n < 0 then CHR ''-'' # rev (with_commas (rev (decimal (nat (- n)))))
     else rev (with_commas (rev (decimal (nat n)))))"

subsection \<open>Shortening a result\<close>

definition cut_open :: string where "cut_open = CHR 0x0A # ''['' @ removal_marker @ '': ''"
definition cut_close :: string where "cut_close = '' characters]'' @ [CHR 0x0A]"

definition number_char :: "char \<Rightarrow> bool" where
  "number_char c \<longleftrightarrow> c = CHR '','' \<or> (48 \<le> (of_char c :: nat) \<and> (of_char c :: nat) \<le> 57)"

text \<open>The pattern of a cut at the head of a text: the digits are taken greedily, as they end at a blank.\<close>

definition cut_here :: "string \<Rightarrow> bool" where
  "cut_here t \<longleftrightarrow> prefix cut_open t
     \<and> (let rest = drop (length cut_open) t
         in takeWhile number_char rest \<noteq> [] \<and> prefix cut_close (dropWhile number_char rest))"

text \<open>\<open>_SHORTENED.search\<close>.\<close>

fun is_shortened :: "string \<Rightarrow> bool" where
  "is_shortened [] = cut_here []"
| "is_shortened (x # xs) = (cut_here (x # xs) \<or> is_shortened xs)"

definition end_piece :: "bool \<Rightarrow> string \<Rightarrow> int \<Rightarrow> string" where
  "end_piece from_end t n = (if from_end then drop (length t - nat n) t else take (nat n) t)"

text \<open>The passes of \<open>_fit\<close>: how many are left, the offset to try, the best one so far.\<close>

fun fit_loop :: "(string \<Rightarrow> int) \<Rightarrow> (int \<Rightarrow> int \<Rightarrow> int \<Rightarrow> int) \<Rightarrow> string \<Rightarrow> int \<Rightarrow> bool \<Rightarrow> nat \<Rightarrow> int \<Rightarrow> int \<Rightarrow> int" where
  "fit_loop count scale t tokens from_end 0 chars best = best"
| "fit_loop count scale t tokens from_end (Suc k) chars best =
     (if chars \<le> 0 then best
      else let counted = count (end_piece from_end t chars);
               better = (if counted \<le> tokens then max best chars else best)
           in if counted \<le> tokens \<and> (counted = tokens \<or> chars = int (length t)) then better
              else let following = min (scale chars tokens (max counted 1)) (int (length t))
                   in if following = chars then better
                      else fit_loop count scale t tokens from_end k following better)"

definition fit :: "(string \<Rightarrow> int) \<Rightarrow> (int \<Rightarrow> int \<Rightarrow> int \<Rightarrow> int) \<Rightarrow> string \<Rightarrow> int \<Rightarrow> bool \<Rightarrow> int" where
  "fit count scale t tokens from_end =
     fit_loop count scale t tokens from_end fit_passes
       (min (scale (int (length t)) tokens (max (count t) 1)) (int (length t))) 0"

definition cut_text :: "string \<Rightarrow> int \<Rightarrow> int \<Rightarrow> string" where
  "cut_text t head tail =
     end_piece False t head @ cut_open @ comma_decimal (int (length t) - head - tail) @ cut_close @ end_piece True t tail"

definition shorten :: "(string \<Rightarrow> int) \<Rightarrow> (int \<Rightarrow> int \<Rightarrow> int \<Rightarrow> int) \<Rightarrow> string \<Rightarrow> int \<Rightarrow> string" where
  "shorten count scale t budget =
     (if is_shortened t \<or> count t \<le> budget then t
      else let head = budget div 2;
               short = cut_text t (fit count scale t head False) (fit count scale t (budget - head) True)
           in if count short \<ge> count t then t else short)"

definition keep_tokens_for :: "anchored_config \<Rightarrow> nat \<Rightarrow> int" where
  "keep_tokens_for cfg pos = (case ac_keep cfg of Some k \<Rightarrow> k | None \<Rightarrow> max (ac_share cfg pos) default_keep_tokens)"

subsection \<open>The band\<close>

definition is_marker :: "'a framework \<Rightarrow> 'a message \<Rightarrow> bool" where
  "is_marker fw m \<longleftrightarrow> ms_role m = ''assistant'' \<and> has_summary_links m \<and> ms_id m \<noteq> [] \<and> prefix marker_id_prefix (ms_id m)
     \<and> fw_text fw (ms_contents m) \<in> {tool_note, reply_note, answered_note}"

definition is_marker_group :: "'a framework \<Rightarrow> 'a message list \<Rightarrow> span \<Rightarrow> bool" where
  "is_marker_group fw ms g \<longleftrightarrow> members_of g ms \<noteq> [] \<and> list_all (is_marker fw) (members_of g ms)"

definition real_groups :: "'a framework \<Rightarrow> 'a message list \<Rightarrow> span list \<Rightarrow> span list" where
  "real_groups fw ms groups = filter (\<lambda>g. \<not> is_marker_group fw ms g \<and> \<not> ms_recall (ms ! sp_start g)) groups"

definition middle_band :: "'a framework \<Rightarrow> anchored_config \<Rightarrow> 'a message list \<Rightarrow> span list \<Rightarrow> span list" where
  "middle_band fw cfg ms groups =
     (let real = real_groups fw ms groups
      in if int (length real) - int (ac_tail cfg) \<le> int (ac_head cfg) then []
         else drop (ac_head cfg) (take (length real - ac_tail cfg) real))"

subsection \<open>Collapsing results\<close>

record shortening =
  sh_at :: position
  sh_text :: string
  sh_items :: "item list"
  sh_saved :: int

definition plan_content :: "'a framework \<Rightarrow> anchored_config \<Rightarrow> int \<Rightarrow> nat \<Rightarrow> nat \<times> content \<Rightarrow> unit + shortening list" where
  "plan_content fw cfg budget i jc = (case jc of (j, c) \<Rightarrow>
     if ct_type c \<noteq> ''function_result'' \<or> (ac_hook cfg = None \<and> \<not> can_shorten_result c) then Inr []
     else let t = shown (ct_result c); short = shorten (fw_tokens fw) (ac_scale cfg) t budget
          in if short = t then Inr []
             else bindE (plan_result_items (ac_hook cfg) c short) (\<lambda>planned.
               Inr (case planned of None \<Rightarrow> []
                 | Some items \<Rightarrow> [\<lparr>sh_at = (i, j), sh_text = short, sh_items = items,
                                   sh_saved = fw_tokens fw t - fw_tokens fw short\<rparr>])))"

definition plan_message :: "'a framework \<Rightarrow> anchored_config \<Rightarrow> int \<Rightarrow> nat \<times> 'a message \<Rightarrow> unit + shortening list" where
  "plan_message fw cfg budget im = (case im of (i, m) \<Rightarrow>
     if ms_excluded m \<or> ms_preserved m then Inr []
     else bindE (mapE (plan_content fw cfg budget i) (enumerate 0 (ms_contents m))) (\<lambda>xs. Inr (concat xs)))"

fun plan_from :: "'a framework \<Rightarrow> anchored_config \<Rightarrow> 'a message list \<Rightarrow> nat \<Rightarrow> span list \<Rightarrow> unit + shortening list" where
  "plan_from fw cfg ms pos [] = Inr []"
| "plan_from fw cfg ms pos (g # gs) =
     (if sp_kind g \<noteq> ''tool_call'' then plan_from fw cfg ms pos gs
      else bindE (mapE (plan_message fw cfg (keep_tokens_for cfg pos)) (members_of g (enumerate 0 ms))) (\<lambda>xs.
           bindE (plan_from fw cfg ms (Suc pos) gs) (\<lambda>ys. Inr (concat xs @ ys))))"

definition plan_shortenings :: "'a framework \<Rightarrow> anchored_config \<Rightarrow> 'a message list \<Rightarrow> span list \<Rightarrow> unit + shortening list" where
  "plan_shortenings fw cfg ms band = plan_from fw cfg ms 0 band"

definition apply_one :: "shortening \<Rightarrow> 'a message list \<Rightarrow> 'a message list" where
  "apply_one s ms = (case sh_at s of (i, j) \<Rightarrow>
     ms[i := (ms ! i)\<lparr>ms_contents := (ms_contents (ms ! i))[j := (ms_contents (ms ! i) ! j)\<lparr>ct_result := Str_result (sh_text s), ct_items := sh_items s\<rparr>]\<rparr>])"

definition apply_shortenings :: "shortening list \<Rightarrow> 'a message list \<Rightarrow> bool \<times> 'a message list" where
  "apply_shortenings plan ms = (plan \<noteq> [], foldl (\<lambda>ms s. apply_one s ms) ms plan)"

definition collapse_tool_results ::
  "'a framework \<Rightarrow> anchored_config \<Rightarrow> span list \<Rightarrow> int \<Rightarrow> 'a message list \<Rightarrow> unit + (bool \<times> 'a message list)" where
  "collapse_tool_results fw cfg band ceil ms =
     bindE (plan_shortenings fw cfg ms band) (\<lambda>plan. Inr (apply_shortenings plan ms))"

text \<open>
  The minimum-gain variant: \<open>floor_of behind\<close> is the break-even, the number returned counts a collapse
  it declined.
\<close>

definition collapse_with_gain ::
  "(int \<Rightarrow> int) \<Rightarrow> 'a framework \<Rightarrow> anchored_config \<Rightarrow> span list \<Rightarrow> int \<Rightarrow> 'a message list \<Rightarrow> unit + ((bool \<times> 'a message list) \<times> nat)" where
  "collapse_with_gain floor_of fw cfg band ceil ms =
     bindE (plan_shortenings fw cfg ms band) (\<lambda>plan.
       Inr (if plan = [] then ((False, ms), 0)
            else if fw_included fw ms > ceil then (apply_shortenings plan ms, 0)
            else let behind = fw_included fw (drop (Min (set (map (\<lambda>s. fst (sh_at s)) plan))) ms)
                 in if sum_list (map sh_saved plan) < floor_of behind then ((False, ms), 1)
                    else (apply_shortenings plan ms, 0)))"

subsection \<open>Shedding groups\<close>

definition exclude_span :: "span \<Rightarrow> 'a message list \<Rightarrow> 'a message list" where
  "exclude_span g ms = map (\<lambda>(i, m). if sp_start g \<le> i \<and> i \<le> sp_end g then m\<lparr>ms_excluded := True\<rparr> else m) (enumerate 0 ms)"

text \<open>\<open>_note_for\<close>; \<open>blank\<close> is \<open>not text.strip()\<close>, over the blanks of the model's strings.\<close>

definition blank :: "string \<Rightarrow> bool" where
  "blank t \<longleftrightarrow> list_all (\<lambda>c. c \<in> {CHR '' '', CHR 0x09, CHR 0x0A, CHR 0x0B, CHR 0x0C, CHR 0x0D, CHR 0x1C, CHR 0x1D, CHR 0x1E, CHR 0x1F,
      CHR 0x85, CHR 0xA0}) t"

definition note_for :: "'a framework \<Rightarrow> 'a message list \<Rightarrow> span \<Rightarrow> string" where
  "note_for fw ms g =
     (if sp_kind g \<noteq> ''assistant_text'' then tool_note
      else if \<not> list_ex (\<lambda>m. \<not> blank (fw_text fw (ms_contents m)) \<and> \<not> is_marker fw m) (members_of g ms)
         \<or> \<not> list_ex (\<lambda>m. ms_role m = ''user'') (take (sp_start g) ms) then reply_note
      else (case find (\<lambda>m. ms_role m \<notin> {''system'', ''developer''} \<and> \<not> is_marker fw m \<and> \<not> ms_recall m) (drop (Suc (sp_end g)) ms) of
              None \<Rightarrow> answered_note
            | Some m \<Rightarrow> if ms_role m = ''user'' then answered_note else reply_note))"

text \<open>The first free id; the fuel is more than the ids taken.\<close>

definition suffixed :: "string \<Rightarrow> nat \<Rightarrow> string" where
  "suffixed base n = (if n = 0 then base else base @ CHR ''_'' # decimal n)"

fun free_id :: "nat \<Rightarrow> string list \<Rightarrow> string \<Rightarrow> nat \<Rightarrow> string" where
  "free_id 0 taken base n = suffixed base n"
| "free_id (Suc k) taken base n = (if suffixed base n \<in> set taken then free_id k taken base (Suc n) else suffixed base n)"

definition stands_for :: "'a framework \<Rightarrow> string \<Rightarrow> 'a message \<Rightarrow> bool" where
  "stands_for fw grp m \<longleftrightarrow> is_marker fw m \<and> (case ms_links m of None \<Rightarrow> False | Some (_, groups) \<Rightarrow> grp \<in> set groups)"

definition note_message :: "'a framework \<Rightarrow> 'a message list \<Rightarrow> span \<Rightarrow> string \<Rightarrow> 'a message" where
  "note_message fw ms g note =
     \<lparr>ms_role = ''assistant'',
      ms_contents = [\<lparr>ct_type = ''text'', ct_text = note, ct_call_id = [], ct_id = [], ct_result = Str_result [], ct_items = []\<rparr>],
      ms_id = free_id (Suc (length ms)) (filter (\<lambda>i. i \<noteq> []) (map ms_id ms)) (marker_id_prefix @ sp_group g) 0,
      ms_links = Some (filter (\<lambda>i. i \<noteq> []) (map ms_id (members_of g ms)), [sp_group g]),
      ms_excluded = False, ms_preserved = False, ms_recall = False, ms_loaded = False, ms_annotation = fw_blank fw\<rparr>"

definition insert_note :: "'a framework \<Rightarrow> span \<Rightarrow> string \<Rightarrow> 'a message list \<Rightarrow> 'a message list" where
  "insert_note fw g note ms =
     (if list_ex (stands_for fw (sp_group g)) ms then ms
      else take (sp_start g) ms @ [note_message fw ms g note] @ drop (sp_start g) ms)"

text \<open>A short textual reply that ends a user turn is worth less than its note.\<close>

definition short_reply :: "'a framework \<Rightarrow> 'a message list \<Rightarrow> span \<Rightarrow> bool" where
  "short_reply fw ms g \<longleftrightarrow> note_for fw ms g = answered_note
     \<and> list_all (\<lambda>m. list_all (\<lambda>c. ct_type c = ''text'') (ms_contents m)) (members_of g ms)
     \<and> sum_list (map (\<lambda>m. fw_tokens fw (fw_text fw (ms_contents m))) (members_of g ms)) \<le> short_reply_tokens"

definition sheds :: "'a framework \<Rightarrow> (nat \<times> nat) list \<Rightarrow> 'a message list \<Rightarrow> span \<Rightarrow> bool" where
  "sheds fw removable ms g \<longleftrightarrow>
     \<not> list_all ms_excluded (members_of g ms) \<and> \<not> list_all (is_marker fw) (members_of g ms) \<and> \<not> short_reply fw ms g
     \<and> \<not> any_preserved (members_of g ms) \<and> (sp_start g, sp_end g) \<in> set removable"

text \<open>The loop of \<open>_shed\<close> over the band: the groups dropped, and the messages with their flags.\<close>

fun shed_band ::
  "'a framework \<Rightarrow> string \<Rightarrow> int \<Rightarrow> (nat \<times> nat) list \<Rightarrow> span list \<Rightarrow> 'a message list \<Rightarrow> span list \<times> 'a message list" where
  "shed_band fw kind ceil removable [] ms = ([], ms)"
| "shed_band fw kind ceil removable (g # gs) ms =
     (if sp_kind g \<noteq> kind then shed_band fw kind ceil removable gs ms
      else if fw_included fw ms \<le> ceil then ([], ms)
      else if \<not> sheds fw removable ms g then shed_band fw kind ceil removable gs ms
      else (case shed_band fw kind ceil removable gs (exclude_span g ms) of (ds, ms') \<Rightarrow> (g # ds, ms')))"

definition insert_notes :: "'a framework \<Rightarrow> span list \<Rightarrow> 'a message list \<Rightarrow> 'a message list" where
  "insert_notes fw dropped ms = foldl (\<lambda>ms g. insert_note fw g (note_for fw ms g) ms) ms (rev dropped)"

definition shed :: "'a framework \<Rightarrow> anchored_config \<Rightarrow> string \<Rightarrow> int \<Rightarrow> 'a message list \<Rightarrow> bool \<times> 'a message list" where
  "shed fw cfg kind ceil ms =
     (let spans = fw_groups fw ms
      in (case shed_band fw kind ceil (removable_spans ms spans) (middle_band fw cfg ms spans) ms of
            (dropped, ms') \<Rightarrow>
              (dropped \<noteq> [],
               if dropped = [] then ms' else fw_annotate_tokens fw False (insert_notes fw dropped ms'))))"

text \<open>One round of the loop of \<open>shed_to\<close>: tool groups, then replies where that is allowed.\<close>

definition shed_round :: "'a framework \<Rightarrow> anchored_config \<Rightarrow> int \<Rightarrow> 'a message list \<Rightarrow> bool \<times> 'a message list" where
  "shed_round fw cfg ceil ms =
     (case shed fw cfg ''tool_call'' ceil ms of (s, ms1) \<Rightarrow>
        if ac_collapse_text cfg \<and> fw_included fw ms1 > ceil
        then (case shed fw cfg ''assistant_text'' ceil ms1 of (s', ms2) \<Rightarrow> (s' \<or> s, ms2))
        else (s, ms1))"

partial_function (option) shed_loop ::
  "'a framework \<Rightarrow> anchored_config \<Rightarrow> int \<Rightarrow> bool \<Rightarrow> 'a message list \<Rightarrow> (bool \<times> 'a message list) option" where
  "shed_loop fw cfg ceil changed ms =
     (if fw_included fw ms \<le> ceil then Some (changed, ms)
      else (case shed_round fw cfg ceil ms of (s, ms') \<Rightarrow>
              if s then shed_loop fw cfg ceil True ms' else Some (changed, ms')))"

declare shed_loop.simps [code]

definition shed_to :: "'a framework \<Rightarrow> anchored_config \<Rightarrow> int \<Rightarrow> 'a message list \<Rightarrow> (bool \<times> 'a message list) option" where
  "shed_to fw cfg ceil ms = shed_loop fw cfg ceil False (fw_annotate_tokens fw False (fw_annotate_groups fw ms))"

text \<open>\<open>shed_again\<close>: the groups an earlier pass shed, by the ids of their messages.\<close>

definition sheds_again :: "string set \<Rightarrow> (nat \<times> nat) list \<Rightarrow> 'a message list \<Rightarrow> span \<Rightarrow> bool" where
  "sheds_again ids removable ms g \<longleftrightarrow>
     sp_kind g \<in> {''tool_call'', ''assistant_text''}
     \<and> list_all (\<lambda>m. ms_id m \<noteq> [] \<and> ms_id m \<in> ids) (members_of g ms)
     \<and> \<not> list_all ms_excluded (members_of g ms) \<and> \<not> any_preserved (members_of g ms) \<and> (sp_start g, sp_end g) \<in> set removable"

fun shed_all :: "('a message list \<Rightarrow> span \<Rightarrow> bool) \<Rightarrow> span list \<Rightarrow> 'a message list \<Rightarrow> span list \<times> 'a message list" where
  "shed_all wanted [] ms = ([], ms)"
| "shed_all wanted (g # gs) ms =
     (if wanted ms g then (case shed_all wanted gs (exclude_span g ms) of (ds, ms') \<Rightarrow> (g # ds, ms'))
      else shed_all wanted gs ms)"

definition shed_again :: "'a framework \<Rightarrow> string set \<Rightarrow> 'a message list \<Rightarrow> bool \<times> 'a message list" where
  "shed_again fw ids ms0 =
     (if ids = {} then (False, ms0)
      else let ms = fw_annotate_groups fw ms0; spans = fw_groups fw ms
           in (case shed_all (sheds_again ids (removable_spans ms spans)) spans ms of
                 (dropped, ms') \<Rightarrow>
                   if dropped = [] then (False, ms')
                   else (True, fw_annotate_tokens fw False (fw_annotate_groups fw (insert_notes fw dropped ms')))))"

subsection \<open>A pass\<close>

text \<open>
  \<open>compact_to\<close>, with the collapse of the class as an argument; \<open>Inl\<close> is the error of a host's hook,
  which leaves the messages as they are then.
\<close>

definition compact_to ::
  "('a framework \<Rightarrow> anchored_config \<Rightarrow> span list \<Rightarrow> int \<Rightarrow> 'a message list \<Rightarrow> unit + (bool \<times> 'a message list)) \<Rightarrow>
   'a framework \<Rightarrow> anchored_config \<Rightarrow> int \<Rightarrow> 'a message list \<Rightarrow> ((unit + bool) \<times> 'a message list) option" where
  "compact_to collapse fw cfg ceil ms0 =
     (if ms0 = [] then Some (Inr False, ms0)
      else (case repair_compacted_items is_shortened ms0 of (repaired, ms1) \<Rightarrow>
        let ms = fw_annotate_tokens fw repaired (fw_annotate_groups fw ms1);
            band = middle_band fw cfg ms (fw_groups fw ms)
        in if band = [] then Some (Inr repaired, ms)
           else (case collapse fw cfg band ceil ms of
                   Inl e \<Rightarrow> Some (Inl e, ms)
                 | Inr (collapsed, ms2) \<Rightarrow>
                     (let changed = (collapsed \<or> repaired);
                          ms3 = (if changed then fw_annotate_tokens fw True ms2 else ms2)
                      in map_option (\<lambda>(s, ms4). (Inr (s \<or> changed), ms4)) (shed_to fw cfg ceil ms3)))))"

end
