(* ===== verification/Anchored_Properties.thy ===== *)
theory Anchored_Properties
  imports Anchored
begin

text \<open>
  The properties of the anchored strategy: what a cut leaves, which groups the band holds, what
  shedding may exclude, and that it ends.
\<close>

subsection \<open>Cuts\<close>

text \<open>An offset from one end whose piece is within the budget.\<close>

definition offset_ok :: "(string \<Rightarrow> int) \<Rightarrow> string \<Rightarrow> int \<Rightarrow> bool \<Rightarrow> int \<Rightarrow> bool" where
  "offset_ok count t tokens from_end n \<longleftrightarrow>
     0 \<le> n \<and> n \<le> int (length t) \<and> (n = 0 \<or> count (end_piece from_end t n) \<le> tokens)"

lemma fit_loop_ok:
  "offset_ok count t tokens from_end best \<Longrightarrow> chars \<le> int (length t) \<Longrightarrow>
     offset_ok count t tokens from_end (fit_loop count scale t tokens from_end k chars best)"
proof (induction k arbitrary: chars best)
  case (Suc k)
  let ?better = "if count (end_piece from_end t chars) \<le> tokens then max best chars else best"
  have better: "offset_ok count t tokens from_end ?better"
    using Suc.prems by (cases "best \<le> chars") (auto simp: offset_ok_def max_def)
  have next_pass: "offset_ok count t tokens from_end (fit_loop count scale t tokens from_end k (min x (int (length t))) ?better)" for x
    using Suc.IH [OF better] by simp
  show ?case
    using better next_pass Suc.prems(1)
    by (cases "chars \<le> 0"; cases "count (end_piece from_end t chars) \<le> tokens") (simp_all add: Let_def)
qed simp

lemma fit_ok: "offset_ok count t tokens from_end (fit count scale t tokens from_end)"
  unfolding fit_def by (rule fit_loop_ok) (simp_all add: offset_ok_def)

lemma is_shortened_append: "is_shortened s \<Longrightarrow> is_shortened (x @ s)"
proof (induction x)
  case (Cons a x)
  then show ?case by (cases "x @ s") simp_all
qed simp

lemma is_shortened_cut_here: "cut_here s \<Longrightarrow> is_shortened s"
  by (cases s) simp_all

lemma cut_here_text:
  assumes "ds \<noteq> []" and "list_all number_char ds"
  shows "cut_here (cut_open @ ds @ cut_close @ rest)"
proof -
  have "cut_close = CHR '' '' # tl cut_close" "\<not> number_char (CHR '' '')" by (simp_all add: cut_close_def number_char_def)
  then have "takeWhile number_char (cut_close @ rest) = []" "dropWhile number_char (cut_close @ rest) = cut_close @ rest"
    by (metis append_Cons takeWhile.simps(2), metis append_Cons dropWhile.simps(2))
  moreover have "\<And>c. c \<in> set ds \<Longrightarrow> number_char c" using assms(2) by (simp add: list_all_iff)
  ultimately have "takeWhile number_char (ds @ cut_close @ rest) = ds" "dropWhile number_char (ds @ cut_close @ rest) = cut_close @ rest"
    by (simp_all add: takeWhile_append2 dropWhile_append2)
  then show ?thesis using assms(1) by (simp add: cut_here_def Let_def)
qed

lemma number_digit: "d < 10 \<Longrightarrow> number_char (digit_of d)"
  by (simp add: number_char_def digit_of_def)

lemma decimal_chars: "list_all number_char (decimal n) \<and> decimal n \<noteq> []"
proof (induction n rule: decimal.induct)
  case (1 n)
  then show ?case by (subst (1 2) decimal.simps) (auto simp: number_digit)
qed

lemma with_commas_chars: "list_all number_char ds \<Longrightarrow> list_all number_char (with_commas ds)"
  by (induction ds rule: with_commas.induct) (simp_all add: number_char_def)

lemma with_commas_nonempty: "with_commas ds = [] \<longleftrightarrow> ds = []"
  by (cases ds rule: with_commas.cases) simp_all

lemma comma_decimal_chars: "0 \<le> n \<Longrightarrow> list_all number_char (comma_decimal n) \<and> comma_decimal n \<noteq> []"
  using decimal_chars [of "nat n"] with_commas_chars [of "rev (decimal (nat n))"]
  by (simp add: comma_decimal_def with_commas_nonempty)

lemma cut_text_shortened: "head + tail \<le> int (length t) \<Longrightarrow> is_shortened (cut_text t head tail)"
  unfolding cut_text_def
  by (intro is_shortened_append is_shortened_cut_here cut_here_text) (use comma_decimal_chars [of "int (length t) - head - tail"] in simp_all)

text \<open>
  A result is cut once.  The text a cut leaves is counted smaller, its two ends are ends of
  the original and each fits its half of the budget, and, the ends not overlapping, no later pass
  touches it again under any budget.
\<close>

theorem cut_once:
  assumes "shorten count scale t budget \<noteq> t"
    and "fit count scale t (budget div 2) False + fit count scale t (budget - budget div 2) True \<le> int (length t)"
  shows "shorten count scale (shorten count scale t budget) later = shorten count scale t budget
    \<and> count (shorten count scale t budget) < count t
    \<and> (\<exists>head tail middle. shorten count scale t budget = head @ middle @ tail \<and> prefix head t \<and> suffix tail t
        \<and> (head = [] \<or> count head \<le> budget div 2) \<and> (tail = [] \<or> count tail \<le> budget - budget div 2))"
proof -
  define h where "h = fit count scale t (budget div 2) False"
  define q where "q = fit count scale t (budget - budget div 2) True"
  have s: "shorten count scale t budget = cut_text t h q" and less: "count (cut_text t h q) < count t"
    using assms(1) by (auto simp: shorten_def Let_def h_def q_def split: if_splits)
  have cut: "is_shortened (cut_text t h q)" using assms(2) by (intro cut_text_shortened) (simp add: h_def q_def)
  have head: "end_piece False t h = [] \<or> count (end_piece False t h) \<le> budget div 2"
    using fit_ok [of count t "budget div 2" False scale] by (auto simp: h_def end_piece_def offset_ok_def)
  have tail: "end_piece True t q = [] \<or> count (end_piece True t q) \<le> budget - budget div 2"
    using fit_ok [of count t "budget - budget div 2" True scale] by (auto simp: q_def end_piece_def offset_ok_def)
  have "prefix (end_piece False t h) t" "suffix (end_piece True t q) t"
    by (simp_all add: end_piece_def take_is_prefix suffix_drop)
  then show ?thesis
    using cut less head tail unfolding s
    by (intro conjI exI [of _ "end_piece False t h"] exI [of _ "end_piece True t q"]
         exI [of _ "cut_open @ comma_decimal (int (length t) - h - q) @ cut_close"])
       (auto simp: shorten_def cut_text_def)
qed

definition long_result :: string where "long_result = replicate 60 CHR ''x''"

definition by_length :: "string \<Rightarrow> int" where "by_length t = int (length t)"

definition rescale :: "int \<Rightarrow> int \<Rightarrow> int \<Rightarrow> int" where "rescale a b c = a * b div c"

lemma long_result_cut:
  "shorten by_length rescale long_result 4 = ''xx'' @ cut_open @ ''56'' @ cut_close @ ''xx''"
proof -
  have fits: "fit by_length rescale long_result 2 False = 2" "fit by_length rescale long_result 2 True = 2"
    by (simp_all add: fit_def fit_passes_def numeral_eq_Suc by_length_def rescale_def long_result_def end_piece_def Let_def)
  have "comma_decimal 56 = ''56''" by code_simp
  moreover have "\<not> is_shortened long_result"
    by (simp add: long_result_def cut_here_def cut_open_def numeral_eq_Suc)
  ultimately show ?thesis using fits
    by (simp add: shorten_def cut_text_def Let_def by_length_def long_result_def end_piece_def cut_open_def cut_close_def
        removal_marker_def replicate_app_Cons_same numeral_2_eq_2)
qed

theorem cut_once_witness:
  "shorten by_length rescale (''xx'' @ cut_open @ ''56'' @ cut_close @ ''xx'') 1 = ''xx'' @ cut_open @ ''56'' @ cut_close @ ''xx''"
proof -
  have fits: "fit by_length rescale long_result (4 div 2) False = 2" "fit by_length rescale long_result (4 - 4 div 2) True = 2"
    by (simp_all add: fit_def fit_passes_def numeral_eq_Suc by_length_def rescale_def long_result_def end_piece_def Let_def)
  have "length long_result = 60" by (simp add: long_result_def)
  moreover have "shorten by_length rescale long_result 4 \<noteq> long_result"
    unfolding long_result_cut by (simp add: long_result_def cut_open_def numeral_eq_Suc)
  ultimately show ?thesis using cut_once [of by_length rescale long_result 4 1] fits by (simp add: long_result_cut)
qed

end
