(* ===== verification/Shedding_Properties.thy ===== *)
theory Shedding_Properties
  imports Anchored
begin

text \<open>
  What shedding may exclude, and that it ends, over any framework that keeps its documented
  behaviour (\<open>framework_ok\<close>).
\<close>

subsection \<open>The framework's contract\<close>

text \<open>Annotation leaves a message as it is; it may give an id to one that has none.\<close>

definition same_message :: "'a message \<Rightarrow> 'a message \<Rightarrow> bool" where
  "same_message m m' \<longleftrightarrow> ms_role m' = ms_role m \<and> ms_contents m' = ms_contents m \<and> ms_links m' = ms_links m
     \<and> ms_excluded m' = ms_excluded m \<and> ms_preserved m' = ms_preserved m \<and> ms_recall m' = ms_recall m \<and> ms_loaded m' = ms_loaded m
     \<and> (ms_id m' = ms_id m \<or> ms_id m = [] \<and> ms_id m' \<noteq> [] \<and> \<not> prefix marker_id_prefix (ms_id m'))"

definition spans_at :: "span \<Rightarrow> nat \<Rightarrow> bool" where
  "spans_at g i \<longleftrightarrow> sp_start g \<le> i \<and> i \<le> sp_end g"

text \<open>
  The spans of a grouping lie in the conversation, one after the other; a tool-call group and an
  assistant's reply hold no user message, and a reply of plain text is a group of its own.
\<close>

definition groups_ok :: "'a framework \<Rightarrow> 'a message list \<Rightarrow> bool" where
  "groups_ok fw ms \<longleftrightarrow>
     (\<forall>g \<in> set (fw_groups fw ms). sp_start g \<le> sp_end g \<and> sp_end g < length ms \<and> sp_group g \<noteq> [])
     \<and> sorted_wrt (\<lambda>g h. sp_end g < sp_start h) (fw_groups fw ms)
     \<and> (\<forall>g \<in> set (fw_groups fw ms). \<forall>i < length ms. spans_at g i \<longrightarrow>
          (sp_kind g \<in> {''tool_call'', ''assistant_text''} \<longrightarrow> ms_role (ms ! i) \<noteq> ''user'')
          \<and> (is_marker fw (ms ! i) \<longrightarrow> sp_start g = sp_end g))"

definition framework_ok :: "'a framework \<Rightarrow> bool" where
  "framework_ok fw \<longleftrightarrow>
     (\<forall>ms. list_all2 same_message ms (fw_annotate_groups fw ms) \<and> list_all (\<lambda>m. ms_id m \<noteq> []) (fw_annotate_groups fw ms))
     \<and> (\<forall>force ms. list_all2 same_message ms (fw_annotate_tokens fw force ms))
     \<and> (\<forall>ms. groups_ok fw ms)
     \<and> (\<forall>c. ct_type c = ''text'' \<longrightarrow> fw_text fw [c] = ct_text c)"

subsection \<open>What a pass keeps of a message\<close>

definition kept_message :: "'a message \<Rightarrow> 'a message \<Rightarrow> bool" where
  "kept_message m m' \<longleftrightarrow> ms_role m' = ms_role m \<and> ms_contents m' = ms_contents m \<and> ms_links m' = ms_links m
     \<and> ms_preserved m' = ms_preserved m \<and> ms_recall m' = ms_recall m \<and> ms_loaded m' = ms_loaded m
     \<and> (ms_id m' = ms_id m \<or> ms_id m = [] \<and> ms_id m' \<noteq> [] \<and> \<not> prefix marker_id_prefix (ms_id m'))
     \<and> (ms_excluded m \<longrightarrow> ms_excluded m')
     \<and> (ms_preserved m \<or> ms_role m = ''user'' \<longrightarrow> ms_excluded m' = ms_excluded m)"

lemma kept_refl [simp]: "kept_message m m"
  by (simp add: kept_message_def)

lemma kept_trans:
  assumes "kept_message m m'" and "kept_message m' m''"
  shows "kept_message m m''"
proof -
  have "ms_id m'' = ms_id m \<or> ms_id m = [] \<and> ms_id m'' \<noteq> [] \<and> \<not> prefix marker_id_prefix (ms_id m'')"
    using assms unfolding kept_message_def by metis
  with assms show ?thesis unfolding kept_message_def by simp
qed

lemma same_kept: "same_message m m' \<Longrightarrow> kept_message m m'"
  by (auto simp: same_message_def kept_message_def)

lemma kept_marker:
  assumes "kept_message m m'"
  shows "is_marker fw m' \<longleftrightarrow> is_marker fw m"
proof -
  have "ms_id m' \<noteq> [] \<and> prefix marker_id_prefix (ms_id m') \<longleftrightarrow> ms_id m \<noteq> [] \<and> prefix marker_id_prefix (ms_id m)"
    using assms unfolding kept_message_def by metis
  moreover have "has_summary_links m' = has_summary_links m" using assms by (simp add: kept_message_def has_summary_links_def)
  ultimately show ?thesis using assms unfolding is_marker_def kept_message_def by metis
qed

lemma all_kept_refl [simp]: "list_all2 kept_message ms ms"
  by (simp add: list_all2_refl)

lemma all_kept_trans: "list_all2 kept_message xs ys \<Longrightarrow> list_all2 kept_message ys zs \<Longrightarrow> list_all2 kept_message xs zs"
  by (rule list_all2_trans [where ?P1.0 = kept_message and ?P2.0 = kept_message]) (auto intro: kept_trans)

text \<open>The conversation without the notes of this strategy.\<close>

definition unmarked :: "'a framework \<Rightarrow> 'a message list \<Rightarrow> 'a message list" where
  "unmarked fw ms = filter (\<lambda>m. \<not> is_marker fw m) ms"

lemma kept_unmarked: "list_all2 kept_message ms ms' \<Longrightarrow> list_all2 kept_message (unmarked fw ms) (unmarked fw ms')"
  unfolding unmarked_def by (induction rule: list_all2_induct) (auto simp: kept_marker)

definition identified :: "'a message list \<Rightarrow> bool" where
  "identified ms \<longleftrightarrow> list_all (\<lambda>m. ms_id m \<noteq> []) ms"

lemma kept_identified: "list_all2 kept_message ms ms' \<Longrightarrow> identified ms \<Longrightarrow> identified ms'"
  unfolding identified_def by (induction rule: list_all2_induct) (auto simp: kept_message_def)

text \<open>The messages that may still be shed: sent, and not a note.\<close>

definition live :: "'a framework \<Rightarrow> 'a message list \<Rightarrow> nat" where
  "live fw ms = length (filter (\<lambda>m. \<not> ms_excluded m) (unmarked fw ms))"

lemma live_simps [simp]:
  "live fw [] = 0"
  "live fw (m # ms) = (if ms_excluded m \<or> is_marker fw m then live fw ms else Suc (live fw ms))"
  "live fw (xs @ ys) = live fw xs + live fw ys"
  by (simp_all add: live_def unmarked_def)

lemma kept_live: "list_all2 kept_message ms ms' \<Longrightarrow> live fw ms' \<le> live fw ms"
proof (induction rule: list_all2_induct)
  case (Cons x xs y ys)
  then have "ms_excluded x \<longrightarrow> ms_excluded y" "is_marker fw y = is_marker fw x" by (simp_all add: kept_message_def kept_marker)
  with Cons.IH show ?case by simp
qed simp

lemma kept_live_less:
  assumes "list_all2 kept_message ms ms'" and "i < length ms"
    and "\<not> is_marker fw (ms ! i)" "\<not> ms_excluded (ms ! i)" "ms_excluded (ms' ! i)"
  shows "live fw ms' < live fw ms"
  using assms
proof (induction ms ms' arbitrary: i rule: list_all2_induct)
  case (Cons x xs y ys)
  have le: "live fw ys \<le> live fw xs" using Cons.hyps(2) by (rule kept_live)
  have xy: "ms_excluded x \<longrightarrow> ms_excluded y" "is_marker fw y = is_marker fw x"
    using Cons.hyps(1) by (simp_all add: kept_message_def kept_marker)
  show ?case
  proof (cases i)
    case 0
    then show ?thesis using Cons.prems le by simp
  next
    case (Suc j)
    then have "live fw ys < live fw xs" using Cons.prems by (intro Cons.IH [of j]) simp_all
    then show ?thesis using xy by simp
  qed
qed simp

subsection \<open>Excluding a span\<close>

lemma exclude_span_length [simp]: "length (exclude_span g ms) = length ms"
  by (simp add: exclude_span_def)

lemma exclude_span_nth:
  "i < length ms \<Longrightarrow> exclude_span g ms ! i = (if spans_at g i then (ms ! i)\<lparr>ms_excluded := True\<rparr> else ms ! i)"
  by (simp add: exclude_span_def nth_enumerate_eq spans_at_def)

lemma members_of_nth:
  "spans_at g i \<Longrightarrow> i < length ms \<Longrightarrow> ms ! i \<in> set (members_of g ms)"
  unfolding members_of_def spans_at_def in_set_conv_nth
  by (intro exI [of _ "i - sp_start g"]) auto

lemma members_of_conv:
  assumes "m \<in> set (members_of g ms)"
  obtains i where "i < length ms" "spans_at g i" "m = ms ! i"
proof -
  from assms obtain k where k: "k < length (members_of g ms)" "m = members_of g ms ! k" by (auto simp: in_set_conv_nth)
  then have "m = ms ! (sp_start g + k)" "sp_start g + k < length ms" "sp_start g + k \<le> sp_end g"
    by (auto simp: members_of_def)
  then show thesis by (intro that [of "sp_start g + k"]) (auto simp: spans_at_def)
qed

lemma exclude_span_kept:
  assumes "\<And>i. i < length ms \<Longrightarrow> spans_at g i \<Longrightarrow> \<not> ms_preserved (ms ! i) \<and> ms_role (ms ! i) \<noteq> ''user''"
  shows "list_all2 kept_message ms (exclude_span g ms)"
  using assms by (auto simp: list_all2_conv_all_nth exclude_span_nth kept_message_def)

subsection \<open>The loop over the band\<close>

text \<open>
  The groups dropped are groups of the band that \<open>sheds\<close> picked, each off messages that differ from
  the first ones in flags only; the flags are those of the groups dropped.
\<close>

lemma subseq_set: "subseq xs ys \<Longrightarrow> set xs \<subseteq> set ys"
  by (induction rule: list_emb.induct) auto

lemma shed_band_Cons:
  assumes "shed_band fw kind ceil removable (g # gs) ms = (ds, ms')"
  obtains "shed_band fw kind ceil removable gs ms = (ds, ms')" | "ds = []" "ms' = ms"
  | ds' where "shed_band fw kind ceil removable gs (exclude_span g ms) = (ds', ms')" "ds = g # ds'"
      "sheds fw removable ms g" "sp_kind g = kind"
proof -
  obtain ds' ms1 where rest: "shed_band fw kind ceil removable gs (exclude_span g ms) = (ds', ms1)" by fastforce
  show thesis
  proof (cases "sp_kind g = kind \<and> \<not> fw_included fw ms \<le> ceil \<and> sheds fw removable ms g")
    case True
    then show thesis using assms rest that(3) by simp
  next
    case False
    then show thesis using assms that(1,2) by (cases "sp_kind g = kind"; cases "fw_included fw ms \<le> ceil"; simp)
  qed
qed

lemma shed_band_flags:
  assumes "shed_band fw kind ceil removable gs ms = (ds, ms')"
  shows "length ms' = length ms \<and> subseq ds gs
    \<and> (\<forall>i < length ms. ms' ! i = (if \<exists>g \<in> set ds. spans_at g i then (ms ! i)\<lparr>ms_excluded := True\<rparr> else ms ! i))"
  using assms
proof (induction gs arbitrary: ms ds ms')
  case (Cons g gs)
  consider (skip) "shed_band fw kind ceil removable gs ms = (ds, ms')"
    | (stop) "ds = []" "ms' = ms"
    | (drop) ds' where "shed_band fw kind ceil removable gs (exclude_span g ms) = (ds', ms')" "ds = g # ds'"
        "sheds fw removable ms g" "sp_kind g = kind"
    using Cons.prems by (rule shed_band_Cons)
  then show ?case
  proof cases
    case skip
    then show ?thesis using Cons.IH [OF skip] by auto
  next
    case drop
    from Cons.IH [OF drop(1)] drop(2) show ?thesis by (auto simp: exclude_span_nth)
  qed simp
qed simp

lemma shed_band_removable:
  assumes "shed_band fw kind ceil removable gs ms = (ds, ms')" and "g \<in> set ds"
  shows "(sp_start g, sp_end g) \<in> set removable"
  using assms
proof (induction gs arbitrary: ms ds ms')
  case (Cons h gs)
  from Cons.prems(1) show ?case
    by (rule shed_band_Cons) (use Cons.IH Cons.prems(2) in \<open>auto simp: sheds_def\<close>)
qed simp

lemma sheds_unprotected:
  "sheds fw removable ms g \<Longrightarrow> i < length ms \<Longrightarrow> spans_at g i \<Longrightarrow> \<not> ms_preserved (ms ! i)"
  using members_of_nth [of g i ms] by (auto simp: sheds_def any_preserved_def list_ex_iff)

lemma shed_band_kept:
  assumes "groups_ok fw ms0" and "list_all2 kept_message ms0 ms" and "set gs \<subseteq> set (fw_groups fw ms0)"
    and "kind \<in> {''tool_call'', ''assistant_text''}" and "shed_band fw kind ceil removable gs ms = (ds, ms')"
  shows "list_all2 kept_message ms ms' \<and> (ds \<noteq> [] \<longrightarrow> live fw ms' < live fw ms)"
  using assms(2,3,5)
proof (induction gs arbitrary: ms ds ms')
  case (Cons g gs)
  consider (skip) "shed_band fw kind ceil removable gs ms = (ds, ms')"
    | (stop) "ds = []" "ms' = ms"
    | (drop) ds' where "shed_band fw kind ceil removable gs (exclude_span g ms) = (ds', ms')" "ds = g # ds'"
        "sheds fw removable ms g" "sp_kind g = kind"
    using Cons.prems(3) by (rule shed_band_Cons)
  then show ?case
  proof cases
    case skip
    then show ?thesis using Cons.IH Cons.prems by simp
  next
    case drop
    have g: "g \<in> set (fw_groups fw ms0)" using Cons.prems(2) by simp
    have len: "length ms0 = length ms" using Cons.prems(1) by (rule list_all2_lengthD)
    have each: "kept_message (ms0 ! i) (ms ! i)" if "i < length ms" for i
      using Cons.prems(1) that len by (simp add: list_all2_conv_all_nth)
    have users: "ms_role (ms ! i) \<noteq> ''user''" if i: "i < length ms" "spans_at g i" for i
    proof -
      have "ms_role (ms0 ! i) \<noteq> ''user''" using assms(1,4) g drop(4) i len unfolding groups_ok_def by metis
      then show ?thesis using each [OF i(1)] by (simp add: kept_message_def)
    qed
    have kept: "list_all2 kept_message ms (exclude_span g ms)"
      using exclude_span_kept sheds_unprotected [OF drop(3)] users by blast
    from drop(3) obtain i where i: "i < length ms" "spans_at g i" "\<not> ms_excluded (ms ! i)"
      unfolding sheds_def list_all_iff by (metis members_of_conv)
    have "\<not> is_marker fw (ms ! i)"
    proof
      assume m: "is_marker fw (ms ! i)"
      then have "is_marker fw (ms0 ! i)" using kept_marker [OF each [OF i(1)]] by blast
      then have single: "sp_start g = sp_end g" using assms(1) g i len unfolding groups_ok_def by metis
      have "is_marker fw x" if "x \<in> set (members_of g ms)" for x
      proof -
        from that obtain j where "spans_at g j" "x = ms ! j" by (rule members_of_conv)
        with single i(2) m show ?thesis by (auto simp: spans_at_def)
      qed
      then show False using drop(3) by (simp add: sheds_def list_all_iff)
    qed
    then have less: "live fw (exclude_span g ms) < live fw ms"
      using kept_live_less [OF kept i(1)] i by (simp add: exclude_span_nth)
    have "list_all2 kept_message (exclude_span g ms) ms'"
      using Cons.IH [OF all_kept_trans [OF Cons.prems(1) kept] _ drop(1)] Cons.prems(2) by simp
    then show ?thesis using all_kept_trans [OF kept] kept_live [of "exclude_span g ms" ms' fw] less by force
  qed simp
qed simp

subsection \<open>Notes\<close>

text \<open>A note, put where the group was, is recognised again, and nothing else moves.\<close>

lemma note_is_marker:
  assumes "framework_ok fw" and "identified ms" and "sp_start g \<le> sp_end g" "sp_start g < length ms" "sp_group g \<noteq> []"
    and "note \<in> {tool_note, reply_note, answered_note}"
  shows "is_marker fw (note_message fw ms g note) \<and> ms_id (note_message fw ms g note) \<noteq> []"
proof -
  have pre: "prefix marker_id_prefix (free_id k taken (marker_id_prefix @ x) n)" for k taken x n
    by (induction k arbitrary: n) (auto simp: suffixed_def)
  have "ms ! sp_start g \<in> set (members_of g ms)" using assms(3,4) by (intro members_of_nth) (simp_all add: spans_at_def)
  then have "filter (\<lambda>i. i \<noteq> []) (map ms_id (members_of g ms)) \<noteq> []"
    using assms(2,4) by (force simp: identified_def list_all_iff filter_empty_conv)
  then have "has_summary_links (note_message fw ms g note)"
    using assms(5) by (auto simp: has_summary_links_def note_message_def list_all_iff)
  moreover have "fw_text fw (ms_contents (note_message fw ms g note)) = note"
    using assms(1) by (simp add: framework_ok_def note_message_def)
  moreover have "prefix marker_id_prefix (ms_id (note_message fw ms g note))"
    unfolding note_message_def message.simps by (rule pre)
  moreover from this have "ms_id (note_message fw ms g note) \<noteq> []" by (auto simp: marker_id_prefix_def)
  ultimately show ?thesis using assms(6) by (simp add: is_marker_def) (simp add: note_message_def)
qed

lemma note_for_is_note: "note_for fw ms g \<in> {tool_note, reply_note, answered_note}"
  by (simp add: note_for_def split: option.split)

lemma insert_note_unmarked:
  assumes "framework_ok fw" and "identified ms" and "sp_start g \<le> sp_end g" "sp_start g < length ms" "sp_group g \<noteq> []"
  shows "unmarked fw (insert_note fw g (note_for fw ms g) ms) = unmarked fw ms \<and> identified (insert_note fw g (note_for fw ms g) ms)
    \<and> length ms \<le> length (insert_note fw g (note_for fw ms g) ms)"
proof -
  note mark = note_is_marker [OF assms note_for_is_note]
  have "unmarked fw (take n ms @ drop n ms) = unmarked fw (take n ms) @ unmarked fw (drop n ms)" for n
    unfolding unmarked_def by (rule filter_append)
  then have "unmarked fw (take n ms) @ unmarked fw (drop n ms) = unmarked fw ms" for n by simp
  then show ?thesis using mark assms(2)
    by (auto simp: insert_note_def unmarked_def identified_def list_all_iff dest: in_set_takeD in_set_dropD)
qed

lemma insert_notes_unmarked:
  assumes "framework_ok fw" and "identified ms" and "\<forall>g \<in> set ds. sp_start g \<le> sp_end g \<and> sp_end g < length ms \<and> sp_group g \<noteq> []"
  shows "unmarked fw (insert_notes fw ds ms) = unmarked fw ms \<and> identified (insert_notes fw ds ms)"
  using assms(2,3) unfolding insert_notes_def
proof (induction "rev ds" arbitrary: ds ms)
  case (Cons g gs)
  then have ds: "ds = rev gs @ [g]" by (metis rev.simps(2) rev_rev_ident)
  let ?ms = "insert_note fw g (note_for fw ms g) ms"
  have one: "unmarked fw ?ms = unmarked fw ms \<and> identified ?ms \<and> length ms \<le> length ?ms"
    using Cons.prems ds by (intro insert_note_unmarked [OF assms(1)]) auto
  have "unmarked fw (foldl (\<lambda>ms g. insert_note fw g (note_for fw ms g) ms) ?ms (rev (rev gs))) = unmarked fw ?ms
      \<and> identified (foldl (\<lambda>ms g. insert_note fw g (note_for fw ms g) ms) ?ms (rev (rev gs)))"
    using one Cons.prems ds by (intro Cons.hyps(1)) (auto intro: less_le_trans)
  then show ?case using one ds by simp
qed simp

subsection \<open>A pass\<close>

lemma same_all_kept: "list_all2 same_message ms ms' \<Longrightarrow> list_all2 kept_message ms ms'"
  by (erule list_all2_mono) (rule same_kept)

lemma tokens_kept: "framework_ok fw \<Longrightarrow> list_all2 kept_message ms (fw_annotate_tokens fw force ms)"
  unfolding framework_ok_def using same_all_kept by blast

lemma groups_kept: "framework_ok fw \<Longrightarrow> list_all2 kept_message ms (fw_annotate_groups fw ms) \<and> identified (fw_annotate_groups fw ms)"
  unfolding framework_ok_def identified_def using same_all_kept by blast

lemma unmarked_live: "unmarked fw ms = unmarked fw ms' \<Longrightarrow> live fw ms = live fw ms'"
  by (simp add: live_def)

lemma band_in_groups: "set (middle_band fw cfg ms gs) \<subseteq> set gs"
  by (auto simp: middle_band_def real_groups_def Let_def dest!: in_set_dropD in_set_takeD)

lemma shed_keeps:
  assumes ok: "framework_ok fw" and ids: "identified ms" and kind: "kind \<in> {''tool_call'', ''assistant_text''}"
    and s: "shed fw cfg kind ceil ms = (dropped, ms')"
  shows "list_all2 kept_message (unmarked fw ms) (unmarked fw ms') \<and> identified ms'
    \<and> (if dropped then live fw ms' < live fw ms else ms' = ms)"
proof -
  let ?gs = "fw_groups fw ms"
  obtain ds ms1 where b: "shed_band fw kind ceil (removable_spans ms ?gs) (middle_band fw cfg ms ?gs) ms = (ds, ms1)" by fastforce
  have gok: "groups_ok fw ms" using ok by (simp add: framework_ok_def)
  have kept: "list_all2 kept_message ms ms1" and less: "ds \<noteq> [] \<longrightarrow> live fw ms1 < live fw ms"
    using shed_band_kept [OF gok all_kept_refl band_in_groups kind b] by simp_all
  have flags: "length ms1 = length ms" "subseq ds (middle_band fw cfg ms ?gs)"
    "\<forall>i < length ms. ms1 ! i = (if \<exists>g \<in> set ds. spans_at g i then (ms ! i)\<lparr>ms_excluded := True\<rparr> else ms ! i)"
    using shed_band_flags [OF b] by blast+
  show ?thesis
  proof (cases "ds = []")
    case True
    then have "ms1 = ms" using flags(1,3) by (auto intro: nth_equalityI)
    then show ?thesis using True s b ids by (simp add: shed_def Let_def)
  next
    case False
    have "set ds \<subseteq> set ?gs" using subseq_set [OF flags(2)] band_in_groups by blast
    then have spans: "\<forall>g \<in> set ds. sp_start g \<le> sp_end g \<and> sp_end g < length ms1 \<and> sp_group g \<noteq> []"
      using gok flags(1) unfolding groups_ok_def by auto
    have ids1: "identified ms1" by (rule kept_identified [OF kept ids])
    note put = insert_notes_unmarked [OF ok ids1 spans]
    have out: "dropped" "ms' = fw_annotate_tokens fw False (insert_notes fw ds ms1)"
      using s b False by (simp_all add: shed_def Let_def)
    note tok = tokens_kept [OF ok, of "insert_notes fw ds ms1" False, folded out(2)]
    have "list_all2 kept_message (unmarked fw ms) (unmarked fw (insert_notes fw ds ms1))"
      using kept_unmarked [OF kept] put by simp
    then have "list_all2 kept_message (unmarked fw ms) (unmarked fw ms')"
      using all_kept_trans kept_unmarked [OF tok] by blast
    moreover have "identified ms'" using kept_identified [OF tok] put by simp
    moreover have "live fw ms' < live fw ms"
      using kept_live [OF tok, of fw] unmarked_live put less False by (metis le_less_trans)
    ultimately show ?thesis using out(1) by simp
  qed
qed

lemma shed_round_keeps:
  assumes "framework_ok fw" and "identified ms" and "shed_round fw cfg ceil ms = (s, ms')"
  shows "list_all2 kept_message (unmarked fw ms) (unmarked fw ms') \<and> identified ms'
    \<and> (if s then live fw ms' < live fw ms else ms' = ms)"
proof -
  obtain s1 ms1 where one: "shed fw cfg ''tool_call'' ceil ms = (s1, ms1)" by fastforce
  note first = shed_keeps [OF assms(1,2) _ one, simplified]
  show ?thesis
  proof (cases "ac_collapse_text cfg \<and> fw_included fw ms1 > ceil")
    case False
    then show ?thesis using assms(3) one first by (simp add: shed_round_def split: if_splits)
  next
    case True
    obtain s2 ms2 where two: "shed fw cfg ''assistant_text'' ceil ms1 = (s2, ms2)" by fastforce
    note second = shed_keeps [OF assms(1) conjunct1 [OF conjunct2 [OF first]] _ two, simplified]
    have out: "s = (s2 \<or> s1)" "ms' = ms2" using assms(3) one two True by (auto simp: shed_round_def)
    show ?thesis using first second all_kept_trans unfolding out by (auto split: if_splits)
  qed
qed

lemma shed_loop_ends:
  assumes "framework_ok fw" and "identified ms"
  shows "\<exists>c ms'. shed_loop fw cfg ceil changed ms = Some (c, ms') \<and> list_all2 kept_message (unmarked fw ms) (unmarked fw ms')
    \<and> (fw_included fw ms' \<le> ceil \<or> shed_round fw cfg ceil ms' = (False, ms'))"
  using assms(2)
proof (induction "live fw ms" arbitrary: ms changed rule: less_induct)
  case less
  show ?case
  proof (cases "fw_included fw ms \<le> ceil")
    case True
    then show ?thesis by (subst shed_loop.simps) simp
  next
    case False
    obtain s ms1 where r: "shed_round fw cfg ceil ms = (s, ms1)" by fastforce
    note k = shed_round_keeps [OF assms(1) less.prems r]
    show ?thesis
    proof (cases s)
      case False
      then show ?thesis using \<open>\<not> fw_included fw ms \<le> ceil\<close> r k by (subst shed_loop.simps) simp
    next
      case True
      then have "live fw ms1 < live fw ms" "identified ms1" using k by simp_all
      from less.hyps [OF this, of True] obtain c ms' where
        "shed_loop fw cfg ceil True ms1 = Some (c, ms')" "list_all2 kept_message (unmarked fw ms1) (unmarked fw ms')"
        "fw_included fw ms' \<le> ceil \<or> shed_round fw cfg ceil ms' = (False, ms')" by blast
      moreover from this(1) have "shed_loop fw cfg ceil changed ms = Some (c, ms')"
        using \<open>\<not> fw_included fw ms \<le> ceil\<close> r True by (subst shed_loop.simps) simp
      ultimately show ?thesis using k all_kept_trans by blast
    qed
  qed
qed

text \<open>
  C18: A pass always ends.  Over a framework that groups and annotates as documented, \<open>compact_to\<close>
  returns for every conversation, ceiling and collapse, the minimum-gain one included.
\<close>

theorem compaction_ends:
  assumes "framework_ok fw"
  shows "\<exists>res. compact_to collapse fw cfg ceil ms = Some res"
proof -
  have shed: "\<exists>r. shed_to fw cfg ceil xs = Some r" for xs
  proof -
    have "identified (fw_annotate_tokens fw False (fw_annotate_groups fw xs))"
      using groups_kept [OF assms, of xs] kept_identified [OF tokens_kept [OF assms]] by blast
    from shed_loop_ends [OF assms this] show ?thesis unfolding shed_to_def by blast
  qed
  obtain repaired ms1 where r: "repair_compacted_items is_shortened ms = (repaired, ms1)" by fastforce
  let ?ms = "fw_annotate_tokens fw repaired (fw_annotate_groups fw ms1)"
  let ?band = "middle_band fw cfg ?ms (fw_groups fw ?ms)"
  show ?thesis
  proof (cases "ms = [] \<or> ?band = []")
    case True
    then show ?thesis using r by (auto simp: compact_to_def Let_def)
  next
    case False
    show ?thesis
    proof (cases "collapse fw cfg ?band ceil ?ms")
      case (Inl e)
      then show ?thesis using False r by (simp add: compact_to_def Let_def)
    next
      case (Inr res)
      obtain collapsed ms2 where "res = (collapsed, ms2)" by fastforce
      with Inr False r shed [of "if collapsed \<or> repaired then fw_annotate_tokens fw True ms2 else ms2"]
      show ?thesis by (elim exE) (simp add: compact_to_def Let_def)
    qed
  qed
qed

text \<open>
  C17: Shedding spares what it must: the messages that are not this strategy's notes come back in their
  order with their text, a message of the user or one marked preserved keeps its flag, no
  excluded message returns; and the pass stops only under the ceiling or where one more round
  would shed nothing.
\<close>

theorem shedding_spares:
  assumes "framework_ok fw" and "shed_to fw cfg ceil ms = Some (changed, ms')"
  shows "list_all2 kept_message (unmarked fw ms) (unmarked fw ms')
    \<and> (fw_included fw ms' \<le> ceil \<or> shed_round fw cfg ceil ms' = (False, ms'))"
proof -
  let ?ms = "fw_annotate_tokens fw False (fw_annotate_groups fw ms)"
  have kept: "list_all2 kept_message ms ?ms" and ids: "identified ?ms"
    using groups_kept [OF assms(1), of ms] tokens_kept [OF assms(1)] kept_identified all_kept_trans by blast+
  obtain c ms1 where one: "shed_loop fw cfg ceil False ?ms = Some (c, ms1)"
    and rest: "list_all2 kept_message (unmarked fw ?ms) (unmarked fw ms1)"
      "fw_included fw ms1 \<le> ceil \<or> shed_round fw cfg ceil ms1 = (False, ms1)"
    using shed_loop_ends [OF assms(1) ids] by blast
  from one assms(2) have "ms' = ms1" by (simp add: shed_to_def)
  with rest all_kept_trans [OF kept_unmarked [OF kept]] show ?thesis by blast
qed

subsection \<open>Calls and results\<close>

definition before :: "position \<Rightarrow> position \<Rightarrow> bool" where
  "before p q \<longleftrightarrow> fst p < fst q \<or> fst p = fst q \<and> snd p < snd q"

definition is_call :: "'a message list \<Rightarrow> position \<Rightarrow> string \<Rightarrow> string \<Rightarrow> bool" where
  "is_call ms p k d \<longleftrightarrow> fst p < length ms \<and> ms_role (ms ! fst p) = ''assistant'' \<and> snd p < length (ms_contents (ms ! fst p))
     \<and> k \<noteq> [] \<and> ct_type (ms_contents (ms ! fst p) ! snd p) = ''function_call''
     \<and> ct_call_id (ms_contents (ms ! fst p) ! snd p) = k \<and> ct_id (ms_contents (ms ! fst p) ! snd p) = d"

definition answered_by :: "'a message list \<Rightarrow> position \<Rightarrow> position \<Rightarrow> bool" where
  "answered_by ms c r \<longleftrightarrow> fst r < length ms \<and> snd r < length (ms_contents (ms ! fst r)) \<and> before c r
     \<and> (let x = ms_contents (ms ! fst r) ! snd r
        in ct_type x = ''function_result'' \<and> (\<exists>d. is_call ms c (ct_call_id x) d \<and> (ct_id x \<noteq> [] \<longrightarrow> ct_id x = d)))"

text \<open>Where the search stands: what is pending and what was found, before the position to be read next.\<close>

definition search_ok :: "'a message list \<Rightarrow> position \<Rightarrow> pending_calls \<times> (position \<times> position list) list \<Rightarrow> bool" where
  "search_ok ms q st \<longleftrightarrow>
     (\<forall>k p d. (k, p, d) \<in> set (fst st) \<longrightarrow> is_call ms p k d \<and> before p q)
     \<and> (\<forall>r cs. (r, cs) \<in> set (snd st) \<longrightarrow> before r q \<and> (\<forall>c \<in> set cs. answered_by ms c r))
     \<and> (\<forall>r c k p d. (r, [c]) \<in> set (snd st) \<longrightarrow> (k, p, d) \<in> set (fst st) \<longrightarrow> p \<noteq> c)
     \<and> sorted_wrt (\<lambda>x y. \<forall>c. snd x = [c] \<longrightarrow> c \<notin> set (snd y)) (snd st)"

lemma before_mono: "before p q \<Longrightarrow> before q q' \<Longrightarrow> before p q'"
  by (auto simp: before_def)

lemma search_okI:
  assumes "\<And>k p d. (k, p, d) \<in> set pending \<Longrightarrow> is_call ms p k d \<and> before p q"
    and "\<And>r cs. (r, cs) \<in> set results \<Longrightarrow> before r q \<and> (\<forall>c \<in> set cs. answered_by ms c r)"
    and "\<And>r c k p d. (r, [c]) \<in> set results \<Longrightarrow> (k, p, d) \<in> set pending \<Longrightarrow> p \<noteq> c"
    and "sorted_wrt (\<lambda>x y. \<forall>c. snd x = [c] \<longrightarrow> c \<notin> set (snd y)) results"
  shows "search_ok ms q (pending, results)"
  unfolding search_ok_def fst_conv snd_conv using assms by blast

lemma search_okD:
  assumes "search_ok ms q (pending, results)"
  shows "(k, p, d) \<in> set pending \<Longrightarrow> is_call ms p k d \<and> before p q"
    and "(r, cs) \<in> set results \<Longrightarrow> before r q \<and> (\<forall>c \<in> set cs. answered_by ms c r)"
    and "(r, [c]) \<in> set results \<Longrightarrow> (k, p, d) \<in> set pending \<Longrightarrow> p \<noteq> c"
    and "sorted_wrt (\<lambda>x y. \<forall>c. snd x = [c] \<longrightarrow> c \<notin> set (snd y)) results"
  using assms unfolding search_ok_def fst_conv snd_conv by blast+

lemma search_ok_later:
  assumes "search_ok ms q (pending, results)" and "before q q'"
  shows "search_ok ms q' (pending, results)"
  by (rule search_okI) (use search_okD [OF assms(1)] before_mono [OF _ assms(2)] in blast)+

text \<open>A call joins what is pending.\<close>

lemma search_ok_call:
  assumes ok: "search_ok ms q (pending, results)" and new: "is_call ms q k d"
  shows "search_ok ms (fst q, Suc (snd q)) (pending @ [(k, q, d)], results)"
proof (rule search_okI)
  note ok' = search_okD [OF search_ok_later [OF ok, of "(fst q, Suc (snd q))"]]
  have step: "before q (fst q, Suc (snd q))" by (simp add: before_def)
  show "is_call ms p k' d' \<and> before p (fst q, Suc (snd q))" if "(k', p, d') \<in> set (pending @ [(k, q, d)])" for k' p d'
    using that ok'(1) [OF step, of k' p d'] new step by (cases "(k', p, d') \<in> set pending") simp_all
  show "before r (fst q, Suc (snd q)) \<and> (\<forall>c \<in> set cs. answered_by ms c r)" if "(r, cs) \<in> set results" for r cs
    using that by (rule ok'(2) [OF step])
  show "p \<noteq> c" if "(r, [c]) \<in> set results" "(k', p, d') \<in> set (pending @ [(k, q, d)])" for r c k' p d'
  proof (cases "(k', p, d') \<in> set pending")
    case True
    then show ?thesis using that(1) search_okD(3) [OF ok] by blast
  next
    case False
    then have "p = q" using that(2) by simp
    moreover have "before c r" "before r q" using search_okD(2) [OF ok that(1)] by (simp_all add: answered_by_def)
    ultimately show ?thesis by (auto simp: before_def)
  qed
  show "sorted_wrt (\<lambda>x y. \<forall>c. snd x = [c] \<longrightarrow> c \<notin> set (snd y)) results" by (rule search_okD(4) [OF ok])
qed

text \<open>A result takes its candidates, and consumes a single one.\<close>

lemma search_ok_result:
  assumes ok: "search_ok ms q (pending, results)" and q: "fst q < length ms" "snd q < length (ms_contents (ms ! fst q))"
    and x: "x = ms_contents (ms ! fst q) ! snd q" and res: "ct_type x = ''function_result''"
  shows "search_ok ms (fst q, Suc (snd q))
    (consume (candidates_for x pending) pending, results @ [(q, candidates_for x pending)])"
proof (rule search_okI)
  let ?cs = "candidates_for x pending"
  have step: "before q (fst q, Suc (snd q))" by (simp add: before_def)
  note ok' = search_okD [OF search_ok_later [OF ok step]]
  have sub: "set (consume ?cs pending) \<subseteq> set pending" by (auto simp: consume_def split: list.splits)
  have from_pending: "\<exists>d. (ct_call_id x, p, d) \<in> set pending \<and> (ct_id x = [] \<or> d = ct_id x)" if "p \<in> set ?cs" for p
    using that by (auto simp: candidates_for_def)
  show "is_call ms p k d \<and> before p (fst q, Suc (snd q))" if "(k, p, d) \<in> set (consume ?cs pending)" for k p d
    using that sub ok'(1) by blast
  show "before r (fst q, Suc (snd q)) \<and> (\<forall>c \<in> set cs. answered_by ms c r)" if r: "(r, cs) \<in> set (results @ [(q, ?cs)])" for r cs
  proof (cases "(r, cs) \<in> set results")
    case True
    then show ?thesis by (rule ok'(2))
  next
    case False
    then have "r = q" "cs = ?cs" using r by simp_all
    moreover have "answered_by ms c q" if "c \<in> set ?cs" for c
      using from_pending [OF that] search_okD(1) [OF ok] q x res unfolding answered_by_def Let_def by metis
    ultimately show ?thesis using step by simp
  qed
  show "p \<noteq> c" if r: "(r, [c]) \<in> set (results @ [(q, ?cs)])" and p: "(k, p, d) \<in> set (consume ?cs pending)" for r c k p d
  proof (cases "(r, [c]) \<in> set results")
    case True
    then show ?thesis using p sub ok'(3) by blast
  next
    case False
    then have "?cs = [c]" using r by simp
    then show ?thesis using p by (auto simp: consume_def)
  qed
  have "c \<notin> set ?cs" if "(r, [c]) \<in> set results" for r c
    using from_pending [of c] ok'(3) [OF that] by blast
  then show "sorted_wrt (\<lambda>x y. \<forall>c. snd x = [c] \<longrightarrow> c \<notin> set (snd y)) (results @ [(q, ?cs)])"
    using ok'(4) by (auto simp: sorted_wrt_append)
qed

lemma match_content_ok:
  assumes ok: "search_ok ms (i, j) st" and i: "i < length ms" and j: "j < length (ms_contents (ms ! i))"
  shows "search_ok ms (i, Suc j) (match_content (ms_role (ms ! i)) (i, j) (ms_contents (ms ! i) ! j) st)"
proof -
  obtain pending results where st: "st = (pending, results)" by fastforce
  let ?x = "ms_contents (ms ! i) ! j"
  consider "ct_call_id ?x = []" | (call) "ct_call_id ?x \<noteq> []" "ms_role (ms ! i) = ''assistant''" "ct_type ?x = ''function_call''"
    | (result) "ct_call_id ?x \<noteq> []" "ct_type ?x = ''function_result''"
    | "ct_type ?x \<noteq> ''function_result''" "\<not> (ms_role (ms ! i) = ''assistant'' \<and> ct_type ?x = ''function_call'')"
    by blast
  then show ?thesis
  proof cases
    case call
    then have "is_call ms (i, j) (ct_call_id ?x) (ct_id ?x)" using i j by (simp add: is_call_def)
    from search_ok_call [OF ok [unfolded st] this] show ?thesis using call by (simp add: match_content_def st)
  next
    case result
    from search_ok_result [OF ok [unfolded st], of ?x] result i j show ?thesis by (simp add: match_content_def st)
  qed (use search_ok_later [OF ok [unfolded st], of "(i, Suc j)"] in \<open>auto simp: match_content_def st before_def\<close>)
qed

lemma match_contents_ok:
  assumes "search_ok ms (i, j) st" and "i < length ms" and "cs = drop j (ms_contents (ms ! i))"
  shows "search_ok ms (Suc i, 0) (match_contents (ms_role (ms ! i)) i j cs st)"
  using assms
proof (induction cs arbitrary: j st)
  case Nil
  then show ?case using search_ok_later [of ms "(i, j)" "fst st" "snd st" "(Suc i, 0)"] by (simp add: before_def)
next
  case (Cons c cs)
  then have j: "j < length (ms_contents (ms ! i))" and c: "c = ms_contents (ms ! i) ! j" and cs: "cs = drop (Suc j) (ms_contents (ms ! i))"
    by (metis drop_eq_Nil linorder_not_less list.distinct(1), metis nth_via_drop, metis drop_Suc list.sel(3) tl_drop)
  have "search_ok ms (i, Suc j) (match_content (ms_role (ms ! i)) (i, j) c st)"
    unfolding c by (rule match_content_ok [OF Cons.prems(1,2) j])
  from Cons.IH [OF this Cons.prems(2) cs] show ?case by simp
qed

lemma match_messages_ok:
  assumes "search_ok ms (i, 0) st" and "xs = drop i ms"
  shows "\<exists>q. search_ok ms q (match_messages i xs st)"
  using assms
proof (induction xs arbitrary: i st)
  case (Cons m xs)
  then have i: "i < length ms" and m: "m = ms ! i" and xs: "xs = drop (Suc i) ms"
    by (metis drop_eq_Nil linorder_not_less list.distinct(1), metis nth_via_drop, metis drop_Suc list.sel(3) tl_drop)
  have "search_ok ms (Suc i, 0) (if ms_role m \<in> {''assistant'', ''tool''} then match_contents (ms_role m) i 0 (ms_contents m) st else st)"
    using match_contents_ok [OF Cons.prems(1) i, of "ms_contents m"] search_ok_later [of ms "(i, 0)" "fst st" "snd st" "(Suc i, 0)"] Cons.prems(1)
    by (simp add: m before_def)
  from Cons.IH [OF this xs] show ?case by simp
qed auto

text \<open>
  A result is matched with calls it can answer: every candidate is a function call of an earlier
  position of the assistant with the call id of the result, and with its id where the result has
  one; and a call that is the only candidate of a result is no candidate of a later result.
\<close>

theorem results_match_their_calls:
  shows "(\<forall>(r, cands) \<in> set (function_result_candidates ms). \<forall>c \<in> set cands. answered_by ms c r)
    \<and> sorted_wrt (\<lambda>x y. \<forall>c. snd x = [c] \<longrightarrow> c \<notin> set (snd y)) (function_result_candidates ms)"
proof -
  have "search_ok ms (0, 0) ([], [])" by (simp add: search_ok_def)
  from match_messages_ok [OF this, of ms] obtain q where
    "search_ok ms q (fst (match_messages 0 ms ([], [])), function_result_candidates ms)"
    by (auto simp: function_result_candidates_def)
  from search_okD(2,4) [OF this] show ?thesis by blast
qed

text \<open>The span that holds a position is the one found for it.\<close>

lemma containing_span:
  assumes "groups_ok fw ms" and "g \<in> set (fw_groups fw ms)" and "spans_at g i"
  shows "containing (fw_groups fw ms) i = Some (sp_start g, sp_end g)"
proof -
  have "h = g" if "h \<in> set (fw_groups fw ms)" "spans_at h i" for h
  proof -
    note h = that
    obtain a where a: "a < length (fw_groups fw ms)" "fw_groups fw ms ! a = h" using h(1) by (auto simp: in_set_conv_nth)
    obtain b where b: "b < length (fw_groups fw ms)" "fw_groups fw ms ! b = g" using assms(2) by (auto simp: in_set_conv_nth)
    have srt: "sorted_wrt (\<lambda>g h. sp_end g < sp_start h) (fw_groups fw ms)" using assms(1) by (simp add: groups_ok_def)
    have "\<not> a < b" "\<not> b < a"
      using sorted_wrt_nth_less [OF srt, of a b] sorted_wrt_nth_less [OF srt, of b a] a b h(2) assms(3) by (auto simp: spans_at_def)
    then have "a = b" by simp
    then show ?thesis using a b by simp
  qed
  moreover obtain h where "find (\<lambda>g. sp_start g \<le> i \<and> i \<le> sp_end g) (rev (fw_groups fw ms)) = Some h"
    using assms(2,3) by (cases "find (\<lambda>g. sp_start g \<le> i \<and> i \<le> sp_end g) (rev (fw_groups fw ms))")
      (auto simp: find_None_iff spans_at_def)
  moreover from find_SomeD [OF this] have "h \<in> set (fw_groups fw ms)" "spans_at h i" by (simp_all add: spans_at_def)
  ultimately show ?thesis by (simp add: containing_def)
qed

lemma severedI:
  assumes "(r, cands) \<in> set matches" and "c \<in> set cands" and "k \<in> set (severed_pair spans r c)"
  shows "k \<in> set (severed spans matches)"
proof -
  have "k \<in> set (concat (map (severed_pair spans r) cands))" using assms(2,3) by auto
  then show ?thesis using assms(1) unfolding severed_def set_concat set_map by (intro UN_I [OF imageI [OF assms(1)]]) simp
qed


subsection \<open>The band and the notes\<close>

text \<open>
  The band marches forward.  As a conversation grows, the groups of the band stay in it, at their
  places, and new ones join behind them; so every result keeps the budget its position gave it.
\<close>

theorem band_marches_forward:
  assumes "\<forall>g \<in> set groups. sp_start g \<le> sp_end g \<and> sp_end g < length ms"
  shows "prefix (middle_band fw cfg ms groups) (middle_band fw cfg (ms @ later) (groups @ joined))"
proof -
  have "members_of g (ms @ later) = members_of g ms \<and> (ms @ later) ! sp_start g = ms ! sp_start g" if "g \<in> set groups" for g
    using that assms by (auto simp: members_of_def nth_append)
  then have same: "real_groups fw (ms @ later) groups = real_groups fw ms groups"
    unfolding real_groups_def is_marker_group_def by (intro filter_cong) simp_all
  obtain rest where real: "real_groups fw (ms @ later) (groups @ joined) = real_groups fw ms groups @ rest"
    using same by (auto simp: real_groups_def)
  show ?thesis
  proof (cases "int (length (real_groups fw ms groups)) - int (ac_tail cfg) \<le> int (ac_head cfg)")
    case True
    then show ?thesis by (simp add: middle_band_def Let_def)
  next
    case False
    let ?r = "real_groups fw ms groups"
    have "take (length ?r - ac_tail cfg) ?r = take (length ?r - ac_tail cfg) (take (length (?r @ rest) - ac_tail cfg) (?r @ rest))"
      by simp
    then have "prefix (take (length ?r - ac_tail cfg) ?r) (take (length (?r @ rest) - ac_tail cfg) (?r @ rest))"
      by (metis take_is_prefix)
    then obtain z where "take (length (?r @ rest) - ac_tail cfg) (?r @ rest) = take (length ?r - ac_tail cfg) ?r @ z"
      by (auto elim: prefixE)
    then show ?thesis using False unfolding middle_band_def Let_def real by simp
  qed
qed

lemma suffixed_inj: "suffixed base i = suffixed base j \<Longrightarrow> i = j"
  by (auto simp: suffixed_def split: if_splits) (metis undecimal_decimal)

lemma free_id_search:
  "(\<exists>i. free_id k taken base n = suffixed base i \<and> n \<le> i \<and> i \<le> n + k)
   \<and> (free_id k taken base n \<in> set taken \<longrightarrow> (\<forall>i. n \<le> i \<and> i \<le> n + k \<longrightarrow> suffixed base i \<in> set taken))"
proof (induction k arbitrary: n)
  case (Suc k)
  show ?case
  proof (cases "suffixed base n \<in> set taken")
    case False
    then show ?thesis by auto
  next
    case True
    have "i = n \<or> Suc n \<le> i \<and> i \<le> Suc n + k" if "n \<le> i" "i \<le> n + Suc k" for i using that by linarith
    with Suc [of "Suc n"] True show ?thesis by (fastforce)
  qed
qed auto

lemma free_id_fresh:
  assumes "length taken < k"
  shows "free_id k taken base 0 \<notin> set taken"
proof
  assume "free_id k taken base 0 \<in> set taken"
  then have "suffixed base ` {0..k} \<subseteq> set taken" using free_id_search [of k taken base 0] by auto
  moreover have "card (suffixed base ` {0..k}) = Suc k" by (simp add: card_image inj_on_def suffixed_inj)
  ultimately have "Suc k \<le> card (set taken)" by (metis card_mono List.finite_set)
  then show False using assms card_length [of taken] by simp
qed

text \<open>
  A note is left once and is told apart.  Its id is one no message has, so ids stay distinct; and
  leaving the note of a group again changes nothing, whatever the note would say then.
\<close>

theorem notes_are_left_once:
  assumes "framework_ok fw" and "identified ms" and "distinct (map ms_id ms)"
    and "sp_start g \<le> sp_end g" "sp_start g < length ms" "sp_group g \<noteq> []"
    and "note \<in> {tool_note, reply_note, answered_note}"
  shows "distinct (map ms_id (insert_note fw g note ms))
    \<and> insert_note fw g note' (insert_note fw g note ms) = insert_note fw g note ms"
proof (cases "list_ex (stands_for fw (sp_group g)) ms")
  case True
  then show ?thesis using assms(3) by (simp add: insert_note_def)
next
  case False
  let ?m = "note_message fw ms g note"
  have ins: "insert_note fw g note ms = take (sp_start g) ms @ [?m] @ drop (sp_start g) ms" using False by (simp add: insert_note_def)
  have "length (filter (\<lambda>i. i \<noteq> []) (map ms_id ms)) < Suc (length ms)" by (metis length_filter_le length_map less_Suc_eq_le)
  from free_id_fresh [OF this] have "ms_id ?m \<notin> set (filter (\<lambda>i. i \<noteq> []) (map ms_id ms))"
    unfolding note_message_def message.simps .
  moreover have mark: "is_marker fw ?m" "ms_id ?m \<noteq> []" using note_is_marker [OF assms(1,2,4-7)] by simp_all
  ultimately have "ms_id ?m \<notin> set (map ms_id ms)" by simp
  moreover have "distinct (map ms_id (take (sp_start g) ms @ drop (sp_start g) ms))" using assms(3) by simp
  ultimately have "distinct (map ms_id (insert_note fw g note ms))"
    unfolding ins map_append distinct_append by (auto dest: in_set_takeD in_set_dropD)
  moreover have "stands_for fw (sp_group g) ?m" using mark(1) by (simp add: stands_for_def) (simp add: note_message_def)
  then have "list_ex (stands_for fw (sp_group g)) (insert_note fw g note ms)" unfolding ins by simp
  ultimately show ?thesis by (simp add: insert_note_def [of fw g note'])
qed

subsection \<open>A plain framework\<close>

text \<open>Every message a group of its own; ids by position; a prompt is counted in messages.\<close>

definition plain_kind :: "unit message \<Rightarrow> string" where
  "plain_kind m = (if ms_role m = ''user'' then ''user'' else if ms_role m = ''assistant'' then ''assistant_text'' else ''tool_call'')"

definition plain_groups :: "unit message list \<Rightarrow> span list" where
  "plain_groups ms = map (\<lambda>(i, m). \<lparr>sp_start = i, sp_end = i, sp_kind = plain_kind m, sp_group = CHR ''g'' # ms_id m\<rparr>) (enumerate 0 ms)"

definition plain :: "unit framework" where
  "plain = \<lparr>fw_groups = plain_groups,
     fw_annotate_groups = (\<lambda>ms. map (\<lambda>(i, m). if ms_id m = [] then m\<lparr>ms_id := ''msg_'' @ decimal i\<rparr> else m) (enumerate 0 ms)),
     fw_annotate_tokens = (\<lambda>_ ms. ms), fw_included = (\<lambda>ms. int (length (filter (\<lambda>m. \<not> ms_excluded m) ms))),
     fw_text = (\<lambda>cs. concat (map ct_text cs)), fw_tokens = (\<lambda>t. int (length t)), fw_blank = ()\<rparr>"

lemma plain_groups_ok: "groups_ok plain ms"
proof -
  have "sorted_wrt (\<lambda>g h. sp_end g < sp_start h) (plain_groups ms)"
    by (simp add: plain_groups_def sorted_wrt_iff_nth_less nth_enumerate_eq)
  then show ?thesis
    by (auto simp: groups_ok_def plain_def plain_groups_def plain_kind_def spans_at_def in_set_enumerate_eq split: if_splits)
qed

lemma plain_ok: "framework_ok plain"
proof -
  have "list_all2 same_message ms (fw_annotate_groups plain ms)" for ms
    by (auto simp: plain_def list_all2_conv_all_nth nth_enumerate_eq same_message_def marker_id_prefix_def)
  moreover have "list_all (\<lambda>m. ms_id m \<noteq> []) (fw_annotate_groups plain ms)" for ms
    by (auto simp: plain_def list_all_iff split: if_splits)
  moreover have "list_all2 same_message ms (fw_annotate_tokens plain force ms)" for force ms
    by (simp add: plain_def list_all2_refl same_message_def)
  ultimately show ?thesis by (simp add: framework_ok_def plain_groups_ok) (simp add: plain_def)
qed

definition say :: "string \<Rightarrow> string \<Rightarrow> string \<Rightarrow> content list \<Rightarrow> unit message" where
  "say role ident t cs = \<lparr>ms_role = role, ms_contents = \<lparr>ct_type = ''text'', ct_text = t, ct_call_id = [], ct_id = [],
     ct_result = Str_result [], ct_items = []\<rparr> # cs, ms_id = ident, ms_links = None, ms_excluded = False, ms_preserved = False,
     ms_recall = False, ms_loaded = True, ms_annotation = ()\<rparr>"

definition call_part :: "string \<Rightarrow> content" where
  "call_part k = \<lparr>ct_type = ''function_call'', ct_text = [], ct_call_id = k, ct_id = [], ct_result = Str_result [], ct_items = []\<rparr>"

definition result_part :: "string \<Rightarrow> content" where
  "result_part k = \<lparr>ct_type = ''function_result'', ct_text = [], ct_call_id = k, ct_id = [], ct_result = Str_result ''ok'', ct_items = []\<rparr>"

definition talk :: "unit message list" where
  "talk = [say ''user'' ''u1'' ''go'' [], say ''tool'' ''t1'' ''one'' [], say ''tool'' ''t2'' ''two'' [], say ''user'' ''u2'' ''on'' []]"

definition brief :: anchored_config where
  "brief = \<lparr>ac_max_tokens = 3, ac_head = 0, ac_tail = 1, ac_keep = None, ac_share = (\<lambda>_. 0), ac_scale = (\<lambda>a b c. a * b div c),
     ac_collapse_text = True, ac_hook = None\<rparr>"

lemma talk_shed: "map_option (\<lambda>(c, ms). (c, map ms_id ms, map ms_excluded ms)) (shed_to plain brief 3 talk)
    = Some (True, [''u1'', ''anchored_gt1'', ''t1'', ''anchored_gt2'', ''t2'', ''u2''], [False, False, True, False, True, False])"
  by code_simp

theorem compaction_ends_witness:
  "\<exists>res. compact_to collapse_tool_results plain brief 3 talk = Some res"
  by (rule compaction_ends [OF plain_ok])

theorem shedding_spares_witness:
  "\<exists>ms'. shed_to plain brief 3 talk = Some (True, ms') \<and> map ms_excluded ms' = [False, False, True, False, True, False]
    \<and> list_all2 kept_message (unmarked plain talk) (unmarked plain ms')"
proof -
  have "shed_to plain brief 3 talk \<noteq> None"
  proof
    assume none: "shed_to plain brief 3 talk = None"
    show False using talk_shed unfolding none option.map by (rule option.distinct(1) [THEN notE])
  qed
  then obtain r where r: "shed_to plain brief 3 talk = Some r" by blast
  obtain c ms' where pair: "r = (c, ms')" by (rule prod.exhaust)
  note out = talk_shed [unfolded r pair option.map prod.case option.inject prod.inject]
  have ms': "shed_to plain brief 3 talk = Some (True, ms')" "map ms_excluded ms' = [False, False, True, False, True, False]"
    using r out by (simp_all add: pair)
  show ?thesis by (rule exI [of _ ms'], rule conjI [OF ms'(1) conjI [OF ms'(2) conjunct1 [OF shedding_spares [OF plain_ok ms'(1)]]]])
qed

text \<open>A call and its result in groups of their own are kept; a group beside them goes.\<close>

definition call_talk :: "unit message list" where
  "call_talk = [say ''user'' ''u1'' ''go'' [], say ''assistant'' ''a1'' ''look'' [call_part ''k''], say ''tool'' ''t1'' [] [result_part ''k''],
     say ''tool'' ''t2'' ''two'' [], say ''user'' ''u2'' ''on'' []]"

lemma call_talk_matches: "function_result_candidates call_talk = [((2, 1), [(1, 1)])]"
  by code_simp

lemma call_talk_shed:
  "map_prod (map sp_start) (map ms_excluded)
     (shed_band plain ''tool_call'' 1 (removable_spans call_talk (fw_groups plain call_talk))
        (middle_band plain brief call_talk (fw_groups plain call_talk)) call_talk)
   = ([3], [False, False, False, True, False])"
  by code_simp


definition tool_span :: span where
  "tool_span = \<lparr>sp_start = 1, sp_end = 1, sp_kind = ''tool_call'', sp_group = ''gt1''\<rparr>"

theorem notes_are_left_once_witness:
  "distinct (map ms_id (insert_note plain tool_span tool_note talk))
   \<and> insert_note plain tool_span reply_note (insert_note plain tool_span tool_note talk) = insert_note plain tool_span tool_note talk"
  by (rule notes_are_left_once [OF plain_ok]) (simp_all add: talk_def say_def identified_def tool_span_def)

theorem band_marches_forward_witness:
  "prefix (middle_band plain brief talk (plain_groups talk))
     (middle_band plain brief (talk @ [say ''user'' ''u3'' ''more'' []]) (plain_groups talk @ [tool_span]))"
  by (rule band_marches_forward) (simp add: plain_groups_def talk_def)

end
