(* ===== verification/Nested_Strategies.thy ===== *)
theory Nested_Strategies
  imports Main
begin

text \<open>
  Finding one strategy in a composition of them (\<open>_nested.py\<close>).  A strategy is an object with an
  identity; \<open>parts\<close> gives the elements of its \<open>strategies\<close> attribute in order, \<open>None\<close> where an
  element is none, and no elements where there is no such sequence.
\<close>

text \<open>The walk: what has been seen, and what is pending, the next one first.\<close>

partial_function (option) nested_walk ::
  "(nat \<Rightarrow> bool) \<Rightarrow> (nat \<Rightarrow> nat option list) \<Rightarrow> nat set \<Rightarrow> nat option list \<Rightarrow> nat option option" where
  "nested_walk kind parts seen pending =
     (if pending = [] then Some None
      else (case hd pending of
          None \<Rightarrow> nested_walk kind parts seen (tl pending)
        | Some s \<Rightarrow>
            if s \<in> seen then nested_walk kind parts seen (tl pending)
            else if kind s then Some (Some s)
            else nested_walk kind parts (insert s seen) (parts s @ tl pending)))"

declare nested_walk.simps [code]

definition find_nested_strategy :: "(nat \<Rightarrow> bool) \<Rightarrow> (nat \<Rightarrow> nat option list) \<Rightarrow> nat option \<Rightarrow> nat option option" where
  "find_nested_strategy kind parts start = nested_walk kind parts {} [start]"

text \<open>What a composition holds.\<close>

inductive part_of :: "(nat \<Rightarrow> nat option list) \<Rightarrow> nat \<Rightarrow> nat \<Rightarrow> bool" for parts start where
  itself: "part_of parts start start"
| deeper: "part_of parts start t \<Longrightarrow> Some u \<in> set (parts t) \<Longrightarrow> part_of parts start u"

lemma nested_walk_step:
  "nested_walk kind parts seen [] = Some None"
  "nested_walk kind parts seen (None # rest) = nested_walk kind parts seen rest"
  "nested_walk kind parts seen (Some s # rest) =
     (if s \<in> seen then nested_walk kind parts seen rest else if kind s then Some (Some s)
      else nested_walk kind parts (insert s seen) (parts s @ rest))"
  by (subst nested_walk.simps, simp)+

text \<open>Where the walk stands: the parts of what was seen are seen or pending, and nothing seen is wanted.\<close>

definition walk_ok :: "(nat \<Rightarrow> bool) \<Rightarrow> (nat \<Rightarrow> nat option list) \<Rightarrow> nat \<Rightarrow> nat set \<Rightarrow> nat option list \<Rightarrow> bool" where
  "walk_ok kind parts start seen pending \<longleftrightarrow>
     (\<forall>s \<in> seen. \<not> kind s \<and> part_of parts start s \<and> (\<forall>u. Some u \<in> set (parts s) \<longrightarrow> u \<in> seen \<or> Some u \<in> set pending))
     \<and> (\<forall>u. Some u \<in> set pending \<longrightarrow> part_of parts start u)
     \<and> (start \<in> seen \<or> Some start \<in> set pending)"

text \<open>
  The measure: a part not yet seen is seen once, and then its elements join what is pending.
\<close>

lemma nested_walk_ends:
  assumes "finite {s. part_of parts start s}" and "walk_ok kind parts start seen pending"
  shows "\<exists>res. nested_walk kind parts seen pending = Some res
    \<and> (case res of Some s \<Rightarrow> kind s \<and> part_of parts start s | None \<Rightarrow> \<forall>s. part_of parts start s \<longrightarrow> \<not> kind s)"
  using assms(2)
proof (induction "(card ({s. part_of parts start s} - seen), length pending)" arbitrary: seen pending
    rule: wf_induct_rule [OF wf_lex_prod [OF wf_less wf_less]])
  case (1 seen pending)
  show ?case
  proof (cases pending)
    case Nil
    have closed: "start \<in> seen" "\<And>s u. s \<in> seen \<Longrightarrow> Some u \<in> set (parts s) \<Longrightarrow> u \<in> seen" "\<And>s. s \<in> seen \<Longrightarrow> \<not> kind s"
      using 1(2) Nil by (simp_all add: walk_ok_def)
    have "s \<in> seen" if "part_of parts start s" for s
      using that by induction (use closed in blast)+
    then show ?thesis using closed(3) Nil by (auto simp: nested_walk_step)
  next
    case (Cons candidate rest)
    show ?thesis
    proof (cases candidate)
      case None
      have "walk_ok kind parts start seen rest" using 1(2) Cons None by (auto simp: walk_ok_def)
      then show ?thesis using 1(1) Cons None by (simp add: nested_walk_step)
    next
      case (Some s)
      show ?thesis
      proof (cases "s \<in> seen \<or> kind s")
        case True
        have "walk_ok kind parts start seen rest" if "s \<in> seen" using 1(2) Cons Some that by (auto simp: walk_ok_def)
        moreover have "part_of parts start s" using 1(2) Cons Some by (simp add: walk_ok_def)
        ultimately show ?thesis using 1(1) Cons Some True by (cases "s \<in> seen") (simp_all add: nested_walk_step)
      next
        case False
        have part: "part_of parts start s" using 1(2) Cons Some by (simp add: walk_ok_def)
        then have "card ({s. part_of parts start s} - insert s seen) < card ({s. part_of parts start s} - seen)"
          using assms(1) False by (intro psubset_card_mono) auto
        moreover have "walk_ok kind parts start (insert s seen) (parts s @ rest)"
          using 1(2) Cons Some False part by (auto simp: walk_ok_def intro: part_of.deeper)
        ultimately show ?thesis using 1(1) Cons Some False by (simp add: nested_walk_step)
      qed
    qed
  qed
qed

text \<open>
  The search for a strategy in a composition ends, also where parts hold each other in a cycle, and
  it finds one exactly if there is one: its result is a part of the wanted kind, or no part is.
\<close>

theorem nested_search_is_exhaustive:
  assumes "finite {s. part_of parts start s}"
  shows "\<exists>res. find_nested_strategy kind parts (Some start) = Some res
    \<and> (case res of Some s \<Rightarrow> kind s \<and> part_of parts start s | None \<Rightarrow> \<forall>s. part_of parts start s \<longrightarrow> \<not> kind s)"
  unfolding find_nested_strategy_def
  by (rule nested_walk_ends [OF assms]) (simp add: walk_ok_def part_of.itself)

text \<open>Two compositions that hold each other, the second one the wanted strategy as well.\<close>

definition ring :: "nat \<Rightarrow> nat option list" where
  "ring s = (if s = 0 then [None, Some 0, Some 1] else if s = 1 then [Some 0, Some 2] else [])"

lemma ring_parts: "part_of ring 0 s \<Longrightarrow> s \<in> {0, 1, 2}"
  by (induction rule: part_of.induct) (auto simp: ring_def split: if_splits)

theorem nested_search_is_exhaustive_witness:
  "find_nested_strategy (\<lambda>s. s = 2) ring (Some 0) = Some (Some 2)
   \<and> find_nested_strategy (\<lambda>s. s = 3) ring (Some 0) = Some None
   \<and> (\<exists>res. find_nested_strategy (\<lambda>s. s = 2) ring (Some 0) = Some res)"
proof -
  have "finite {s. part_of ring 0 s}" using ring_parts by (rule_tac finite_subset [of _ "{0, 1, 2}"]) auto
  from nested_search_is_exhaustive [OF this, of "\<lambda>s. s = 2"]
  have "\<exists>res. find_nested_strategy (\<lambda>s. s = 2) ring (Some 0) = Some res" by blast
  then show ?thesis by (simp add: find_nested_strategy_def nested_walk_step ring_def)
qed

end
