(* ===== verification/Spec2Isabelle.thy ===== *)
theory Spec2Isabelle
  imports Path_Properties Sandbox_Spec Routing_Properties Slot_Waiters Disposal_Properties Call_Properties Host_Call_Properties
    Guest_Run_Properties Process_Properties Transport_Properties Host_Sink Anchored_Properties Shedding_Properties Nested_Strategies
begin

text \<open>
  A model of the core of \<open>maf-sandbox\<close> (under \<open>src/packages/maf-sandbox/src/maf_sandbox\<close>), the
  library that decides which sandbox backend may run a workload, who may be inside one sandbox at
  a time, which guest paths the host may touch and which functions of the host a guest may call;
  and of the anchored compaction of \<open>maf-compaction\<close>
  (\<open>src/packages/maf-compaction/src/maf_compaction\<close>), which cuts and sheds the messages of a
  conversation that has outgrown its budget.

  The parts and how they meet.  A workload declares a \<open>SandboxSpec\<close>; a host builds a
  \<open>SandboxRouter\<close> over backends that declare what they provide; the router refuses or selects,
  acquires a sandbox for a key and keeps a ledger of what it has handed out; an admitted call
  holds one sandbox through \<open>ExclusiveSlots\<close> and condemns it for cleanup; a disposal goes through
  the ledger; every file operation of a backend first puts its path through \<open>paths.py\<close>; a guest
  program reaches functions of the host through a \<open>HostToolRegistry\<close> and the \<open>HostToolRun\<close> that
  bounds one program; the transport of \<open>_host_tools_over_exec.py\<close> starts that program in a sandbox,
  finds its requests in files, answers them through the run and stops what it has started; what a
  workload leaves behind is collected into a sink of the host.  Compaction stands apart: it meets the rest in no definition.

  Theories, in import order.
  \<^item> \<open>Maf_Prelude\<close>: results (an exception on the left), the shared facts on lists and sums.
  \<^item> \<open>Posix_Path\<close>: \<open>posixpath\<close> of the standard library as the source uses it: joining,
    normalising, splitting.
  \<^item> \<open>Vocabulary\<close>: the enumerations of \<open>_protocol.py\<close> with their ranks as linear orders, limits,
    sandbox keys, disposal failures and their fold.
  \<^item> \<open>Guest_Paths\<close>: \<open>paths.py\<close>, one definition per function; the stat and the \<open>test\<close> command of
    the guest are arguments.
  \<^item> \<open>Confinement\<close>, \<open>Guest_View\<close>, \<open>Guest_Tree\<close>, \<open>Path_Properties\<close>: what a path means, the contracts
    of a stat and of a guest as locales (\<open>truthful_stat\<close>, \<open>honest_guest\<close>), a file tree with links
    that both are interpreted on, and the properties of the path bundles.
  \<^item> \<open>Egress_Rules\<close>, \<open>Sandbox_Spec\<close>: the host and method grammar and \<open>SandboxSpec.__post_init__\<close>.
  \<^item> \<open>Declarations\<close>, \<open>Routing\<close>, \<open>Routing_Properties\<close>: reading what a backend declares, the router's
    checks in the code's order, selection, construction; the locale \<open>raised_floor\<close> states what
    raising a host floor may do and is interpreted for each floor.
  \<^item> \<open>Slots\<close>, \<open>Slot_Properties\<close>, \<open>Slot_Waiters\<close>: \<open>ExclusiveSlots\<close> of \<open>_cleanup.py\<close> as a transition
    system whose steps are the bodies that run under the guard; records of pending cleanup live
    in a store and are shared by address.  \<open>Slot_Waiters\<close> follows the wakeups: which loops are
    closed and which futures are given up are inputs of a step.
  \<^item> \<open>Ledger\<close>, \<open>Disposal\<close>, \<open>Ledger_Lemmas\<close>, \<open>Disposal_Properties\<close>: what \<open>_router.py\<close> remembers of
    each key (ownership, closed keys, failures to dispose, warnings given) and the disposals that
    settle it.  A disposal awaits the backend; what other tasks did to the ledger meanwhile is an
    argument, and the locale \<open>lawful\<close> states what such interference may do and is interpreted on
    the operations themselves.
  \<^item> \<open>Acquire\<close>, \<open>Acquire_Properties\<close>: \<open>acquire\<close> with adoption, reuse and the checks after the
    backend has answered; the backend is a \<open>server\<close>, a record of functions.
  \<^item> \<open>Calls\<close>, \<open>Call_Properties\<close>: the call scopes that enter and leave slots and ledger together
    (the record \<open>house\<close>), every claim settled on the way out.
  \<^item> \<open>Host_Tools\<close>, \<open>Host_Calls\<close>, \<open>Host_Call_Properties\<close>: declarations, registry, aggregate and the
    ledgers of a run; then the calls of a run as a machine, where a call is a phase, what it does
    between two awaits is one step, and the answers of the clock, the minter, the body and the
    transport are in the events.  The lock of the minter is held by the phase that asks.
  \<^item> \<open>Decimals\<close>, \<open>Json_Values\<close>: decimal numerals as Python prints them, the values \<open>json.loads\<close> may
    give and the text \<open>json.dumps\<close> writes for a string.
  \<^item> \<open>Guest_Runs\<close>, \<open>Guest_Run_Properties\<close>: the pure part of \<open>_host_tools_over_exec.py\<close>: the limits it
    asks of a backend, the layout of a run, the launcher's text, the receipt it prints, and what
    a removal may name.
  \<^item> \<open>Processes\<close>, \<open>Process_Properties\<close>: \<open>_processes.py\<close>, \<open>_process_info.py\<close> and the stop of
    \<open>_host_tools_over_exec.py\<close>: reading a snapshot, following lineage, telling a replacement, signals,
    verification.  A look at the guest is an argument.
  \<^item> \<open>Transport\<close>, \<open>Transport_Properties\<close>: \<open>host_tool_calls_over_exec\<close> and \<open>_supervise\<close>.  The guest, the
    clock and the backend are a record of functions of the moment, every await a moment of its own,
    so the guest may change any file between two looks; the calls go through \<open>Host_Calls\<close>, whose
    ledger the bound on what a run writes rests on.
  \<^item> \<open>Outputs\<close>, \<open>Output_Properties\<close>, \<open>Host_Sink\<close>: \<open>_outputs.py\<close>: the rules of a name, the caps, the phases of
    \<open>collect_outputs\<close> over a guest that may change its files between any two looks, and the sink that
    lands artifacts in a directory of the host, over a file tree with links.  What the Unicode
    database says is an argument.
  \<^item> \<open>Messages\<close>, \<open>Anchored\<close>, \<open>Anchored_Properties\<close>, \<open>Shedding_Properties\<close>, \<open>Nested_Strategies\<close>:
    messages and their spans, the anchored strategy (shortening, planning, shedding, notes), and
    what it keeps.  The agent framework's counting and grouping are a record of functions with the
    contract \<open>framework_ok\<close>; a number that the source holds as a float is an argument.

  Bounds and fuel.  The walk of the guest's file tree through links uses the kernel's own bound on
  links, that of the host's tree takes its bound as an argument and every property holds for all of
  them; no other definition has fuel.  The loops of \<open>shed_to\<close> and of \<open>_supervise\<close> are partial functions
  (\<open>shed_loop\<close>, \<open>supervise_loop\<close>), and that they end is a property of each; the loop that follows
  parents (\<open>inherit_loop\<close>) and the batches of signals (\<open>chunks\<close>) are total by a measure.  Timeouts and deadlines are rationals.

  Not modelled: the texts of exceptions and of log lines, observers and telemetry, the Python type
  checks that reject values of a foreign type before any field is read (a raw declaration that is
  misshapen is a constructor of its own), the context manager of the cleanup authority, the timers
  of a bounded policy (they appear as answers of the clock and as cancellations), the acquisition of
  a run's activity, what a POSIX shell does with the launcher beyond reading a quoted word, the module
  the guest imports and the collector that reads its processes (the guest is taken to be adversarial,
  so nothing rests on either), the summarizing compaction, the backends, and the parts the manifest
  lists as not modelled.
\<close>

end
